(* ===== verification/Prelude.thy ===== *)
theory Prelude
  imports Main "HOL-Library.Word" "HOL-Library.Monad_Syntax"
begin

text \<open>
  Shared material of the development: names for the machine integers of the C code, byte
  arrays with bounds-checked access, little-endian values, cyclic index arithmetic, and the
  lemma collections used by the component theories.

  Conventions. A C function that changes state is a function from the state to the new
  state and the return value. The type \<open>'a option\<close> is used around such results where the C
  code can reach undefined behaviour: \<open>None\<close> means that the call touches memory outside the
  object it works on or hands an invalid pointer to \<open>free\<close>; \<open>Some\<close> means that every access
  was in range. Unsigned integers are words of their C width; \<open>time_t\<close> is \<open>int\<close>.
\<close>

unbundle bit_operations_syntax

type_synonym u8 = "8 word"
type_synonym u16 = "16 word"
type_synonym u32 = "32 word"
type_synonym u64 = "64 word"
type_synonym bytes = "u8 list"

text \<open>The address families of \<open>sys/socket.h\<close> on Linux.\<close>

definition AF_INET :: int where "AF_INET = 2"
definition AF_INET6 :: int where "AF_INET6 = 10"

lemma af_distinct [simp]: "AF_INET \<noteq> AF_INET6" "AF_INET6 \<noteq> AF_INET"
  by (simp_all add: AF_INET_def AF_INET6_def)

named_theorems wf_simps "unfolding rules of the well-formedness invariants"
named_theorems ring_simps "cyclic index arithmetic"

section \<open>Bounds-checked arrays\<close>

definition nth_opt :: "'a list \<Rightarrow> nat \<Rightarrow> 'a option" where
  "nth_opt xs i = (if i < length xs then Some (xs ! i) else None)"

lemma nth_opt_simps [simp]: "i < length xs \<Longrightarrow> nth_opt xs i = Some (xs ! i)"
  by (simp add: nth_opt_def)

lemma nth_opt_Some_iff: "nth_opt xs i = Some x \<longleftrightarrow> i < length xs \<and> xs ! i = x"
  by (simp add: nth_opt_def)

section \<open>Reading and writing parts of an array\<close>

definition mem_read :: "'a list \<Rightarrow> nat \<Rightarrow> nat \<Rightarrow> 'a list option" where
  "mem_read m off n = (if off + n \<le> length m then Some (take n (drop off m)) else None)"

definition mem_write :: "'a list \<Rightarrow> nat \<Rightarrow> 'a list \<Rightarrow> 'a list option" where
  "mem_write m off bs =
     (if off + length bs \<le> length m then Some (take off m @ bs @ drop (off + length bs) m)
      else None)"

lemma mem_read_Some_iff:
  "mem_read m off n = Some bs \<longleftrightarrow> off + n \<le> length m \<and> bs = take n (drop off m)"
  by (auto simp: mem_read_def)

lemma mem_read_in_range [simp]:
  "off + n \<le> length m \<Longrightarrow> mem_read m off n = Some (take n (drop off m))"
  by (simp add: mem_read_def)

lemma mem_write_in_range [simp]:
  "off + length bs \<le> length m \<Longrightarrow>
     mem_write m off bs = Some (take off m @ bs @ drop (off + length bs) m)"
  by (simp add: mem_write_def)

lemma mem_write_SomeD:
  "mem_write m off bs = Some m' \<Longrightarrow>
     off + length bs \<le> length m \<and> m' = take off m @ bs @ drop (off + length bs) m"
  by (auto simp: mem_write_def split: if_splits)

lemma mem_write_length: "mem_write m off bs = Some m' \<Longrightarrow> length m' = length m"
  by (auto dest!: mem_write_SomeD)

lemma mem_read_write_same:
  "mem_write m off bs = Some m' \<Longrightarrow> take (length bs) (drop off m') = bs"
  by (auto dest!: mem_write_SomeD)

lemma mem_read_write_before:
  assumes "mem_write m off bs = Some m'" and "o2 + n \<le> off"
  shows "take n (drop o2 m') = take n (drop o2 m)"
proof -
  from assms(1) have b: "off + length bs \<le> length m"
    and m': "m' = take off m @ bs @ drop (off + length bs) m"
    by (auto dest!: mem_write_SomeD)
  have "take n (drop o2 m') = take n (drop o2 (take off m))"
    using assms(2) b by (simp add: m')
  also have "\<dots> = take n (drop o2 m)"
    using assms(2) by (simp add: drop_take)
  finally show ?thesis .
qed

lemma mem_read_write_after:
  assumes "mem_write m off bs = Some m'" and "off + length bs \<le> o2"
  shows "take n (drop o2 m') = take n (drop o2 m)"
proof -
  from assms(1) have b: "off + length bs \<le> length m"
    and m': "m' = take off m @ bs @ drop (off + length bs) m"
    by (auto dest!: mem_write_SomeD)
  have "drop o2 m' = drop (o2 - off - length bs) (drop (off + length bs) m)"
    using assms(2) b by (simp add: m')
  also have "\<dots> = drop o2 m"
    using assms(2) by simp
  finally show ?thesis by simp
qed

text \<open>A fixed-width slot of a byte array, and that writing one slot leaves the others.\<close>

definition slot :: "nat \<Rightarrow> 'a list \<Rightarrow> nat \<Rightarrow> 'a list" where
  "slot w m k = take w (drop (k * w) m)"

lemma length_slot: "(k + 1) * w \<le> length m \<Longrightarrow> length (slot w m k) = w"
  by (simp add: slot_def)

lemma slot_write_same:
  "mem_write m (k * w) bs = Some m' \<Longrightarrow> length bs = w \<Longrightarrow> slot w m' k = bs"
  unfolding slot_def using mem_read_write_same by blast

lemma slot_write_other:
  assumes "mem_write m (k * w) bs = Some m'" and "length bs = w" and "j \<noteq> k"
  shows "slot w m' j = slot w m j"
proof (cases "j < k")
  case True
  then have "(j + 1) * w \<le> k * w" by (intro mult_le_mono1) simp
  then have "j * w + w \<le> k * w" by simp
  then show ?thesis unfolding slot_def by (rule mem_read_write_before [OF assms(1)])
next
  case False
  with assms(3) have "k + 1 \<le> j" by simp
  then have "(k + 1) * w \<le> j * w" by (rule mult_le_mono1)
  then have "k * w + length bs \<le> j * w" using assms(2) by simp
  then show ?thesis unfolding slot_def by (rule mem_read_write_after [OF assms(1)])
qed

text \<open>A write inside one slot.\<close>

lemma slot_write_part_other:
  assumes m': "mem_write m (k * w + p) bs = Some m'" and p: "p + length bs \<le> w" and "j \<noteq> k"
  shows "slot w m' j = slot w m j"
proof (cases "j < k")
  case True
  then have "(j + 1) * w \<le> k * w" by (intro mult_le_mono1) simp
  then have "j * w + w \<le> k * w + p" by simp
  then show ?thesis unfolding slot_def by (rule mem_read_write_before [OF m'])
next
  case False
  with assms(3) have "(k + 1) * w \<le> j * w" by (intro mult_le_mono1) simp
  then have "k * w + p + length bs \<le> j * w" using p by simp
  then show ?thesis unfolding slot_def by (rule mem_read_write_after [OF m'])
qed

lemma slot_write_part_same:
  assumes m': "mem_write m (k * w + p) bs = Some m'" and p: "p + length bs \<le> w"
    and fits: "(k + 1) * w \<le> length m"
  shows "slot w m' k = take p (slot w m k) @ bs @ drop (p + length bs) (slot w m k)"
proof -
  have eq: "m' = take (k * w + p) m @ bs @ drop (k * w + p + length bs) m"
    using m' by (auto dest!: mem_write_SomeD)
  have "take (k * w + p) m = take (k * w) m @ take p (drop (k * w) m)"
    by (simp add: take_add)
  then have "drop (k * w) m' = take p (drop (k * w) m) @ bs @ drop (k * w + p + length bs) m"
    using fits by (simp add: eq)
  then have "slot w m' k = take p (drop (k * w) m) @ bs
      @ take (w - (p + length bs)) (drop (k * w + p + length bs) m)"
    using fits p by (simp add: slot_def)
  then show ?thesis using p by (simp add: slot_def drop_take add.commute add.left_commute)
qed

lemma take_all_mono:
  "\<forall>x\<in>set (take n xs). P x \<Longrightarrow> m \<le> n \<Longrightarrow> \<forall>x\<in>set (take m xs). P x"
  by (meson set_take_subset_set_take subsetD)

section \<open>Little-endian values\<close>

primrec le_nat :: "bytes \<Rightarrow> nat" where
  "le_nat [] = 0"
| "le_nat (b # bs) = unat b + 256 * le_nat bs"

lemma le_nat_less: "le_nat bs < 256 ^ length bs"
proof (induction bs)
  case Nil
  then show ?case by simp
next
  case (Cons b bs)
  have "unat b < 256" using unsigned_less [of b] by simp
  with Cons show ?case by simp
qed

lemma le_nat_append: "le_nat (xs @ ys) = le_nat xs + 256 ^ length xs * le_nat ys"
  by (induction xs) (simp_all add: algebra_simps)

lemma digit_256_inject:
  fixes a b p q :: nat
  assumes "a < 256" and "b < 256"
  shows "a + 256 * p = b + 256 * q \<longleftrightarrow> a = b \<and> p = q"
proof
  assume eq: "a + 256 * p = b + 256 * q"
  then have "(a + 256 * p) mod 256 = (b + 256 * q) mod 256" by simp
  with assms have "a = b" by simp
  with eq show "a = b \<and> p = q" by simp
qed simp

lemma le_nat_inject: "length xs = length ys \<Longrightarrow> le_nat xs = le_nat ys \<longleftrightarrow> xs = ys"
proof (induction xs ys rule: list_induct2)
  case Nil
  then show ?case by simp
next
  case (Cons x xs y ys)
  have "unat x < 256" "unat y < 256" using unsigned_less [of x] unsigned_less [of y] by simp_all
  from digit_256_inject [OF this] Cons show ?case by (simp add: word_unat_eq_iff)
qed

section \<open>Cyclic index arithmetic\<close>

text \<open>
  \<open>rdist n a b\<close> is the number of steps from position \<open>a\<close> forward to position \<open>b\<close> in a ring
  of \<open>n\<close> positions; \<open>radd n a k\<close> is the position \<open>k\<close> steps after \<open>a\<close>.
\<close>

definition rdist :: "nat \<Rightarrow> nat \<Rightarrow> nat \<Rightarrow> nat" where
  "rdist n a b = (if a \<le> b then b - a else n - a + b)"

definition radd :: "nat \<Rightarrow> nat \<Rightarrow> nat \<Rightarrow> nat" where
  "radd n a k = (a + k) mod n"

lemma rdist_less: "a < n \<Longrightarrow> b < n \<Longrightarrow> rdist n a b < n"
  by (auto simp: rdist_def)

lemma rdist_self [simp]: "rdist n a a = 0"
  by (simp add: rdist_def)

lemma rdist_eq_0_iff: "a < n \<Longrightarrow> b < n \<Longrightarrow> rdist n a b = 0 \<longleftrightarrow> a = b"
  by (auto simp: rdist_def)

lemma radd_less: "0 < n \<Longrightarrow> radd n a k < n"
  by (simp add: radd_def)

lemma radd_0 [simp]: "a < n \<Longrightarrow> radd n a 0 = a"
  by (simp add: radd_def)

lemma radd_radd: "radd n (radd n a j) k = radd n a (j + k)"
  by (simp add: radd_def mod_simps add.assoc)

lemma radd_cases:
  "a < n \<Longrightarrow> k < n \<Longrightarrow> radd n a k = (if a + k < n then a + k else a + k - n)"
  by (simp add: radd_def mod_if)

lemma radd_rdist: "a < n \<Longrightarrow> b < n \<Longrightarrow> radd n a (rdist n a b) = b"
  by (auto simp: rdist_def radd_def mod_if)

lemma rdist_radd: "a < n \<Longrightarrow> k < n \<Longrightarrow> rdist n a (radd n a k) = k"
  by (auto simp: rdist_def radd_cases split: if_splits)

lemma rdist_radd_right:
  "a < n \<Longrightarrow> b < n \<Longrightarrow> rdist n a b + k < n \<Longrightarrow> rdist n a (radd n b k) = rdist n a b + k"
  by (auto simp: rdist_def radd_cases split: if_splits)

lemma rdist_radd_left:
  "a < n \<Longrightarrow> b < n \<Longrightarrow> k \<le> rdist n a b \<Longrightarrow> rdist n (radd n a k) b = rdist n a b - k"
proof -
  assume a: "a < n" and b: "b < n" and k: "k \<le> rdist n a b"
  have "rdist n a b < n" using a b by (rule rdist_less)
  with k have kn: "k < n" by simp
  show ?thesis
  proof (cases "a \<le> b")
    case True
    with k have "a + k \<le> b" by (simp add: rdist_def)
    with True b show ?thesis by (simp add: rdist_def radd_def)
  next
    case False
    with a b k kn show ?thesis by (auto simp: rdist_def radd_cases)
  qed
qed

lemma radd_inject:
  "a < n \<Longrightarrow> j < n \<Longrightarrow> k < n \<Longrightarrow> radd n a j = radd n a k \<longleftrightarrow> j = k"
  by (auto simp: radd_cases split: if_splits)

lemmas [ring_simps] =
  rdist_less rdist_eq_0_iff radd_less radd_radd radd_rdist rdist_radd
  rdist_radd_right rdist_radd_left radd_inject

section \<open>Words\<close>

lemma unat_u8_less: "unat (x :: u8) < 256"
  and unat_u16_less: "unat (y :: u16) < 65536"
  and unat_u32_less: "unat (z :: u32) < 4294967296"
  using unsigned_less [of x, where ?'a = nat] unsigned_less [of y, where ?'a = nat]
    unsigned_less [of z, where ?'a = nat] by simp_all

lemma unat_ucast_up:
  fixes x :: "'a::len word"
  assumes "LENGTH('a) \<le> LENGTH('b::len)"
  shows "unat (ucast x :: 'b word) = unat x"
proof -
  have "unat x < 2 ^ LENGTH('a)" by (rule unsigned_less)
  also have "\<dots> \<le> 2 ^ LENGTH('b)" using assms by (intro power_increasing) simp_all
  finally show ?thesis by (simp add: unsigned_ucast_eq take_bit_nat_eq_self)
qed

lemma unat_ucast_16_32 [simp]: "unat (ucast (x :: u16) :: u32) = unat x"
  by (rule unat_ucast_up) simp

lemma unat_mask_and:
  fixes x :: "'a::len word"
  shows "unat (x AND mask k) = unat x mod 2 ^ k"
proof -
  have "unat (x AND mask k) = take_bit k (unat x)"
    by (simp only: take_bit_eq_mask [symmetric] unsigned_take_bit_eq)
  then show ?thesis by (simp only: take_bit_eq_mod)
qed

lemma word_pred_eq_unat:
  fixes x n :: u32
  assumes "n \<noteq> 0"
  shows "x = n - 1 \<longleftrightarrow> unat x = unat n - 1"
proof -
  have "unat (n - 1) = unat n - 1"
    using assms by (simp add: unat_minus_one)
  then show ?thesis by (simp add: word_unat_eq_iff)
qed

lemma word_pos_iff_unat: "0 < (w :: 'a::len word) \<longleftrightarrow> 0 < unat w"
  by (simp add: word_less_nat_alt)

lemma uint_pos_iff_unat: "0 < uint w \<longleftrightarrow> 0 < unat w"
  using of_nat_0_less_iff [of "unat w", where ?'a = int] by simp

lemma word_of_nat_unat: "word_of_nat (unat w) = (w :: 'a::len word)"
  by simp

lemma of_nat_u8_eq_iff: "a < 256 \<Longrightarrow> b < 256 \<Longrightarrow> (word_of_nat a :: u8) = word_of_nat b \<longleftrightarrow> a = b"
  by (simp add: word_unat_eq_iff unat_of_nat)

lemma of_nat_u8_less_iff: "a < 256 \<Longrightarrow> b < 256 \<Longrightarrow> (word_of_nat a :: u8) < word_of_nat b \<longleftrightarrow> a < b"
  by (simp add: word_less_nat_alt unat_of_nat)

text \<open>Conversion of a small \<open>uint32_t\<close> to \<open>int\<close>.\<close>

lemma sint_small: "unat (c :: u32) < 2 ^ 31 \<Longrightarrow> sint c = int (unat c)"
proof -
  assume "unat c < 2 ^ 31"
  then have "int (unat c) < int (2 ^ 31)" by (simp only: of_nat_less_iff)
  then have lt: "uint c < 2 ^ 31" by simp
  have "signed_take_bit 31 (uint c) = uint c"
    by (rule signed_take_bit_int_eq_self [OF _ lt]) (rule order_trans [OF _ uint_ge_0], simp)
  then have "sint c = uint c" unfolding sint_uint by simp
  then show "sint c = int (unat c)" by simp
qed

section \<open>Result codes of the I/O interface\<close>

text \<open>\<open>src/lib/include/io_ipc.h\<close>; the ring buffer and the file reader share them.\<close>

definition IO_IPC_SUCCESS :: int where "IO_IPC_SUCCESS = 0"
definition IO_IPC_ARG_ERR :: int where "IO_IPC_ARG_ERR = -1"
definition IO_IPC_MEM_ERR :: int where "IO_IPC_MEM_ERR = -2"
definition IO_IPC_NULLPTR_ERR :: int where "IO_IPC_NULLPTR_ERR = -3"
definition IO_IPC_MUTEX_ERR :: int where "IO_IPC_MUTEX_ERR = -4"
definition IO_IPC_SIZE_ERR :: int where "IO_IPC_SIZE_ERR = -5"

lemmas io_ipc_codes =
  IO_IPC_SUCCESS_def IO_IPC_ARG_ERR_def IO_IPC_MEM_ERR_def IO_IPC_NULLPTR_ERR_def
  IO_IPC_MUTEX_ERR_def IO_IPC_SIZE_ERR_def

end
