(* ===== verification/Counting_Table.thy ===== *)
theory Counting_Table
  imports Prelude
begin

text \<open>
  The interface between the banning logic and the table of sightings. \<open>hit\<close> records one
  sighting of a key and returns its counter, \<open>reset\<close> overwrites the counter of a known key.
  The laws are the ones the comments of \<open>src/lib/include/ip_hashtable.h\<close> state; the
  consequences for whole logs are proved here once and reach the program through the
  interpretations in \<open>Ip_Hashtable\<close>.
\<close>

text \<open>The documented counting rule: a first sighting, or a sighting after the window has
  passed, counts 1 and starts a window; any other sighting adds 1.\<close>

fun next_entry :: "int \<Rightarrow> int \<Rightarrow> (nat \<times> int) option \<Rightarrow> nat \<times> int" where
  "next_entry stime now None = (1, now)"
| "next_entry stime now (Some (n, start)) =
     (if start + stime < now then (1, now) else (n + 1, start))"

text \<open>Replaying a log of sightings, on a table and on a map.\<close>

fun hit_all :: "('t \<Rightarrow> 'k \<Rightarrow> int \<Rightarrow> (int \<times> 't) option) \<Rightarrow> 't \<Rightarrow> ('k \<times> int) list \<Rightarrow>
    (int list \<times> 't) option" where
  "hit_all h t [] = Some ([], t)"
| "hit_all h t ((k, now) # evs) =
     (case h t k now of
        None \<Rightarrow> None
      | Some (r, t') \<Rightarrow> map_option (map_prod ((#) r) id) (hit_all h t' evs))"

fun count_all :: "int \<Rightarrow> ('k \<Rightarrow> (nat \<times> int) option) \<Rightarrow> ('k \<times> int) list \<Rightarrow>
    nat list \<times> ('k \<Rightarrow> (nat \<times> int) option)" where
  "count_all w m [] = ([], m)"
| "count_all w m ((k, now) # evs) =
     (let e = next_entry w now (m k); (rs, m') = count_all w (m(k := Some e)) evs
      in (fst e # rs, m'))"

text \<open>The return values that belong to the sightings of one key.\<close>

definition returns_of :: "'k \<Rightarrow> ('k \<times> int) list \<Rightarrow> 'a list \<Rightarrow> 'a list" where
  "returns_of k evs rs = map snd (filter (\<lambda>(ev, r). fst ev = k) (zip evs rs))"

lemma count_all_Cons_fst:
  "fst (count_all w m ((k, now) # evs)) =
     fst (next_entry w now (m k)) # fst (count_all w (m(k := Some (next_entry w now (m k)))) evs)"
  by (simp add: Let_def split: prod.splits)

lemma count_all_Cons_snd:
  "snd (count_all w m ((k, now) # evs)) =
     snd (count_all w (m(k := Some (next_entry w now (m k)))) evs)"
  by (simp add: Let_def split: prod.splits)

lemma length_count_all [simp]: "length (fst (count_all w m evs)) = length evs"
proof (induction evs arbitrary: m)
  case Nil
  then show ?case by simp
next
  case (Cons ev evs)
  then show ?case by (cases ev) (simp add: count_all_Cons_fst del: count_all.simps)
qed

lemma returns_of_Nil [simp]: "returns_of k [] rs = []"
  by (simp add: returns_of_def)

lemma returns_of_Cons [simp]:
  "returns_of k ((k', a) # evs) (r # rs) = (if k' = k then r # returns_of k evs rs
     else returns_of k evs rs)"
  by (simp add: returns_of_def)

text \<open>While all sightings of a key stay inside its running window, its counter counts up by
  one per sighting, whatever else the log contains.\<close>

lemma count_all_in_window:
  assumes "m k = Some (n, start)" and "\<forall>(k', now) \<in> set evs. k' = k \<longrightarrow> now \<le> start + w"
  shows "returns_of k evs (fst (count_all w m evs))
    = [n + 1 ..< n + 1 + length (filter (\<lambda>ev. fst ev = k) evs)]"
  using assms
proof (induction evs arbitrary: m n)
  case Nil
  then show ?case by simp
next
  case (Cons ev evs)
  obtain k' now where ev: "ev = (k', now)" by (cases ev)
  let ?m = "m(k' := Some (next_entry w now (m k')))"
  have rest: "\<forall>(k', now) \<in> set evs. k' = k \<longrightarrow> now \<le> start + w" using Cons.prems by simp
  show ?case
  proof (cases "k' = k")
    case True
    with Cons.prems ev have nx: "next_entry w now (m k') = (n + 1, start)" by simp
    have "returns_of k evs (fst (count_all w ?m evs))
      = [n + 1 + 1 ..< n + 1 + 1 + length (filter (\<lambda>ev. fst ev = k) evs)]"
      by (rule Cons.IH [of ?m "n + 1"]) (use nx True rest in simp_all)
    then show ?thesis
      using nx True by (simp add: ev count_all_Cons_fst upt_conv_Cons del: upt_Suc count_all.simps)
  next
    case False
    have "returns_of k evs (fst (count_all w ?m evs))
      = [n + 1 ..< n + 1 + length (filter (\<lambda>ev. fst ev = k) evs)]"
      by (rule Cons.IH [of ?m n]) (use Cons.prems(1) False rest in simp_all)
    with False show ?thesis
      by (simp add: ev count_all_Cons_fst del: upt_Suc count_all.simps)
  qed
qed

lemma count_all_fresh_key:
  assumes "m k = None" and "filter (\<lambda>ev. fst ev = k) evs = (k, start) # rest"
    and "\<forall>(k', now) \<in> set evs. k' = k \<longrightarrow> now \<le> start + w"
  shows "returns_of k evs (fst (count_all w m evs)) = [1 ..< 2 + length rest]"
  using assms
proof (induction evs arbitrary: m)
  case Nil
  then show ?case by simp
next
  case (Cons ev evs)
  obtain k' now where ev: "ev = (k', now)" by (cases ev)
  let ?m = "m(k' := Some (next_entry w now (m k')))"
  have win: "\<forall>(k', now) \<in> set evs. k' = k \<longrightarrow> now \<le> start + w" using Cons.prems(3) by simp
  show ?case
  proof (cases "k' = k")
    case True
    with Cons.prems ev have nx: "next_entry w now (m k') = (1, start)"
      and rest: "filter (\<lambda>ev. fst ev = k) evs = rest" by auto
    have "returns_of k evs (fst (count_all w ?m evs))
      = [1 + 1 ..< 1 + 1 + length (filter (\<lambda>ev. fst ev = k) evs)]"
      by (rule count_all_in_window) (use nx True win in simp_all)
    then show ?thesis
      using nx True rest by (simp add: ev count_all_Cons_fst upt_conv_Cons del: upt_Suc count_all.simps)
  next
    case False
    have "returns_of k evs (fst (count_all w ?m evs)) = [1 ..< 2 + length rest]"
      by (rule Cons.IH [of ?m]) (use Cons.prems ev False win in simp_all)
    with False show ?thesis
      by (simp add: ev count_all_Cons_fst del: upt_Suc count_all.simps)
  qed
qed

locale counting_table =
  fixes hit :: "'t \<Rightarrow> 'k \<Rightarrow> int \<Rightarrow> (int \<times> 't) option"
    and entry :: "'t \<Rightarrow> 'k \<Rightarrow> (nat \<times> int) option"
    and window :: "'t \<Rightarrow> int"
    and wf :: "'t \<Rightarrow> bool"
    and ok :: "'k \<Rightarrow> bool"
  assumes hit_counts:
    "wf t \<Longrightarrow> ok k \<Longrightarrow> (\<And>n s. entry t k = Some (n, s) \<Longrightarrow> n + 1 < 2 ^ 31) \<Longrightarrow>
      \<exists>t'. hit t k now = Some (int (fst (next_entry (window t) now (entry t k))), t')
        \<and> wf t' \<and> window t' = window t
        \<and> entry t' k = Some (next_entry (window t) now (entry t k))
        \<and> (\<forall>k'. ok k' \<longrightarrow> k' \<noteq> k \<longrightarrow> entry t' k' = entry t k')"
begin

lemma hit_all_refines:
  assumes "wf t" and "\<forall>(k, now) \<in> set evs. ok k" and "\<forall>k. ok k \<longrightarrow> m k = entry t k"
    and "\<forall>k n s. ok k \<longrightarrow> entry t k = Some (n, s) \<longrightarrow> n + length evs < 2 ^ 31"
    and "length evs < 2 ^ 31"
  shows "\<exists>t'. hit_all hit t evs = Some (map int (fst (count_all (window t) m evs)), t')
    \<and> wf t' \<and> (\<forall>k. ok k \<longrightarrow> entry t' k = snd (count_all (window t) m evs) k)"
  using assms
proof (induction evs arbitrary: t m)
  case Nil
  then show ?case by simp
next
  case (Cons ev evs)
  obtain k now where ev: "ev = (k, now)" by (cases ev)
  have ok: "ok k" and okr: "\<forall>(k, now) \<in> set evs. ok k" using Cons.prems(2) ev by auto
  have mk: "m k = entry t k" using Cons.prems(3) ok by simp
  have small: "n + 1 < 2 ^ 31" if "entry t k = Some (n, s)" for n s
  proof -
    have "n + length (ev # evs) < 2 ^ 31" using Cons.prems(4) ok that by blast
    then show ?thesis by simp
  qed
  let ?e = "next_entry (window t) now (entry t k)"
  obtain t1 where t1: "hit t k now = Some (int (fst ?e), t1)" "wf t1" "window t1 = window t"
      "entry t1 k = Some ?e" "\<forall>k'. ok k' \<longrightarrow> k' \<noteq> k \<longrightarrow> entry t1 k' = entry t k'"
    using hit_counts [OF Cons.prems(1) ok, of now] small by blast
  have agree: "\<forall>k'. ok k' \<longrightarrow> (m(k := Some ?e)) k' = entry t1 k'"
    using t1 Cons.prems(3) by simp
  have bound: "\<forall>k' n s. ok k' \<longrightarrow> entry t1 k' = Some (n, s) \<longrightarrow> n + length evs < 2 ^ 31"
  proof (intro allI impI)
    fix k' n s assume a: "ok k'" "entry t1 k' = Some (n, s)"
    show "n + length evs < 2 ^ 31"
    proof (cases "k' = k")
      case True
      show ?thesis
      proof (cases "entry t k")
        case None
        with True a t1(4) Cons.prems(5) show ?thesis by simp
      next
        case (Some p)
        obtain n0 s0 where p: "p = (n0, s0)" by (cases p)
        have "n0 + length (ev # evs) < 2 ^ 31" using Cons.prems(4) ok Some p by blast
        with True a t1(4) Some p Cons.prems(5) show ?thesis by (auto split: if_splits)
      qed
    next
      case False
      with a t1(5) have "entry t k' = Some (n, s)" by simp
      with a(1) Cons.prems(4) have "n + length (ev # evs) < 2 ^ 31" by blast
      then show ?thesis by simp
    qed
  qed
  have "length evs < 2 ^ 31" using Cons.prems(5) by simp
  from Cons.IH [OF t1(2) okr agree bound this] obtain t2 where
    "hit_all hit t1 evs
      = Some (map int (fst (count_all (window t) (m(k := Some ?e)) evs)), t2)"
    "wf t2" "\<forall>k'. ok k' \<longrightarrow> entry t2 k' = snd (count_all (window t) (m(k := Some ?e)) evs) k'"
    unfolding t1(3) by blast
  then show ?case
    by (simp add: ev t1(1) mk count_all_Cons_fst count_all_Cons_snd del: count_all.simps)
qed

end

locale resettable_table = counting_table +
  fixes reset :: "'t \<Rightarrow> 'k \<Rightarrow> nat \<Rightarrow> int \<Rightarrow> (int \<times> 't) option"
  assumes reset_known:
    "wf t \<Longrightarrow> ok k \<Longrightarrow> entry t k = Some (n, s) \<Longrightarrow> n < 2 ^ 31 \<Longrightarrow> v < 2 ^ 31 \<Longrightarrow>
      \<exists>t'. reset t k v now = Some (int n, t') \<and> wf t' \<and> window t' = window t
        \<and> entry t' k = Some (v, now) \<and> (\<forall>k'. ok k' \<longrightarrow> k' \<noteq> k \<longrightarrow> entry t' k' = entry t k')"
    and reset_unknown:
    "wf t \<Longrightarrow> ok k \<Longrightarrow> entry t k = None \<Longrightarrow> \<exists>r < 0. reset t k v now = Some (r, t)"
begin

text \<open>After a reset to \<open>v\<close> at time \<open>now\<close>, sightings inside the window count from \<open>v + 1\<close>.\<close>

lemma counts_after_reset:
  assumes "wf t" and "ok k" and "entry t k = Some (n, s)" and "n < 2 ^ 31" and "v + 1 < 2 ^ 31"
    and "now \<le> later" and "later \<le> now + window t"
  shows "\<exists>t1 t2. reset t k v now = Some (int n, t1) \<and> hit t1 k later = Some (int (v + 1), t2)"
proof -
  have "v < 2 ^ 31" using assms(5) by simp
  from reset_known [OF assms(1-4) this] obtain t1 where t1: "reset t k v now = Some (int n, t1)"
      "wf t1" "window t1 = window t" "entry t1 k = Some (v, now)"
    by blast
  have "\<exists>t2. hit t1 k later = Some (int (fst (next_entry (window t1) later (entry t1 k))), t2)
        \<and> wf t2 \<and> window t2 = window t1
        \<and> entry t2 k = Some (next_entry (window t1) later (entry t1 k))
        \<and> (\<forall>k'. ok k' \<longrightarrow> k' \<noteq> k \<longrightarrow> entry t2 k' = entry t1 k')"
    by (rule hit_counts [OF t1(2) assms(2)]) (use t1(4) assms(5) in simp)
  then obtain t2 where
    t2: "hit t1 k later = Some (int (fst (next_entry (window t1) later (entry t1 k))), t2)"
    by blast
  have "fst (next_entry (window t1) later (entry t1 k)) = v + 1"
    using t1 assms(7) by simp
  with t1(1) t2 show ?thesis by auto
qed

end

end
