(* ===== verification/Ip_Hashtable.thy ===== *)
theory Ip_Hashtable
  imports Counting_Table
begin

text \<open>
  Model of \<open>src/lib/ip_hashtable.c\<close>, the table that counts the log lines seen per client
  address. A bin is the list of the entries chained from it, the free list is the list of
  unused entries. The keys are byte strings in memory order (4 bytes for IPv4, 16 for IPv6).
  What the C library and the kernel decide (mutex results, \<open>malloc\<close>, \<open>mmap\<close>, the page size)
  is an argument. The field \<open>e_malloc\<close> records whether an entry came from \<open>malloc\<close>; the
  C code has no such field, it is needed to say which pointers \<open>free\<close> accepts.
\<close>

section \<open>Data\<close>


definition NBINS :: nat where "NBINS = 65536"

definition IP_HTABLE_SUCCESS :: int where "IP_HTABLE_SUCCESS = 0"
definition IP_HTABLE_ARG_ERR :: int where "IP_HTABLE_ARG_ERR = -1"
definition IP_HTABLE_NULLPTR_ERR :: int where "IP_HTABLE_NULLPTR_ERR = -2"
definition IP_HTABLE_MEM_ERR :: int where "IP_HTABLE_MEM_ERR = -3"
definition IP_HTABLE_MUTEX_ERR :: int where "IP_HTABLE_MUTEX_ERR = -4"
definition IP_HTABLE_NOEXIST :: int where "IP_HTABLE_NOEXIST = -5"

lemmas ip_htable_codes =
  IP_HTABLE_SUCCESS_def IP_HTABLE_ARG_ERR_def IP_HTABLE_NULLPTR_ERR_def
  IP_HTABLE_MEM_ERR_def IP_HTABLE_MUTEX_ERR_def IP_HTABLE_NOEXIST_def

record ip_hashtable_entry_t =
  e_key :: bytes
  e_domain :: int
  e_last_access :: int
  e_count :: u32
  e_malloc :: bool

record ip_hashtable_t =
  hbins :: "u16 \<Rightarrow> ip_hashtable_entry_t list"
  free_list :: "ip_hashtable_entry_t list"
  free_list_size :: nat
  search_time :: int

text \<open>\<open>sizeof(struct ip_hashtable_entry_t)\<close> on x86-64 Linux.\<close>

definition sizeof_entry :: nat where "sizeof_entry = 48"

record ht_env =
  bin_lock_ok :: bool
  free_lock_ok :: bool
  mmap_ok :: bool
  pagesize :: nat

record ht_init_env =
  table_malloc :: "(u16 \<Rightarrow> ip_hashtable_entry_t list) option"
  free_mutex_ok :: bool
  bin_mutex_ok :: "nat \<Rightarrow> bool"
  entry_malloc :: "nat \<Rightarrow> ip_hashtable_entry_t option"

section \<open>Operations\<close>

definition addr_len :: "int \<Rightarrow> nat" where
  "addr_len domain = (if domain = AF_INET then 4 else 16)"

definition hash_ip :: "bytes \<Rightarrow> int \<Rightarrow> u16" where
  "hash_ip key domain =
     (if domain = AF_INET then ucast (drop_bit 16 (word_of_nat (le_nat (take 4 key)) :: u32))
      else if domain = AF_INET6
        then ucast ((word_of_nat (le_nat (take 16 key)) :: 128 word) AND 0xFFFF)
      else 0)"

text \<open>The initialisation loop over the bins; the first argument is the number of bins left.\<close>

fun init_bins :: "nat \<Rightarrow> ht_init_env \<Rightarrow> ip_hashtable_t \<Rightarrow> int + ip_hashtable_t" where
  "init_bins 0 env t = Inr t"
| "init_bins (Suc n) env t =
     (let i = NBINS - Suc n; t1 = t\<lparr>hbins := (hbins t)(word_of_nat i := [])\<rparr> in
      if \<not> bin_mutex_ok env i then Inl IP_HTABLE_MUTEX_ERR
      else case entry_malloc env i of
        None \<Rightarrow> Inl IP_HTABLE_MEM_ERR
      | Some e \<Rightarrow> init_bins n env
          (t1\<lparr>free_list := e\<lparr>e_malloc := True\<rparr> # free_list t1,
              free_list_size := free_list_size t1 + 1\<rparr>))"

text \<open>The first argument says whether the pointer to the result is non-null; the result is
  the return value and the table stored through it, if one is stored.\<close>

definition ip_hashtable_init :: "bool \<Rightarrow> ht_init_env \<Rightarrow> int \<Rightarrow> int \<times> ip_hashtable_t option" where
  "ip_hashtable_init htable_ptr env stime =
     (if \<not> htable_ptr then (IP_HTABLE_NULLPTR_ERR, None)
      else case table_malloc env of
        None \<Rightarrow> (IP_HTABLE_MEM_ERR, None)
      | Some garbage \<Rightarrow>
          if \<not> free_mutex_ok env then (IP_HTABLE_MUTEX_ERR, None)
          else case init_bins NBINS env
              \<lparr>hbins = garbage, free_list = [], free_list_size = 0, search_time = stime\<rparr> of
            Inl err \<Rightarrow> (err, None)
          | Inr t \<Rightarrow> (IP_HTABLE_SUCCESS, Some t))"

text \<open>The \<open>memcmp\<close> test of the chain walks; note that the stored domain is not part of it.\<close>

definition key_match :: "int \<Rightarrow> bytes \<Rightarrow> ip_hashtable_entry_t \<Rightarrow> bool" where
  "key_match domain key e \<longleftrightarrow>
     domain = AF_INET \<and> take 4 (e_key e) = take 4 key \<or>
     domain = AF_INET6 \<and> take 16 (e_key e) = take 16 key"

definition touch :: "int \<Rightarrow> int \<Rightarrow> ip_hashtable_entry_t \<Rightarrow> ip_hashtable_entry_t" where
  "touch stime access_time e =
     (if e_last_access e + stime < access_time
      then e\<lparr>e_count := 1, e_last_access := access_time\<rparr>
      else e\<lparr>e_count := e_count e + 1\<rparr>)"

text \<open>Walk of a chain to the first entry that satisfies \<open>p\<close>, which \<open>f\<close> replaces; the result
  is the entry found, before the change, and the changed chain.\<close>

fun chain_update :: "('e \<Rightarrow> bool) \<Rightarrow> ('e \<Rightarrow> 'e) \<Rightarrow> 'e list \<Rightarrow> ('e \<times> 'e list) option" where
  "chain_update p f [] = None"
| "chain_update p f (e # es) =
     (if p e then Some (e, f e # es)
      else map_option (map_prod id ((#) e)) (chain_update p f es))"

definition mmap_entry :: ip_hashtable_entry_t where
  "mmap_entry = \<lparr>e_key = replicate 16 0, e_domain = 0, e_last_access = 0, e_count = 0,
     e_malloc = False\<rparr>"

definition refill :: "nat \<Rightarrow> ip_hashtable_t \<Rightarrow> ip_hashtable_t" where
  "refill page t =
     (let n = page div sizeof_entry in
      t\<lparr>free_list := replicate n mmap_entry @ free_list t,
        free_list_size := free_list_size t + n\<rparr>)"

definition new_entry :: "int \<Rightarrow> bytes \<Rightarrow> int \<Rightarrow> ip_hashtable_entry_t \<Rightarrow> ip_hashtable_entry_t" where
  "new_entry domain key access_time e =
     e\<lparr>e_key := (if domain = AF_INET then take 4 key @ drop 4 (e_key e) else take 16 key),
       e_domain := domain, e_last_access := access_time, e_count := 1\<rparr>"

definition ht_insert ::
  "ht_env \<Rightarrow> ip_hashtable_t \<Rightarrow> bytes \<Rightarrow> int \<Rightarrow> int \<Rightarrow> (int \<times> ip_hashtable_t) option" where
  "ht_insert env t key domain access_time =
     (let b = hash_ip key domain in
      if \<not> bin_lock_ok env then Some (IP_HTABLE_MUTEX_ERR, t)
      else case chain_update (key_match domain key) (touch (search_time t) access_time)
          (hbins t b) of
        Some (e, es) \<Rightarrow>
          Some (sint (e_count (touch (search_time t) access_time e)),
                t\<lparr>hbins := (hbins t)(b := es)\<rparr>)
      | None \<Rightarrow>
          if \<not> free_lock_ok env then Some (IP_HTABLE_MUTEX_ERR, t)
          else if free_list_size t = 0 \<and> \<not> mmap_ok env then Some (IP_HTABLE_MEM_ERR, t)
          else let t1 = (if free_list_size t = 0 then refill (pagesize env) t else t) in
            case free_list t1 of
              [] \<Rightarrow> None
            | e # fl \<Rightarrow>
                Some (1, t1\<lparr>free_list := fl, free_list_size := free_list_size t1 - 1,
                  hbins := (hbins t1)(b := new_entry domain key access_time e # hbins t1 b)\<rparr>))"

text \<open>The null and domain checks that \<open>ip_hashtable_insert\<close>, \<open>_remove\<close> and \<open>_set\<close> share, and
  that the key pointer covers an address of the domain (\<open>None\<close> otherwise).\<close>

definition with_table ::
  "ip_hashtable_t option \<Rightarrow> bytes option \<Rightarrow> int \<Rightarrow>
   (ip_hashtable_t \<Rightarrow> bytes \<Rightarrow> (int \<times> ip_hashtable_t) option) \<Rightarrow>
   (int \<times> ip_hashtable_t option) option" where
  "with_table htable key domain f =
     (case (htable, key) of
        (Some t, Some k) \<Rightarrow>
          if domain \<noteq> AF_INET \<and> domain \<noteq> AF_INET6 then Some (IP_HTABLE_ARG_ERR, htable)
          else if length k < addr_len domain then None
          else map_option (map_prod id Some) (f t k)
      | _ \<Rightarrow> Some (IP_HTABLE_ARG_ERR, htable))"

definition ip_hashtable_insert ::
  "ht_env \<Rightarrow> ip_hashtable_t option \<Rightarrow> bytes option \<Rightarrow> int \<Rightarrow> int \<Rightarrow>
   (int \<times> ip_hashtable_t option) option" where
  "ip_hashtable_insert env htable key domain access_time =
     with_table htable key domain (\<lambda>t k. ht_insert env t k domain access_time)"

fun chain_unlink :: "('e \<Rightarrow> bool) \<Rightarrow> 'e list \<Rightarrow> ('e \<times> 'e list) option" where
  "chain_unlink p [] = None"
| "chain_unlink p (e # es) =
     (if p e then Some (e, es) else map_option (map_prod id ((#) e)) (chain_unlink p es))"

definition ht_remove ::
  "ht_env \<Rightarrow> ip_hashtable_t \<Rightarrow> bytes \<Rightarrow> int \<Rightarrow> (int \<times> ip_hashtable_t) option" where
  "ht_remove env t key domain =
     (let b = hash_ip key domain in
      if \<not> bin_lock_ok env then Some (IP_HTABLE_MUTEX_ERR, t)
      else case chain_unlink (key_match domain key) (hbins t b) of
        None \<Rightarrow> Some (IP_HTABLE_NOEXIST, t)
      | Some (e, es) \<Rightarrow>
          let t1 = t\<lparr>hbins := (hbins t)(b := es)\<rparr> in
          if \<not> free_lock_ok env then Some (IP_HTABLE_MUTEX_ERR, t1)
          else Some (sint (e_count e),
            t1\<lparr>free_list := e # free_list t1, free_list_size := free_list_size t1 + 1\<rparr>))"

definition ip_hashtable_remove ::
  "ht_env \<Rightarrow> ip_hashtable_t option \<Rightarrow> bytes option \<Rightarrow> int \<Rightarrow>
   (int \<times> ip_hashtable_t option) option" where
  "ip_hashtable_remove env htable key domain =
     with_table htable key domain (\<lambda>t k. ht_remove env t k domain)"

definition ht_set ::
  "ht_env \<Rightarrow> ip_hashtable_t \<Rightarrow> bytes \<Rightarrow> int \<Rightarrow> u32 \<Rightarrow> int \<Rightarrow>
   (int \<times> ip_hashtable_t) option" where
  "ht_set env t key domain val access_time =
     (let b = hash_ip key domain in
      if \<not> bin_lock_ok env then Some (IP_HTABLE_MUTEX_ERR, t)
      else case chain_update (key_match domain key)
          (\<lambda>e. e\<lparr>e_count := val, e_last_access := access_time\<rparr>) (hbins t b) of
        None \<Rightarrow> Some (IP_HTABLE_NOEXIST, t)
      | Some (e, es) \<Rightarrow> Some (sint (e_count e), t\<lparr>hbins := (hbins t)(b := es)\<rparr>))"

definition ip_hashtable_set ::
  "ht_env \<Rightarrow> ip_hashtable_t option \<Rightarrow> bytes option \<Rightarrow> int \<Rightarrow> u32 \<Rightarrow> int \<Rightarrow>
   (int \<times> ip_hashtable_t option) option" where
  "ip_hashtable_set env htable key domain val access_time =
     with_table htable key domain (\<lambda>t k. ht_set env t k domain val access_time)"

text \<open>\<open>free\<close> on every entry: undefined on a pointer that \<open>malloc\<close> did not return. The bins are
  walked in order; the outer argument is the pointer to the table pointer.\<close>

fun free_entries :: "ip_hashtable_entry_t list \<Rightarrow> unit option" where
  "free_entries [] = Some ()"
| "free_entries (e # es) = (if e_malloc e then free_entries es else None)"

fun free_bins :: "nat \<Rightarrow> ip_hashtable_t \<Rightarrow> unit option" where
  "free_bins 0 t = Some ()"
| "free_bins (Suc n) t =
     (case free_entries (hbins t (word_of_nat (NBINS - Suc n))) of
        None \<Rightarrow> None
      | Some _ \<Rightarrow> free_bins n t)"

definition ip_hashtable_destroy ::
  "ip_hashtable_t option option \<Rightarrow> (int \<times> ip_hashtable_t option option) option" where
  "ip_hashtable_destroy htable =
     (case htable of
        Some (Some t) \<Rightarrow>
          do {
            free_bins NBINS t;
            free_entries (free_list t);
            Some (IP_HTABLE_SUCCESS, Some None)
          }
      | _ \<Rightarrow> Some (IP_HTABLE_NULLPTR_ERR, htable))"

section \<open>What a lookup sees\<close>

definition ht_lookup :: "int \<Rightarrow> ip_hashtable_t \<Rightarrow> bytes \<Rightarrow> ip_hashtable_entry_t option" where
  "ht_lookup domain t key = find (key_match domain key) (hbins t (hash_ip key domain))"

text \<open>The counter of an address and the start of its counting window.\<close>

definition ht_entry :: "int \<Rightarrow> ip_hashtable_t \<Rightarrow> bytes \<Rightarrow> (nat \<times> int) option" where
  "ht_entry domain t key =
     map_option (\<lambda>e. (unat (e_count e), e_last_access e)) (ht_lookup domain t key)"

definition entry_id :: "ip_hashtable_entry_t \<Rightarrow> int \<times> bytes" where
  "entry_id e = (e_domain e, take (addr_len (e_domain e)) (e_key e))"

definition entry_ok :: "u16 \<Rightarrow> ip_hashtable_entry_t \<Rightarrow> bool" where
  "entry_ok b e \<longleftrightarrow> length (e_key e) = 16 \<and> (e_domain e = AF_INET \<or> e_domain e = AF_INET6)
     \<and> hash_ip (e_key e) (e_domain e) = b"

definition ht_wf :: "ip_hashtable_t \<Rightarrow> bool" where
  "ht_wf t \<longleftrightarrow>
     (\<forall>b. (\<forall>e\<in>set (hbins t b). entry_ok b e) \<and> distinct (map entry_id (hbins t b)))
     \<and> (\<forall>e\<in>set (free_list t). length (e_key e) = 16)
     \<and> free_list_size t = length (free_list t)"

definition env_ok :: "ht_env \<Rightarrow> bool" where
  "env_ok env \<longleftrightarrow> bin_lock_ok env \<and> free_lock_ok env \<and> mmap_ok env \<and> sizeof_entry \<le> pagesize env"

lemmas [wf_simps] = ht_wf_def entry_ok_def env_ok_def

subsection \<open>Chains\<close>

lemma chain_update_None_iff: "chain_update p f es = None \<longleftrightarrow> find p es = None"
  by (induction es) auto

lemma chain_update_find: "chain_update p f es = Some (e, es') \<Longrightarrow> find p es = Some e"
  by (induction es arbitrary: es') (auto split: if_splits)

lemma chain_update_find_upd:
  "chain_update p f es = Some (e, es') \<Longrightarrow> (\<And>x. p (f x) = p x) \<Longrightarrow> find p es' = Some (f e)"
  by (induction es arbitrary: es') (auto split: if_splits)

lemma chain_update_find_other:
  "chain_update p f es = Some (e, es') \<Longrightarrow> (\<And>x. p x \<Longrightarrow> \<not> q x \<and> \<not> q (f x)) \<Longrightarrow>
     find q es' = find q es"
  by (induction es arbitrary: es') (auto split: if_splits)

lemma chain_update_map:
  "chain_update p f es = Some (e, es') \<Longrightarrow> (\<And>x. g (f x) = g x) \<Longrightarrow> map g es' = map g es"
  by (induction es arbitrary: es') (auto split: if_splits)

lemma chain_update_ball:
  "chain_update p f es = Some (e, es') \<Longrightarrow> (\<And>x. P x \<Longrightarrow> P (f x)) \<Longrightarrow> \<forall>x\<in>set es. P x \<Longrightarrow>
     \<forall>x\<in>set es'. P x"
  by (induction es arbitrary: es') (auto split: if_splits)

lemma chain_unlink_None_iff: "chain_unlink p es = None \<longleftrightarrow> find p es = None"
  by (induction es) auto

lemma chain_unlink_find: "chain_unlink p es = Some (e, es') \<Longrightarrow> find p es = Some e"
  by (induction es arbitrary: es') (auto split: if_splits)

lemma chain_unlink_set: "chain_unlink p es = Some (e, es') \<Longrightarrow> set es' \<subseteq> set es \<and> e \<in> set es"
  by (induction es arbitrary: es') (auto split: if_splits)

lemma chain_unlink_distinct:
  "chain_unlink p es = Some (e, es') \<Longrightarrow> distinct (map g es) \<Longrightarrow>
     distinct (map g es') \<and> g e \<notin> g ` set es'"
proof (induction es arbitrary: es')
  case Nil
  then show ?case by simp
next
  case (Cons a es)
  show ?case
  proof (cases "p a")
    case True
    with Cons.prems show ?thesis by auto
  next
    case False
    with Cons.prems obtain b where b: "chain_unlink p es = Some (e, b)" "es' = a # b" by auto
    from chain_unlink_set [OF b(1)] have "g ` set b \<subseteq> g ` set es" "g e \<in> g ` set es" by auto
    with Cons.IH [OF b(1)] Cons.prems(2) b(2) show ?thesis by auto
  qed
qed

lemma chain_unlink_find_other:
  "chain_unlink p es = Some (e, es') \<Longrightarrow> (\<And>x. p x \<Longrightarrow> \<not> q x) \<Longrightarrow> find q es' = find q es"
  by (induction es arbitrary: es') (auto split: if_splits)

lemma find_None_iff_ball: "find p es = None \<longleftrightarrow> (\<forall>x\<in>set es. \<not> p x)"
  by (auto simp: find_None_iff)

subsection \<open>Keys and hashes\<close>

lemma addr_len_simps [simp]: "addr_len AF_INET = 4" "addr_len AF_INET6 = 16"
  by (simp_all add: addr_len_def)

lemma key_match_touch [simp]: "key_match d k (touch s a e) = key_match d k e"
  by (simp add: key_match_def touch_def)

lemma key_match_value [simp]:
  "key_match d k (e\<lparr>e_count := v, e_last_access := a\<rparr>) = key_match d k e"
  by (simp add: key_match_def)

lemma key_match_unique:
  "length k = addr_len d \<Longrightarrow> length k' = addr_len d \<Longrightarrow> k \<noteq> k' \<Longrightarrow> key_match d k e \<Longrightarrow>
     \<not> key_match d k' e"
  by (auto simp: key_match_def)

lemma key_match_id:
  "length k = addr_len d \<Longrightarrow> e_domain e = d \<Longrightarrow> d = AF_INET \<or> d = AF_INET6 \<Longrightarrow>
     key_match d k e \<longleftrightarrow> entry_id e = (d, k)"
  by (auto simp: key_match_def entry_id_def)

lemma hash_ip_take: "hash_ip (take (addr_len d) k) d = hash_ip k d"
  by (auto simp: hash_ip_def addr_len_def)

lemma new_entry_simps [simp]:
  "e_domain (new_entry d k a e) = d" "e_count (new_entry d k a e) = 1"
  "e_last_access (new_entry d k a e) = a"
  by (simp_all add: new_entry_def)

lemma take_new_entry:
  "length k = addr_len d \<Longrightarrow> d = AF_INET \<or> d = AF_INET6 \<Longrightarrow>
     take (addr_len d) (e_key (new_entry d k a e)) = k"
  by (auto simp: new_entry_def)

lemma new_entry_id:
  "length k = addr_len d \<Longrightarrow> d = AF_INET \<or> d = AF_INET6 \<Longrightarrow>
     entry_id (new_entry d k a e) = (d, k)"
  by (simp add: entry_id_def take_new_entry)

lemma new_entry_match:
  "length k = addr_len d \<Longrightarrow> d = AF_INET \<or> d = AF_INET6 \<Longrightarrow>
     length k' = addr_len d \<Longrightarrow> key_match d k' (new_entry d k a e) \<longleftrightarrow> k' = k"
  by (auto simp: key_match_def new_entry_def)

lemma new_entry_ok:
  assumes "length k = addr_len d" and "d = AF_INET \<or> d = AF_INET6" and "length (e_key e) = 16"
  shows "entry_ok (hash_ip k d) (new_entry d k a e)"
proof -
  have "hash_ip (e_key (new_entry d k a e)) d = hash_ip k d"
    using assms by (metis hash_ip_take take_new_entry)
  with assms show ?thesis by (auto simp: entry_ok_def new_entry_def)
qed

lemma touch_id [simp]: "entry_id (touch s a e) = entry_id e"
  by (simp add: entry_id_def touch_def)

lemma touch_ok [simp]: "entry_ok b (touch s a e) = entry_ok b e"
  by (simp add: entry_ok_def touch_def)

lemma value_id [simp]: "entry_id (e\<lparr>e_count := v, e_last_access := a\<rparr>) = entry_id e"
  by (simp add: entry_id_def)

lemma value_ok [simp]: "entry_ok b (e\<lparr>e_count := v, e_last_access := a\<rparr>) = entry_ok b e"
  by (simp add: entry_ok_def)

lemma touch_entry:
  assumes "unat (e_count e) + 1 < 2 ^ 32"
  shows "(unat (e_count (touch s now e)), e_last_access (touch s now e))
    = next_entry s now (Some (unat (e_count e), e_last_access e))"
  using assms by (auto simp: touch_def unat_word_ariths)

subsection \<open>A bin is replaced\<close>

lemma ht_wf_bin_update:
  assumes "ht_wf t" and "\<forall>e\<in>set es. entry_ok b e" and "distinct (map entry_id es)"
  shows "ht_wf (t\<lparr>hbins := (hbins t)(b := es)\<rparr>)"
  using assms by (simp add: ht_wf_def)

lemma ht_entry_bin_update:
  assumes "\<And>k. length k = addr_len d \<Longrightarrow> k \<noteq> key \<Longrightarrow> hash_ip k d = b \<Longrightarrow>
      find (key_match d k) es = find (key_match d k) (hbins t b)"
    and "length k = addr_len d" and "k \<noteq> key"
  shows "ht_entry d (t\<lparr>hbins := (hbins t)(b := es)\<rparr>) k = ht_entry d t k"
  using assms by (simp add: ht_entry_def ht_lookup_def)

section \<open>Insertion\<close>

lemma ht_insert_hit:
  assumes wf: "ht_wf t" and k: "length k = addr_len d" and env: "bin_lock_ok env"
    and hit: "ht_lookup d t k = Some e" and small: "unat (e_count e) + 1 < 2 ^ 31"
  shows "\<exists>t'. ht_insert env t k d now
      = Some (int (fst (next_entry (search_time t) now (ht_entry d t k))), t')
    \<and> ht_wf t' \<and> search_time t' = search_time t
    \<and> ht_entry d t' k = Some (next_entry (search_time t) now (ht_entry d t k))
    \<and> (\<forall>k'. length k' = addr_len d \<longrightarrow> k' \<noteq> k \<longrightarrow> ht_entry d t' k' = ht_entry d t k')"
proof -
  let ?b = "hash_ip k d" and ?f = "touch (search_time t) now"
  from hit have found: "find (key_match d k) (hbins t ?b) = Some e"
    by (simp add: ht_lookup_def)
  then obtain es where es: "chain_update (key_match d k) ?f (hbins t ?b) = Some (e, es)"
    using chain_update_None_iff [of "key_match d k" ?f "hbins t ?b"]
      chain_update_find [of "key_match d k" ?f "hbins t ?b"]
    by (cases "chain_update (key_match d k) ?f (hbins t ?b)") auto
  let ?t = "t\<lparr>hbins := (hbins t)(?b := es)\<rparr>"
  have ent: "ht_entry d t k = Some (unat (e_count e), e_last_access e)"
    using hit by (simp add: ht_entry_def)
  have small32: "unat (e_count e) + 1 < 2 ^ 32" using small by simp
  have new: "(unat (e_count (?f e)), e_last_access (?f e))
      = next_entry (search_time t) now (ht_entry d t k)"
    unfolding ent by (rule touch_entry [OF small32])
  then have cnt: "unat (e_count (?f e)) = fst (next_entry (search_time t) now (ht_entry d t k))"
    by (metis fst_conv)
  have "unat (e_count (?f e)) < 2 ^ 31"
    unfolding cnt ent using small by (auto split: if_splits)
  then have "sint (e_count (?f e)) = int (fst (next_entry (search_time t) now (ht_entry d t k)))"
    using cnt by (simp only: sint_small)
  moreover have "ht_wf ?t"
  proof (rule ht_wf_bin_update [OF wf])
    show "\<forall>x\<in>set es. entry_ok ?b x"
      by (rule chain_update_ball [OF es]) (use wf in \<open>simp_all add: ht_wf_def\<close>)
    show "distinct (map entry_id es)"
      using chain_update_map [OF es, of entry_id] wf by (simp add: ht_wf_def)
  qed
  moreover have "ht_entry d ?t k = Some (next_entry (search_time t) now (ht_entry d t k))"
    using chain_update_find_upd [OF es] new by (simp add: ht_entry_def ht_lookup_def)
  moreover have "\<forall>k'. length k' = addr_len d \<longrightarrow> k' \<noteq> k \<longrightarrow> ht_entry d ?t k' = ht_entry d t k'"
  proof (intro allI impI)
    fix k' assume "length k' = addr_len d" "k' \<noteq> k"
    then show "ht_entry d ?t k' = ht_entry d t k'"
      by (rule ht_entry_bin_update [rotated])
        (rule chain_update_find_other [OF es], use k key_match_unique in force)
  qed
  ultimately show ?thesis
    using env es by (intro exI [of _ ?t]) (simp add: ht_insert_def Let_def)
qed

lemma refill_free:
  "sizeof_entry \<le> page \<Longrightarrow> free_list (refill page t) \<noteq> []"
  by (simp add: refill_def sizeof_entry_def Let_def div_greater_zero_iff)

lemma ht_wf_take_free:
  assumes "ht_wf t" and "free_list t = e # fl"
    and "\<forall>x\<in>set es. entry_ok b x" and "distinct (map entry_id es)"
  shows "ht_wf (t\<lparr>free_list := fl, free_list_size := free_list_size t - 1,
      hbins := (hbins t)(b := es)\<rparr>)"
  using assms by (simp add: ht_wf_def)

lemma ht_wf_refill: "ht_wf t \<Longrightarrow> ht_wf (refill page t)"
  by (auto simp: ht_wf_def refill_def mmap_entry_def Let_def)

lemma refill_simps [simp]:
  "hbins (refill page t) = hbins t" "search_time (refill page t) = search_time t"
  by (simp_all add: refill_def Let_def)

lemma ht_insert_miss:
  assumes wf: "ht_wf t" and k: "length k = addr_len d" and d: "d = AF_INET \<or> d = AF_INET6"
    and env: "env_ok env" and miss: "ht_lookup d t k = None"
  shows "\<exists>t'. ht_insert env t k d now = Some (1, t')
    \<and> ht_wf t' \<and> search_time t' = search_time t \<and> ht_entry d t' k = Some (1, now)
    \<and> (\<forall>k'. length k' = addr_len d \<longrightarrow> k' \<noteq> k \<longrightarrow> ht_entry d t' k' = ht_entry d t k')"
proof -
  let ?b = "hash_ip k d"
  let ?t1 = "if free_list_size t = 0 then refill (pagesize env) t else t"
  have wf1: "ht_wf ?t1" using wf by (simp add: ht_wf_refill)
  have bins1: "hbins ?t1 = hbins t" and st1: "search_time ?t1 = search_time t" by simp_all
  have "free_list ?t1 \<noteq> []"
    using wf env refill_free by (auto simp: ht_wf_def env_ok_def)
  then obtain e fl where fl: "free_list ?t1 = e # fl" by (cases "free_list ?t1") auto
  let ?n = "new_entry d k now e"
  let ?t = "?t1\<lparr>free_list := fl, free_list_size := free_list_size ?t1 - 1,
      hbins := (hbins ?t1)(?b := ?n # hbins ?t1 ?b)\<rparr>"
  from miss have none: "find (key_match d k) (hbins t ?b) = None" by (simp add: ht_lookup_def)
  then have unmatched: "\<forall>x\<in>set (hbins t ?b). \<not> key_match d k x"
    by (simp add: find_None_iff_ball)
  have cu: "chain_update (key_match d k) (touch (search_time t) now) (hbins t ?b) = None"
    using none by (simp add: chain_update_None_iff)
  have ret: "ht_insert env t k d now = Some (1, ?t)"
    using env fl by (simp add: ht_insert_def Let_def cu env_ok_def split del: if_split)
  have e16: "length (e_key e) = 16" using wf1 fl by (simp add: ht_wf_def del: if_split)
  have "entry_id ?n \<notin> entry_id ` set (hbins t ?b)"
  proof
    assume "entry_id ?n \<in> entry_id ` set (hbins t ?b)"
    then obtain x where x: "x \<in> set (hbins t ?b)" "entry_id x = (d, k)"
      using new_entry_id [OF k d] by auto
    then have "e_domain x = d" by (simp add: entry_id_def)
    with x k d have "key_match d k x" by (simp add: key_match_id)
    with x unmatched show False by simp
  qed
  with wf have dis: "distinct (map entry_id (?n # hbins t ?b))" by (simp add: ht_wf_def)
  have ok: "\<forall>x\<in>set (?n # hbins t ?b). entry_ok ?b x"
    using wf new_entry_ok [OF k d e16] by (simp add: ht_wf_def)
  have "ht_wf ?t"
    using ht_wf_take_free [OF wf1 fl ok dis] by (simp only: bins1)
  moreover have "ht_entry d ?t k = Some (1, now)"
    using new_entry_match [OF k d k] by (simp add: ht_entry_def ht_lookup_def)
  moreover have "\<forall>k'. length k' = addr_len d \<longrightarrow> k' \<noteq> k \<longrightarrow> ht_entry d ?t k' = ht_entry d t k'"
    using new_entry_match [OF k d] by (simp add: ht_entry_def ht_lookup_def bins1)
  ultimately show ?thesis using ret st1 by (intro exI [of _ ?t]) simp
qed

text \<open>Both cases together: the counting rule, the invariant and the frame.\<close>

lemma ht_insert_counts:
  assumes wf: "ht_wf t" and d: "d = AF_INET \<or> d = AF_INET6" and k: "length k = addr_len d"
    and env: "env_ok env"
    and count: "\<And>n s. ht_entry d t k = Some (n, s) \<Longrightarrow> n + 1 < 2 ^ 31"
  shows "\<exists>t'. ht_insert env t k d now
      = Some (int (fst (next_entry (search_time t) now (ht_entry d t k))), t')
    \<and> ht_wf t' \<and> search_time t' = search_time t
    \<and> ht_entry d t' k = Some (next_entry (search_time t) now (ht_entry d t k))
    \<and> (\<forall>k'. length k' = addr_len d \<longrightarrow> k' \<noteq> k \<longrightarrow> ht_entry d t' k' = ht_entry d t k')"
proof (cases "ht_lookup d t k")
  case None
  then have "ht_entry d t k = None" by (simp add: ht_entry_def)
  with ht_insert_miss [OF wf k d env None] show ?thesis by simp
next
  case (Some e)
  then have "unat (e_count e) + 1 < 2 ^ 31" using count by (simp add: ht_entry_def)
  with ht_insert_hit [OF wf k _ Some] env show ?thesis by (simp add: env_ok_def)
qed

section \<open>Overwriting and removing a counter\<close>

lemma ht_set_known:
  assumes wf: "ht_wf t" and k: "length k = addr_len d" and env: "bin_lock_ok env"
    and hit: "ht_lookup d t k = Some e"
  shows "\<exists>t'. ht_set env t k d v now = Some (sint (e_count e), t')
    \<and> ht_wf t' \<and> search_time t' = search_time t \<and> ht_entry d t' k = Some (unat v, now)
    \<and> (\<forall>k'. length k' = addr_len d \<longrightarrow> k' \<noteq> k \<longrightarrow> ht_entry d t' k' = ht_entry d t k')"
proof -
  let ?b = "hash_ip k d" and ?f = "\<lambda>e. e\<lparr>e_count := v, e_last_access := now\<rparr>"
  from hit have found: "find (key_match d k) (hbins t ?b) = Some e"
    by (simp add: ht_lookup_def)
  then obtain es where es: "chain_update (key_match d k) ?f (hbins t ?b) = Some (e, es)"
    using chain_update_None_iff [of "key_match d k" ?f "hbins t ?b"]
      chain_update_find [of "key_match d k" ?f "hbins t ?b"]
    by (cases "chain_update (key_match d k) ?f (hbins t ?b)") auto
  let ?t = "t\<lparr>hbins := (hbins t)(?b := es)\<rparr>"
  have "ht_wf ?t"
  proof (rule ht_wf_bin_update [OF wf])
    show "\<forall>x\<in>set es. entry_ok ?b x"
      by (rule chain_update_ball [OF es]) (use wf in \<open>simp_all add: ht_wf_def\<close>)
    show "distinct (map entry_id es)"
      using chain_update_map [OF es, of entry_id] wf by (simp add: ht_wf_def)
  qed
  moreover have "ht_entry d ?t k = Some (unat v, now)"
    using chain_update_find_upd [OF es] by (simp add: ht_entry_def ht_lookup_def)
  moreover have "\<forall>k'. length k' = addr_len d \<longrightarrow> k' \<noteq> k \<longrightarrow> ht_entry d ?t k' = ht_entry d t k'"
  proof (intro allI impI)
    fix k' assume "length k' = addr_len d" "k' \<noteq> k"
    then show "ht_entry d ?t k' = ht_entry d t k'"
      by (rule ht_entry_bin_update [rotated])
        (rule chain_update_find_other [OF es], use k key_match_unique in force)
  qed
  ultimately show ?thesis
    using env es by (intro exI [of _ ?t]) (simp add: ht_set_def Let_def)
qed

lemma ht_set_unknown:
  "bin_lock_ok env \<Longrightarrow> ht_lookup d t k = None \<Longrightarrow>
     ht_set env t k d v now = Some (IP_HTABLE_NOEXIST, t)"
  by (simp add: ht_set_def ht_lookup_def Let_def
      chain_update_None_iff [where f = "\<lambda>e. e\<lparr>e_count := v, e_last_access := now\<rparr>", symmetric])

lemma with_table_ok:
  "d = AF_INET \<or> d = AF_INET6 \<Longrightarrow> length k = addr_len d \<Longrightarrow>
     with_table (Some t) (Some k) d f = map_option (map_prod id Some) (f t k)"
  by (auto simp: with_table_def)

lemma ht_wf_unlink:
  assumes wf: "ht_wf t" and un: "chain_unlink p (hbins t b) = Some (e, es)"
  shows "ht_wf (t\<lparr>hbins := (hbins t)(b := es)\<rparr>)" and "length (e_key e) = 16"
proof -
  from chain_unlink_set [OF un] have sub: "set es \<subseteq> set (hbins t b)" "e \<in> set (hbins t b)" by auto
  show "length (e_key e) = 16" using wf sub(2) by (auto simp: ht_wf_def entry_ok_def)
  show "ht_wf (t\<lparr>hbins := (hbins t)(b := es)\<rparr>)"
  proof (rule ht_wf_bin_update [OF wf])
    show "\<forall>x\<in>set es. entry_ok b x" using wf sub(1) by (auto simp: ht_wf_def)
    show "distinct (map entry_id es)"
      using chain_unlink_distinct [OF un, of entry_id] wf by (simp add: ht_wf_def)
  qed
qed

section \<open>The table as a counting table\<close>

text \<open>The environment in which no lock and no allocation fails.\<close>

definition linux_env :: ht_env where
  "linux_env = \<lparr>bin_lock_ok = True, free_lock_ok = True, mmap_ok = True, pagesize = 4096\<rparr>"

definition ht_hit :: "int \<Rightarrow> ip_hashtable_t \<Rightarrow> bytes \<Rightarrow> int \<Rightarrow> (int \<times> ip_hashtable_t) option" where
  "ht_hit d t k now =
     (case ip_hashtable_insert linux_env (Some t) (Some k) d now of
        Some (r, Some t') \<Rightarrow> Some (r, t')
      | _ \<Rightarrow> None)"

definition ht_reset ::
  "int \<Rightarrow> ip_hashtable_t \<Rightarrow> bytes \<Rightarrow> nat \<Rightarrow> int \<Rightarrow> (int \<times> ip_hashtable_t) option" where
  "ht_reset d t k v now =
     (case ip_hashtable_set linux_env (Some t) (Some k) d (word_of_nat v) now of
        Some (r, Some t') \<Rightarrow> Some (r, t')
      | _ \<Rightarrow> None)"

lemma linux_env_ok [simp]: "env_ok linux_env"
  by (simp add: env_ok_def linux_env_def sizeof_entry_def)

lemma linux_env_lock [simp]: "bin_lock_ok linux_env"
  by (simp add: linux_env_def)

lemma ht_hit_eq:
  "d = AF_INET \<or> d = AF_INET6 \<Longrightarrow> length k = addr_len d \<Longrightarrow>
     ht_hit d t k now = ht_insert linux_env t k d now"
  by (auto simp: ht_hit_def ip_hashtable_insert_def with_table_ok split: option.splits)

lemma ht_reset_eq:
  "d = AF_INET \<or> d = AF_INET6 \<Longrightarrow> length k = addr_len d \<Longrightarrow>
     ht_reset d t k v now = ht_set linux_env t k d (word_of_nat v) now"
  by (auto simp: ht_reset_def ip_hashtable_set_def with_table_ok split: option.splits)

lemma ht_resettable_table:
  assumes d: "d = AF_INET \<or> d = AF_INET6"
  shows "resettable_table (ht_hit d) (ht_entry d) search_time ht_wf
    (\<lambda>k. length k = addr_len d) (ht_reset d)"
proof unfold_locales
  fix t k now
  assume "ht_wf t" "length k = addr_len d" "\<And>n s. ht_entry d t k = Some (n, s) \<Longrightarrow> n + 1 < 2 ^ 31"
  then show "\<exists>t'. ht_hit d t k now
      = Some (int (fst (next_entry (search_time t) now (ht_entry d t k))), t')
    \<and> ht_wf t' \<and> search_time t' = search_time t
    \<and> ht_entry d t' k = Some (next_entry (search_time t) now (ht_entry d t k))
    \<and> (\<forall>k'. length k' = addr_len d \<longrightarrow> k' \<noteq> k \<longrightarrow> ht_entry d t' k' = ht_entry d t k')"
    using ht_insert_counts [of t d k linux_env now] d by (simp add: ht_hit_eq)
next
  fix t k n s and v :: nat and now :: int
  assume a: "ht_wf t" "length k = addr_len d" "ht_entry d t k = Some (n, s)" "n < 2 ^ 31"
    "v < 2 ^ 31"
  from a(3) obtain e where e: "ht_lookup d t k = Some e" "n = unat (e_count e)"
    by (auto simp: ht_entry_def)
  have "sint (e_count e) = int n" using a(4) e(2) by (simp only: sint_small)
  moreover have "unat (word_of_nat v :: u32) = v" using a(5) by (simp add: unat_of_nat)
  ultimately show "\<exists>t'. ht_reset d t k v now = Some (int n, t') \<and> ht_wf t'
    \<and> search_time t' = search_time t \<and> ht_entry d t' k = Some (v, now)
    \<and> (\<forall>k'. length k' = addr_len d \<longrightarrow> k' \<noteq> k \<longrightarrow> ht_entry d t' k' = ht_entry d t k')"
    using ht_set_known [OF a(1,2) linux_env_lock e(1), of "word_of_nat v" now] d a(2)
    by (simp add: ht_reset_eq)
next
  fix t k and v :: nat and now :: int
  assume "ht_wf t" "length k = addr_len d" "ht_entry d t k = None"
  then show "\<exists>r<0. ht_reset d t k v now = Some (r, t)"
    using d by (simp add: ht_reset_eq ht_set_unknown ht_entry_def ip_htable_codes)
qed

interpretation v4: resettable_table "ht_hit AF_INET" "ht_entry AF_INET" search_time ht_wf
  "\<lambda>k. length k = addr_len AF_INET" "ht_reset AF_INET"
  by (rule ht_resettable_table) simp

interpretation v6: resettable_table "ht_hit AF_INET6" "ht_entry AF_INET6" search_time ht_wf
  "\<lambda>k. length k = addr_len AF_INET6" "ht_reset AF_INET6"
  by (rule ht_resettable_table) simp

section \<open>Initialisation and destruction\<close>

lemma unat_u16_of_nat: "i < NBINS \<Longrightarrow> unat (word_of_nat i :: u16) = i"
  by (simp add: unat_of_nat NBINS_def)

lemma nbins_not_le [simp]: "\<not> NBINS \<le> unat (b :: u16)"
proof -
  have "unat b < 2 ^ LENGTH(16)" by (rule unsigned_less)
  then show ?thesis by (simp add: NBINS_def)
qed

definition init_ok :: "ht_init_env \<Rightarrow> nat \<Rightarrow> bool" where
  "init_ok env i \<longleftrightarrow> bin_mutex_ok env i \<and> entry_malloc env i \<noteq> None"

lemma init_bins_Inr:
  assumes "n \<le> NBINS" and "\<forall>i. NBINS - n \<le> i \<and> i < NBINS \<longrightarrow> init_ok env i"
  shows "\<exists>t'. init_bins n env t = Inr t' \<and> search_time t' = search_time t
    \<and> (\<forall>b. hbins t' b = (if NBINS - n \<le> unat b then [] else hbins t b))
    \<and> length (free_list t') = n + length (free_list t)
    \<and> free_list_size t' = n + free_list_size t
    \<and> (\<forall>e\<in>set (free_list t'). e \<in> set (free_list t) \<or>
         e_malloc e \<and> (\<exists>i. map_option e_key (entry_malloc env i) = Some (e_key e)))"
  using assms
proof (induction n arbitrary: t)
  case 0
  show ?case by simp
next
  case (Suc n)
  let ?i = "NBINS - Suc n"
  have lt: "?i < NBINS" using Suc.prems(1) by (simp add: NBINS_def)
  with Suc.prems(2) obtain e where e: "bin_mutex_ok env ?i" "entry_malloc env ?i = Some e"
    by (auto simp: init_ok_def)
  define w :: u16 where "w = word_of_nat ?i"
  have unat_w: "unat w = ?i" unfolding w_def by (rule unat_u16_of_nat [OF lt])
  define t1 where "t1 = t\<lparr>hbins := (hbins t)(w := []),
      free_list := e\<lparr>e_malloc := True\<rparr> # free_list t, free_list_size := free_list_size t + 1\<rparr>"
  have step: "init_bins (Suc n) env t = init_bins n env t1"
    using e by (simp add: t1_def w_def Let_def del: of_nat_diff)
  have pre: "n \<le> NBINS" "\<forall>i. NBINS - n \<le> i \<and> i < NBINS \<longrightarrow> init_ok env i"
    using Suc.prems by auto
  from Suc.IH [OF pre, of t1] obtain t' where
    t': "init_bins n env t1 = Inr t'" "search_time t' = search_time t1"
      "\<forall>b. hbins t' b = (if NBINS - n \<le> unat b then [] else hbins t1 b)"
      "length (free_list t') = n + length (free_list t1)"
      "free_list_size t' = n + free_list_size t1"
      "\<forall>e\<in>set (free_list t'). e \<in> set (free_list t1) \<or>
         e_malloc e \<and> (\<exists>i. map_option e_key (entry_malloc env i) = Some (e_key e))"
    by blast
  have "hbins t' b = (if NBINS - Suc n \<le> unat b then [] else hbins t b)" for b
  proof (cases "unat b = ?i")
    case True
    then have "b = w" using unat_w by (simp add: word_unat_eq_iff)
    then have "hbins t1 b = []" by (simp add: t1_def)
    then show ?thesis using t'(3) True by simp
  next
    case False
    then have "b \<noteq> w" using unat_w by auto
    then have "hbins t1 b = hbins t b" by (simp add: t1_def)
    moreover have "NBINS - n \<le> unat b \<longleftrightarrow> NBINS - Suc n \<le> unat b"
      using False Suc.prems(1) by (auto simp: NBINS_def)
    ultimately show ?thesis using t'(3) by (simp only: if_True if_False)
  qed
  moreover have "\<forall>x\<in>set (free_list t'). x \<in> set (free_list t) \<or>
      e_malloc x \<and> (\<exists>i. map_option e_key (entry_malloc env i) = Some (e_key x))"
    using t'(6) e(2) by (fastforce simp: t1_def)
  ultimately show ?case using step t' by (simp add: t1_def)
qed

lemma init_bins_Inl:
  assumes "\<exists>i. NBINS - n \<le> i \<and> i < NBINS \<and> \<not> init_ok env i" and "n \<le> NBINS"
  shows "\<exists>err < 0. init_bins n env t = Inl err"
  using assms
proof (induction n arbitrary: t)
  case 0
  then show ?case by auto
next
  case (Suc n)
  show ?case
  proof (cases "init_ok env (NBINS - Suc n)")
    case True
    from Suc.prems obtain i where "NBINS - Suc n \<le> i" "i < NBINS" "\<not> init_ok env i" by auto
    moreover with True have "i \<noteq> NBINS - Suc n" by auto
    ultimately have "\<exists>i. NBINS - n \<le> i \<and> i < NBINS \<and> \<not> init_ok env i"
      using Suc.prems(2) by (intro exI [of _ i]) (simp add: NBINS_def)
    with Suc.IH Suc.prems(2) True show ?thesis by (auto simp: init_ok_def Let_def)
  next
    case False
    then show ?thesis by (auto simp: init_ok_def Let_def ip_htable_codes)
  qed
qed

lemma free_entries_iff: "free_entries es = Some () \<longleftrightarrow> (\<forall>e\<in>set es. e_malloc e)"
  by (induction es) auto

lemma free_bins_iff:
  "n \<le> NBINS \<Longrightarrow> free_bins n t = Some () \<longleftrightarrow>
     (\<forall>b. NBINS - n \<le> unat b \<longrightarrow> (\<forall>e\<in>set (hbins t b). e_malloc e))"
proof (induction n)
  case 0
  show ?case by simp
next
  case (Suc n)
  let ?i = "NBINS - Suc n"
  have lt: "?i < NBINS" using Suc.prems by (simp add: NBINS_def)
  have "(\<forall>b :: u16. ?i \<le> unat b \<longrightarrow> P b) \<longleftrightarrow> P (word_of_nat ?i) \<and> (\<forall>b. NBINS - n \<le> unat b \<longrightarrow> P b)"
    for P
  proof -
    have "?i \<le> unat b \<longleftrightarrow> b = word_of_nat ?i \<or> NBINS - n \<le> unat b" for b :: u16
      using unat_u16_of_nat [OF lt] Suc.prems by (auto simp: word_unat_eq_iff NBINS_def)
    then show ?thesis by auto
  qed
  with Suc show ?case
    by (auto simp: free_entries_iff [symmetric] split: option.splits)
qed

section \<open>Properties\<close>


definition example_table :: ip_hashtable_t where
  "example_table = \<lparr>hbins = (\<lambda>_. []), free_list = [], free_list_size = 0, search_time = 30\<rparr>"

lemma example_table_wf [simp]: "ht_wf example_table"
  by (simp add: example_table_def ht_wf_def)

lemma example_table_entry [simp]: "ht_entry d example_table k = None"
  by (simp add: example_table_def ht_entry_def ht_lookup_def)

lemma example_table_search: "search_time example_table = 30"
  by (simp add: example_table_def)


text \<open>Initialisation succeeds exactly when the table, both kinds of mutexes and all
  65536 entries can be obtained; the new table then has empty bins, holds one free entry per
  bin, all from \<open>malloc\<close>, and is well-formed; in every other case the return value is negative
  and no table is handed out.\<close>

theorem ip_hashtable_init_correct:
  assumes keys: "\<And>i e. entry_malloc env i = Some e \<Longrightarrow> length (e_key e) = 16"
  shows "(if table_malloc env \<noteq> None \<and> free_mutex_ok env \<and> (\<forall>i < NBINS. init_ok env i)
    then \<exists>t. ip_hashtable_init True env st = (IP_HTABLE_SUCCESS, Some t) \<and> ht_wf t
      \<and> (\<forall>b. hbins t b = []) \<and> length (free_list t) = NBINS
      \<and> (\<forall>e\<in>set (free_list t). e_malloc e) \<and> search_time t = st
    else \<exists>err < 0. ip_hashtable_init True env st = (err, None))"
proof (cases "table_malloc env \<noteq> None \<and> free_mutex_ok env \<and> (\<forall>i < NBINS. init_ok env i)")
  case True
  then obtain g where g: "table_malloc env = Some g" by auto
  obtain t where t: "init_bins NBINS env
      \<lparr>hbins = g, free_list = [], free_list_size = 0, search_time = st\<rparr> = Inr t"
      "search_time t = st" "\<forall>b. hbins t b = []" "length (free_list t) = NBINS"
      "free_list_size t = NBINS"
      "\<forall>e\<in>set (free_list t). e_malloc e
        \<and> (\<exists>i. map_option e_key (entry_malloc env i) = Some (e_key e))"
    using init_bins_Inr [of NBINS env
        "\<lparr>hbins = g, free_list = [], free_list_size = 0, search_time = st\<rparr>"] True
    by auto
  have "\<forall>e\<in>set (free_list t). length (e_key e) = 16" using t(6) keys by fastforce
  then have "ht_wf t" using t by (simp add: ht_wf_def)
  with True g t show ?thesis by (auto simp: ip_hashtable_init_def)
next
  case False
  have "\<exists>err < 0. ip_hashtable_init True env st = (err, None)"
  proof (cases "table_malloc env \<noteq> None \<and> free_mutex_ok env")
    case True
    with False have "\<exists>i. NBINS - NBINS \<le> i \<and> i < NBINS \<and> \<not> init_ok env i" by simp
    then have err: "\<exists>err < 0. init_bins NBINS env t = Inl err" for t
      by (rule init_bins_Inl) simp
    from True obtain g where g: "table_malloc env = Some g" by auto
    from err [of "\<lparr>hbins = g, free_list = [], free_list_size = 0, search_time = st\<rparr>"] True g
    show ?thesis by (auto simp: ip_hashtable_init_def)
  next
    case False
    then show ?thesis
      by (cases "table_malloc env") (auto simp: ip_hashtable_init_def ip_htable_codes)
  qed
  with False show ?thesis by (simp only: if_False)
qed

definition example_init_env :: ht_init_env where
  "example_init_env = \<lparr>table_malloc = Some (\<lambda>_. []), free_mutex_ok = True,
     bin_mutex_ok = (\<lambda>_. True),
     entry_malloc = (\<lambda>i. Some \<lparr>e_key = replicate 16 7, e_domain = 0, e_last_access = 0,
       e_count = 9, e_malloc = True\<rparr>)\<rparr>"

theorem ip_hashtable_init_correct_witness:
  "\<exists>t. ip_hashtable_init True example_init_env 30 = (IP_HTABLE_SUCCESS, Some t)
    \<and> ht_wf t \<and> length (free_list t) = NBINS"
proof -
  have "length (e_key e) = 16" if "entry_malloc example_init_env i = Some e" for i e
    using that by (auto simp: example_init_env_def)
  then have "if table_malloc example_init_env \<noteq> None \<and> free_mutex_ok example_init_env
        \<and> (\<forall>i < NBINS. init_ok example_init_env i)
    then \<exists>t. ip_hashtable_init True example_init_env 30 = (IP_HTABLE_SUCCESS, Some t) \<and> ht_wf t
      \<and> (\<forall>b. hbins t b = []) \<and> length (free_list t) = NBINS
      \<and> (\<forall>e\<in>set (free_list t). e_malloc e) \<and> search_time t = 30
    else \<exists>err < 0. ip_hashtable_init True example_init_env 30 = (err, None)"
    by (rule ip_hashtable_init_correct)
  moreover have "table_malloc example_init_env \<noteq> None \<and> free_mutex_ok example_init_env
      \<and> (\<forall>i < NBINS. init_ok example_init_env i)"
    by (simp add: example_init_env_def init_ok_def)
  ultimately show ?thesis by auto
qed

text \<open>Destruction releases the table without undefined behaviour exactly when every entry
  it holds, in a bin or on the free list, came from \<open>malloc\<close>.\<close>

lemma ht_destroy_defined_iff:
  "ip_hashtable_destroy (Some (Some t)) = Some (IP_HTABLE_SUCCESS, Some None) \<longleftrightarrow>
     (\<forall>b. \<forall>e\<in>set (hbins t b). e_malloc e) \<and> (\<forall>e\<in>set (free_list t). e_malloc e)"
proof -
  have unit: "x = None \<or> x = Some ()" for x :: "unit option" by (cases x) auto
  have "ip_hashtable_destroy (Some (Some t)) = Some (IP_HTABLE_SUCCESS, Some None) \<longleftrightarrow>
      free_bins NBINS t = Some () \<and> free_entries (free_list t) = Some ()"
    using unit [of "free_bins NBINS t"] unit [of "free_entries (free_list t)"]
    by (auto simp: ip_hashtable_destroy_def)
  then show ?thesis by (simp add: free_bins_iff free_entries_iff)
qed

text \<open>Once the free list has been refilled from an anonymous mapping, destroying the table
  is undefined: the entries of the mapped page are handed to \<open>free\<close>. The refill happens at
  the first insertion that finds the free list empty.\<close>

theorem ip_hashtable_destroy_after_refill:
  assumes "ht_wf t" and "free_list t = []" and "ht_lookup d t k = None"
    and "d = AF_INET \<or> d = AF_INET6" and "length k = addr_len d" and "env_ok env"
  shows "\<exists>t'. ip_hashtable_insert env (Some t) (Some k) d now = Some (1, Some t')
    \<and> ip_hashtable_destroy (Some (Some t')) \<noteq> Some (IP_HTABLE_SUCCESS, Some None)"
proof -
  let ?b = "hash_ip k d" and ?n = "pagesize env div sizeof_entry"
  have cu: "chain_update (key_match d k) (touch (search_time t) now) (hbins t ?b) = None"
    using assms(3) by (simp add: chain_update_None_iff ht_lookup_def)
  have size0: "free_list_size t = 0" using assms(1,2) by (simp add: ht_wf_def)
  have "0 < ?n" using assms(6) by (simp add: env_ok_def div_greater_zero_iff sizeof_entry_def)
  then have fl: "free_list (refill (pagesize env) t) = mmap_entry # replicate (?n - 1) mmap_entry"
    using assms(2) by (cases ?n) (simp_all add: refill_def Let_def)
  let ?e = "new_entry d k now mmap_entry"
  obtain t' where t': "ht_insert env t k d now = Some (1, t')" "?e \<in> set (hbins t' ?b)"
    using assms(6) by (simp add: ht_insert_def Let_def cu size0 fl env_ok_def)
  have "\<not> e_malloc ?e" by (simp add: new_entry_def mmap_entry_def)
  then have "ip_hashtable_destroy (Some (Some t')) \<noteq> Some (IP_HTABLE_SUCCESS, Some None)"
    using t'(2) unfolding ht_destroy_defined_iff by blast
  with t'(1) assms(4,5) show ?thesis by (auto simp: ip_hashtable_insert_def with_table_ok)
qed

theorem ip_hashtable_destroy_after_refill_witness:
  "\<exists>t'. ip_hashtable_insert linux_env (Some example_table) (Some [10, 0, 0, 1]) AF_INET 100
      = Some (1, Some t')
    \<and> ip_hashtable_destroy (Some (Some t')) \<noteq> Some (IP_HTABLE_SUCCESS, Some None)"
  by (rule ip_hashtable_destroy_after_refill)
    (simp_all add: example_table_def ht_wf_def ht_lookup_def)

text \<open>The chain walk compares bytes but not the address family: after the IPv6 address
  2001:2001:: has been seen once, the first sighting of the IPv4 address 32.1.32.1 is counted
  on its entry and returns 2.\<close>

theorem ip_hashtable_family_confusion:
  "map_option fst (hit_all (\<lambda>t (d, k). ht_hit d t k)
     (example_table\<lparr>free_list := [mmap_entry, mmap_entry], free_list_size := 2\<rparr>)
     [((AF_INET6, [0x20, 0x01, 0x20, 0x01, 0, 0, 0, 0, 0, 0, 0, 0, 0, 0, 0, 0]), 100),
      ((AF_INET, [0x20, 0x01, 0x20, 0x01]), 101)])
   = Some [1, 2]"
proof -
  have h6: "hash_ip [0x20, 0x01, 0x20, 0x01, 0, 0, 0, 0, 0, 0, 0, 0, 0, 0, 0, 0] AF_INET6 = 0x120"
    and h4: "hash_ip [0x20, 0x01, 0x20, 0x01] AF_INET = 0x120"
    by (simp_all add: hash_ip_def)
  show ?thesis
    by (simp add: ht_hit_eq example_table_def ht_insert_def Let_def linux_env_def h4 h6
        key_match_def touch_def new_entry_def)
qed

end
