(* ===== verification/Ip_Llist.thy ===== *)
theory Ip_Llist
  imports Prelude
begin

text \<open>
  Model of \<open>src/lib/ip_llist.c\<close>, the list of banned addresses. Nodes live in an explicit heap
  from addresses to nodes, because the callers keep pointers into the list, cut it and free
  single nodes. The results of \<open>calloc\<close> and of the mutex calls are arguments. \<open>None\<close> is
  undefined behaviour: access to a freed node, or \<open>free\<close> of memory \<open>malloc\<close> did not return.
\<close>

section \<open>Data\<close>

definition IP_LLIST_SUCCESS :: int where "IP_LLIST_SUCCESS = 0"
definition IP_LLIST_ARG_ERR :: int where "IP_LLIST_ARG_ERR = -1"
definition IP_LLIST_NULLPTR_ERR :: int where "IP_LLIST_NULLPTR_ERR = -2"
definition IP_LLIST_MEM_ERR :: int where "IP_LLIST_MEM_ERR = -3"
definition IP_LLIST_MUTEX_ERR :: int where "IP_LLIST_MUTEX_ERR = -4"

lemmas ip_llist_codes =
  IP_LLIST_SUCCESS_def IP_LLIST_ARG_ERR_def IP_LLIST_NULLPTR_ERR_def IP_LLIST_MEM_ERR_def
  IP_LLIST_MUTEX_ERR_def

type_synonym addr = nat

record ip_listnode_t =
  ln_key :: bytes
  ln_timestamp :: int
  ln_domain :: int
  ln_next :: "addr option"

type_synonym node_heap = "addr \<Rightarrow> ip_listnode_t option"

record ip_llist_t =
  ll_head :: "addr option"
  ll_heap :: node_heap

text \<open>Results of the calls made by \<open>ip_llist_push\<close>.\<close>

record llist_env =
  l_node :: "addr option"
  l_key :: bool
  l_lock :: int
  l_unlock :: int

section \<open>Operations\<close>

text \<open>\<open>create_lnode\<close> returns the node. On a failed key allocation and for an unknown address
  family the code calls \<open>free(lnode)\<close>, where \<open>lnode\<close> is the address of the caller's variable.\<close>

definition create_lnode :: "llist_env \<Rightarrow> bytes option \<Rightarrow> int option \<Rightarrow> int \<Rightarrow>
    (int + addr \<times> ip_listnode_t) option" where
  "create_lnode env key ts domain =
     (case (key, ts) of
        (Some k, Some t) \<Rightarrow>
          (case l_node env of
             None \<Rightarrow> Some (Inl IP_LLIST_MEM_ERR)
           | Some a \<Rightarrow>
               if domain = AF_INET then
                 if \<not> l_key env \<or> length k < 4 then None
                 else Some (Inr (a, \<lparr>ln_key = take 4 k, ln_timestamp = t, ln_domain = AF_INET,
                        ln_next = None\<rparr>))
               else if domain = AF_INET6 then
                 if \<not> l_key env \<or> length k < 16 then None
                 else Some (Inr (a, \<lparr>ln_key = take 16 k, ln_timestamp = t, ln_domain = AF_INET6,
                        ln_next = None\<rparr>))
               else None)
      | _ \<Rightarrow> Some (Inl IP_LLIST_NULLPTR_ERR))"

definition ip_llist_init :: "bool \<Rightarrow> bool \<Rightarrow> node_heap \<Rightarrow> int \<times> ip_llist_t option" where
  "ip_llist_init llist calloc_ok h =
     (if \<not> llist then (IP_LLIST_NULLPTR_ERR, None)
      else if \<not> calloc_ok then (IP_LLIST_MEM_ERR, None)
      else (IP_LLIST_SUCCESS, Some \<lparr>ll_head = None, ll_heap = h\<rparr>))"

definition ip_llist_push :: "llist_env \<Rightarrow> ip_llist_t option \<Rightarrow> bytes option \<Rightarrow> int option \<Rightarrow> int \<Rightarrow>
    (int \<times> ip_llist_t option) option" where
  "ip_llist_push env llist key ts domain =
     (case llist of
        None \<Rightarrow> Some (IP_LLIST_NULLPTR_ERR, None)
      | Some l \<Rightarrow>
          if key = None then Some (IP_LLIST_NULLPTR_ERR, Some l)
          else do {
            r \<leftarrow> create_lnode env key ts domain;
            (case r of
               Inl err \<Rightarrow> Some (err, Some l)
             | Inr (a, n) \<Rightarrow>
                 if l_lock env \<noteq> 0
                 then Some (IP_LLIST_MUTEX_ERR, Some (l\<lparr>ll_heap := (ll_heap l)(a \<mapsto> n)\<rparr>))
                 else let l' = (case ll_head l of
                        None \<Rightarrow> l\<lparr>ll_head := Some a, ll_heap := (ll_heap l)(a \<mapsto> n)\<rparr>
                      | Some h \<Rightarrow> l\<lparr>ll_head := Some a,
                          ll_heap := (ll_heap l)(a \<mapsto> n\<lparr>ln_next := Some h\<rparr>)\<rparr>)
                   in Some (if l_unlock env \<noteq> 0 then IP_LLIST_MUTEX_ERR else IP_LLIST_SUCCESS, Some l'))
          })"

definition destroy_lnode :: "addr \<Rightarrow> node_heap \<Rightarrow> node_heap option" where
  "destroy_lnode a h = (case h a of None \<Rightarrow> None | Some _ \<Rightarrow> Some (h(a := None)))"

definition ip_llist_remove :: "addr option \<Rightarrow> addr option \<Rightarrow> node_heap \<Rightarrow> (int \<times> node_heap) option" where
  "ip_llist_remove node prev h =
     (case node of
        None \<Rightarrow> Some (IP_LLIST_NULLPTR_ERR, h)
      | Some a \<Rightarrow> do {
          n \<leftarrow> h a;
          h1 \<leftarrow> (case prev of
                  None \<Rightarrow> Some h
                | Some p \<Rightarrow> do { pn \<leftarrow> h p; Some (h(p \<mapsto> pn\<lparr>ln_next := ln_next n\<rparr>)) });
          h2 \<leftarrow> destroy_lnode a h1;
          Some (IP_LLIST_SUCCESS, h2)
        })"

text \<open>The loop of \<open>ip_llist_destroy\<close>: it may not end on a cyclic heap, hence a partial function;
  \<open>error\<close> keeps the last failure.\<close>

partial_function (option) destroy_nodes :: "addr option \<Rightarrow> int \<Rightarrow> node_heap \<Rightarrow> (int \<times> node_heap) option"
  where
  "destroy_nodes it error h =
     (case it of
        None \<Rightarrow> Some (error, h)
      | Some a \<Rightarrow> do {
          n \<leftarrow> h a;
          (retval, h') \<leftarrow> ip_llist_remove (Some a) None h;
          destroy_nodes (ln_next n) (if retval < 0 then retval else error) h'
        })"

lemmas [code] = destroy_nodes.simps

definition ip_llist_destroy :: "ip_llist_t option \<Rightarrow> (int \<times> node_heap option) option" where
  "ip_llist_destroy llist =
     (case llist of
        None \<Rightarrow> Some (IP_LLIST_NULLPTR_ERR, None)
      | Some l \<Rightarrow> do {
          (error, h) \<leftarrow> destroy_nodes (ll_head l) 0 (ll_heap l);
          Some (if error \<noteq> 0 then error else IP_LLIST_SUCCESS, Some h)
        })"

section \<open>Lists in the heap\<close>

text \<open>\<open>node_seg h p as q\<close>: from pointer \<open>p\<close> the nodes at the addresses \<open>as\<close> are reached, in this
  order, and the last one points to \<open>q\<close>; \<open>node_list\<close> is a segment that ends the list.\<close>

fun node_seg :: "node_heap \<Rightarrow> addr option \<Rightarrow> addr list \<Rightarrow> addr option \<Rightarrow> bool" where
  "node_seg h p [] q \<longleftrightarrow> p = q"
| "node_seg h p (a # as) q \<longleftrightarrow> p = Some a \<and> h a \<noteq> None \<and> node_seg h (ln_next (the (h a))) as q"

abbreviation node_list :: "node_heap \<Rightarrow> addr option \<Rightarrow> addr list \<Rightarrow> bool" where
  "node_list h p as \<equiv> node_seg h p as None"

definition llist_wf :: "ip_llist_t \<Rightarrow> addr list \<Rightarrow> bool" where
  "llist_wf l as \<longleftrightarrow> distinct as \<and> node_list (ll_heap l) (ll_head l) as"

text \<open>The contents a list stands for.\<close>

definition node_entry :: "node_heap \<Rightarrow> addr \<Rightarrow> bytes \<times> int \<times> int" where
  "node_entry h a = (ln_key (the (h a)), ln_timestamp (the (h a)), ln_domain (the (h a)))"

definition entries :: "ip_llist_t \<Rightarrow> addr list \<Rightarrow> (bytes \<times> int \<times> int) list" where
  "entries l as = map (node_entry (ll_heap l)) as"

lemma node_seg_upd_other: "a \<notin> set as \<Longrightarrow> node_seg (h(a := x)) p as q = node_seg h p as q"
  by (induction as arbitrary: p) auto

lemma node_seg_append: "node_seg h p (xs @ ys) q \<longleftrightarrow> (\<exists>m. node_seg h p xs m \<and> node_seg h m ys q)"
  by (induction xs arbitrary: p) auto

lemma node_entry_upd_other: "a \<noteq> b \<Longrightarrow> node_entry (h(a := x)) b = node_entry h b"
  by (simp add: node_entry_def)

text \<open>Freeing the nodes of a list one after the other.\<close>

lemma destroy_nodes_list:
  assumes "distinct as" and "node_list h p as"
  shows "destroy_nodes p e h = Some (e, \<lambda>a. if a \<in> set as then None else h a)"
  using assms
proof (induction as arbitrary: p h)
  case Nil
  then show ?case by (simp add: destroy_nodes.simps)
next
  case (Cons a as)
  then obtain n where n: "h a = Some n" and p: "p = Some a" by auto
  have "node_list (h(a := None)) (ln_next n) as"
    using Cons.prems n by (simp add: node_seg_upd_other)
  with Cons have "destroy_nodes (ln_next n) e (h(a := None))
    = Some (e, \<lambda>b. if b \<in> set as then None else (h(a := None)) b)" by simp
  moreover have "(\<lambda>b. if b \<in> set as then None else (h(a := None)) b)
    = (\<lambda>b. if b \<in> set (a # as) then None else h b)" by auto
  ultimately show ?case
    using n by (subst destroy_nodes.simps)
      (simp add: p ip_llist_remove_def destroy_lnode_def ip_llist_codes)
qed

text \<open>Unlinking the node behind \<open>prev\<close>.\<close>

lemma ip_llist_remove_next:
  assumes "distinct (xs @ b # a # ys)" and "node_list h p (xs @ b # a # ys)"
  shows "\<exists>h'. ip_llist_remove (Some a) (Some b) h = Some (IP_LLIST_SUCCESS, h')
    \<and> h' a = None \<and> node_list h' p (xs @ b # ys)
    \<and> map (node_entry h') (xs @ b # ys) = map (node_entry h) (xs @ b # ys)"
proof -
  obtain m where m: "node_seg h p xs m" "node_list h m (b # a # ys)"
    using assms(2) by (auto simp: node_seg_append)
  then obtain nb na where n: "h b = Some nb" "h a = Some na" "m = Some b" "ln_next nb = Some a"
    "node_list h (ln_next na) ys" by auto
  have d: "a \<noteq> b" "a \<notin> set xs" "b \<notin> set xs" "a \<notin> set ys" "b \<notin> set ys" using assms(1) by auto
  let ?h = "h(b \<mapsto> nb\<lparr>ln_next := ln_next na\<rparr>, a := None)"
  have "ip_llist_remove (Some a) (Some b) h = Some (IP_LLIST_SUCCESS, ?h)"
    using n d by (simp add: ip_llist_remove_def destroy_lnode_def)
  moreover have "node_list ?h p (xs @ b # ys)"
    using m n d by (auto simp: node_seg_append node_seg_upd_other)
  moreover have "map (node_entry ?h) (xs @ b # ys) = map (node_entry h) (xs @ b # ys)"
    using n d by (auto simp: node_entry_def)
  ultimately show ?thesis by auto
qed

lemma ip_llist_push_result:
  assumes wf: "llist_wf l as" and fresh: "ll_heap l a = None"
    and env: "l_node env = Some a" "l_key env"
    and dom: "domain = AF_INET \<and> n = 4 \<or> domain = AF_INET6 \<and> n = 16" and key: "n \<le> length key"
  shows "\<exists>l'. ip_llist_push env (Some l) (Some key) (Some ts) domain
      = Some (if l_lock env = 0 \<and> l_unlock env = 0 then IP_LLIST_SUCCESS else IP_LLIST_MUTEX_ERR, Some l')
    \<and> (if l_lock env = 0
       then llist_wf l' (a # as) \<and> entries l' (a # as) = (take n key, ts, domain) # entries l as
       else llist_wf l' as \<and> entries l' as = entries l as)"
proof -
  let ?n = "\<lparr>ln_key = take n key, ln_timestamp = ts, ln_domain = domain, ln_next = None\<rparr>"
  have create: "create_lnode env (Some key) (Some ts) domain = Some (Inr (a, ?n))"
    using env dom key by (auto simp: create_lnode_def)
  have a: "a \<notin> set as"
  proof
    assume "a \<in> set as"
    then obtain xs ys where "as = xs @ a # ys" by (auto simp: in_set_conv_decomp)
    with wf have "ll_heap l a \<noteq> None" by (auto simp: llist_wf_def node_seg_append)
    with fresh show False by simp
  qed
  have ents: "entries (l\<lparr>ll_head := hd', ll_heap := (ll_heap l)(a \<mapsto> x)\<rparr>) as = entries l as" for hd' x
    using a by (auto simp: entries_def node_entry_def)
  show ?thesis
  proof (cases "l_lock env = 0")
    case False
    then show ?thesis using create wf a ents [where hd' = "ll_head l"]
      by (simp add: ip_llist_push_def llist_wf_def node_seg_upd_other)
  next
    case True
    show ?thesis
    proof (cases "ll_head l")
      case None
      then have "as = []" using wf by (cases as) (auto simp: llist_wf_def)
      then show ?thesis using True None create
        by (simp add: ip_llist_push_def llist_wf_def entries_def node_entry_def)
    next
      case (Some h)
      then show ?thesis using True create wf a ents [where hd' = "Some a"]
        by (simp add: ip_llist_push_def llist_wf_def node_seg_upd_other)
          (simp add: entries_def node_entry_def)
    qed
  qed
qed

text \<open>A push touches no node but its own.\<close>

lemma ip_llist_push_heap:
  assumes "ip_llist_push env (Some l) key ts domain = Some (r, Some l')" and "l_node env \<noteq> Some b"
  shows "ll_heap l' b = ll_heap l b"
  using assms
  by (auto simp: ip_llist_push_def create_lnode_def Let_def bind_eq_Some_conv
      split: if_splits option.splits sum.splits)

section \<open>Properties\<close>

text \<open>Pushing an address of a known family with a fresh node puts it in front of the list with
  its key bytes, time stamp and family; the other entries keep their contents and order, the list
  stays well-formed, and the return value is 0 exactly when both mutex calls succeed. When the lock
  cannot be taken the list is unchanged.\<close>

theorem ip_llist_push_correct:
  assumes wf: "llist_wf l as" and fresh: "ll_heap l a = None"
    and env: "l_node env = Some a" "l_key env"
    and dom: "domain = AF_INET \<and> n = 4 \<or> domain = AF_INET6 \<and> n = 16" and key: "n \<le> length key"
  shows "\<exists>l'. ip_llist_push env (Some l) (Some key) (Some ts) domain
      = Some (if l_lock env = 0 \<and> l_unlock env = 0 then IP_LLIST_SUCCESS else IP_LLIST_MUTEX_ERR, Some l')
    \<and> (if l_lock env = 0
       then llist_wf l' (a # as) \<and> entries l' (a # as) = (take n key, ts, domain) # entries l as
       else llist_wf l' as \<and> entries l' as = entries l as)"
  by (rule ip_llist_push_result [OF assms])

definition push_env :: llist_env where
  "push_env = \<lparr>l_node = Some 3, l_key = True, l_lock = 0, l_unlock = 0\<rparr>"

theorem ip_llist_push_correct_witness:
  "\<exists>l'. ip_llist_push push_env (Some \<lparr>ll_head = None, ll_heap = (\<lambda>_. None)\<rparr>) (Some [10, 3, 10, 1])
      (Some 99) AF_INET = Some (0, Some l')
    \<and> llist_wf l' [3] \<and> entries l' [3] = [([10, 3, 10, 1], 99, AF_INET)]"
  using ip_llist_push_correct [of "\<lparr>ll_head = None, ll_heap = (\<lambda>_. None)\<rparr>" "[]" 3 push_env AF_INET 4
      "[10, 3, 10, 1]" 99]
  by (simp add: push_env_def llist_wf_def entries_def ip_llist_codes)

text \<open>C31. Destroying a list ends, frees every node of the list exactly once and no other memory,
  and reports success.\<close>

theorem ip_llist_destroy_frees_all:
  assumes "llist_wf l as"
  shows "ip_llist_destroy (Some l)
    = Some (IP_LLIST_SUCCESS, Some (\<lambda>a. if a \<in> set as then None else ll_heap l a))"
  using assms destroy_nodes_list [of as "ll_heap l" "ll_head l" 0]
  by (simp add: ip_llist_destroy_def llist_wf_def)

theorem ip_llist_destroy_frees_all_witness:
  "ip_llist_destroy (Some \<lparr>ll_head = Some 1, ll_heap = (\<lambda>_. None)
      (1 \<mapsto> \<lparr>ln_key = [1, 2, 3, 4], ln_timestamp = 0, ln_domain = AF_INET, ln_next = Some 2\<rparr>,
       2 \<mapsto> \<lparr>ln_key = [1, 2, 3, 5], ln_timestamp = 0, ln_domain = AF_INET, ln_next = None\<rparr>)\<rparr>)
    = Some (0, Some (\<lambda>_. None))"
proof -
  let ?l = "\<lparr>ll_head = Some 1, ll_heap = (\<lambda>_. None)
      (1 \<mapsto> \<lparr>ln_key = [1, 2, 3, 4], ln_timestamp = 0, ln_domain = AF_INET, ln_next = Some 2\<rparr>,
       2 \<mapsto> \<lparr>ln_key = [1, 2, 3, 5], ln_timestamp = 0, ln_domain = AF_INET, ln_next = None\<rparr>)\<rparr>
    :: ip_llist_t"
  have "llist_wf ?l [1, 2]" by (simp add: llist_wf_def)
  moreover have "(\<lambda>a. if a \<in> set [1, 2] then None else ll_heap ?l a) = (\<lambda>_. None)" by auto
  ultimately show ?thesis using ip_llist_destroy_frees_all [of ?l "[1, 2]"] by (simp add: ip_llist_codes)
qed

text \<open>The error paths of a push behind the allocation of the node are undefined: for an unknown
  address family, and when the key cannot be allocated, the address of a local variable is passed
  to \<open>free\<close>.\<close>

theorem ip_llist_push_error_undefined:
  assumes "l_node env = Some a" and "(domain \<noteq> AF_INET \<and> domain \<noteq> AF_INET6) \<or> \<not> l_key env"
  shows "ip_llist_push env (Some l) (Some key) (Some ts) domain = None"
  using assms by (auto simp: ip_llist_push_def create_lnode_def)

theorem ip_llist_push_error_undefined_witness:
  "ip_llist_push push_env (Some \<lparr>ll_head = None, ll_heap = (\<lambda>_. None)\<rparr>) (Some [10, 3, 10, 1])
      (Some 99) 4 = None"
  by (rule ip_llist_push_error_undefined [of push_env 3])
    (simp_all add: push_env_def AF_INET_def AF_INET6_def)

end
