(* ===== verification/Ring_Lines.thy ===== *)
theory Ring_Lines
  imports Prelude
begin

text \<open>
  A ring of \<open>n\<close> slots read as a list: the lines from position \<open>a\<close> up to, not including,
  position \<open>b\<close>. Both ring buffers of the program use these facts; the slot contents are given
  by a function \<open>f\<close> from positions.
\<close>

definition ring_list :: "nat \<Rightarrow> (nat \<Rightarrow> 'a) \<Rightarrow> nat \<Rightarrow> nat \<Rightarrow> 'a list" where
  "ring_list n f a b = map (\<lambda>k. f (radd n a k)) [0 ..< rdist n a b]"

lemma length_ring_list [simp]: "length (ring_list n f a b) = rdist n a b"
  by (simp add: ring_list_def)

lemma nth_ring_list: "k < rdist n a b \<Longrightarrow> ring_list n f a b ! k = f (radd n a k)"
  by (simp add: ring_list_def)

lemma ring_list_empty_iff: "a < n \<Longrightarrow> b < n \<Longrightarrow> ring_list n f a b = [] \<longleftrightarrow> a = b"
  by (auto simp: ring_list_def rdist_eq_0_iff)

lemma ring_list_cong:
  "(\<And>k. k < rdist n a b \<Longrightarrow> f (radd n a k) = g (radd n a k)) \<Longrightarrow>
     ring_list n f a b = ring_list n g a b"
  by (simp add: ring_list_def)

text \<open>Dropping from the front.\<close>

lemma ring_list_drop:
  assumes "a < n" and "b < n" and "k \<le> rdist n a b"
  shows "ring_list n f (radd n a k) b = drop k (ring_list n f a b)"
proof (rule nth_equalityI)
  show len: "length (ring_list n f (radd n a k) b) = length (drop k (ring_list n f a b))"
    using assms by (simp add: rdist_radd_left)
  fix i assume i: "i < length (ring_list n f (radd n a k) b)"
  then have "i < rdist n a b - k" using assms by (simp add: rdist_radd_left)
  then have ki: "k + i < rdist n a b" by simp
  have "ring_list n f (radd n a k) b ! i = f (radd n (radd n a k) i)"
    using i by (simp add: nth_ring_list)
  also have "\<dots> = ring_list n f a b ! (k + i)"
    using ki by (simp add: nth_ring_list radd_radd)
  finally show "ring_list n f (radd n a k) b ! i = drop k (ring_list n f a b) ! i"
    using ki by simp
qed

text \<open>A prefix that does not pass the end of the ring is a contiguous run of slots.\<close>

lemma ring_list_prefix:
  assumes "a < n" and "b < n" and "k \<le> rdist n a b" and "a + k \<le> n"
  shows "take k (ring_list n f a b) = map f [a ..< a + k]"
proof (rule nth_equalityI)
  show "length (take k (ring_list n f a b)) = length (map f [a ..< a + k])"
    using assms(3) by simp
  fix i assume "i < length (take k (ring_list n f a b))"
  then have i: "i < k" "i < rdist n a b" by simp_all
  then have "radd n a i = a + i" using assms(4) by (simp add: radd_def)
  then show "take k (ring_list n f a b) ! i = map f [a ..< a + k] ! i"
    using i by (simp add: nth_ring_list)
qed

lemma ring_list_Cons:
  assumes "a < n" and "b < n" and "a \<noteq> b"
  shows "ring_list n f a b = f a # ring_list n f (radd n a 1) b"
proof -
  have pos: "0 < rdist n a b" using assms rdist_eq_0_iff [of a n b] by simp
  have "ring_list n f a b \<noteq> []" using pos by (metis length_ring_list less_numeral_extra(3) list.size(3))
  then have "ring_list n f a b = hd (ring_list n f a b) # tl (ring_list n f a b)" by simp
  moreover have "hd (ring_list n f a b) = f a"
    using nth_ring_list [OF pos, of f] assms(1) pos
      hd_conv_nth [OF \<open>ring_list n f a b \<noteq> []\<close>] by simp
  moreover have "tl (ring_list n f a b) = ring_list n f (radd n a 1) b"
    using ring_list_drop [OF assms(1,2), of 1 f] pos by (simp add: drop_Suc)
  ultimately show ?thesis by simp
qed

text \<open>Appending at the back: the new lines are in the slots from \<open>b\<close> on, the slots of the old
  list are unchanged.\<close>

lemma ring_list_append:
  assumes "a < n" and "b < n" and "rdist n a b + length xs < n"
    and new: "\<And>k. k < length xs \<Longrightarrow> g (radd n b k) = xs ! k"
    and old: "\<And>k. k < rdist n a b \<Longrightarrow> g (radd n a k) = f (radd n a k)"
  shows "ring_list n g a (radd n b (length xs)) = ring_list n f a b @ xs"
proof (rule nth_equalityI)
  have dist: "rdist n a (radd n b (length xs)) = rdist n a b + length xs"
    using assms(1-3) by (rule rdist_radd_right)
  then show "length (ring_list n g a (radd n b (length xs))) = length (ring_list n f a b @ xs)"
    by simp
  fix i assume i: "i < length (ring_list n g a (radd n b (length xs)))"
  show "ring_list n g a (radd n b (length xs)) ! i = (ring_list n f a b @ xs) ! i"
  proof (cases "i < rdist n a b")
    case True
    then show ?thesis using i old by (simp add: nth_append nth_ring_list)
  next
    case False
    then obtain k where k: "i = rdist n a b + k" by (metis le_Suc_ex not_le)
    with i dist have "k < length xs" by simp
    moreover have "radd n a i = radd n b k"
      unfolding k using radd_rdist [OF assms(1,2)] radd_radd [of n a "rdist n a b" k] by simp
    ultimately show ?thesis using i k new by (simp add: nth_append nth_ring_list)
  qed
qed

lemma ring_list_snoc:
  assumes "a < n" and "b < n" and "rdist n a b + 1 < n"
    and "g b = x" and "\<And>k. k < n \<Longrightarrow> k \<noteq> b \<Longrightarrow> g k = f k"
  shows "ring_list n g a (radd n b 1) = ring_list n f a b @ [x]"
proof -
  have "g (radd n a k) = f (radd n a k)" if "k < rdist n a b" for k
  proof (rule assms(5))
    show "radd n a k < n" using assms(1) by (simp add: radd_less)
    show "radd n a k \<noteq> b"
      using that assms(1-3) radd_rdist [OF assms(1,2)] radd_inject [of a n k "rdist n a b"] by simp
  qed
  then show ?thesis
    using ring_list_append [OF assms(1,2), of "[x]" g f] assms(2-4) by simp
qed

text \<open>A slot that is at distance at least the length of the list is not part of it.\<close>

lemma ring_slot_outside:
  assumes "a < n" and "b < n" and "k < rdist n a b" and "rdist n a b + j < n"
  shows "radd n b j \<noteq> radd n a k"
proof -
  have "radd n b j = radd n a (rdist n a b + j)"
    using radd_rdist [OF assms(1,2)] radd_radd [of n a "rdist n a b" j] by simp
  then show ?thesis using assms radd_inject [of a n "rdist n a b + j" k] by simp
qed

end
