(* ===== verification/Message_Queue.thy ===== *)
theory Message_Queue
  imports Main
begin

text \<open>
  The contract of a one-writer, many-reader message channel, as the loggers and the log readers
  use it: \<open>put\<close> appends a message for every reader or fails because a reader is behind by the
  whole capacity, \<open>get r\<close> takes the oldest message reader \<open>r\<close> has not seen. The consequence
  for arbitrary interleavings of the writer and the readers, that nothing is lost, duplicated
  or reordered, is proved here and reaches the ring buffers through interpretations.
\<close>

datatype 'm queue_op = Put 'm | Get nat

text \<open>Running an interleaving: the final state, the messages accepted from the writer, and the
  messages delivered, each with its reader.\<close>

fun run_queue :: "('s \<Rightarrow> 'm \<Rightarrow> 's option) \<Rightarrow> (nat \<Rightarrow> 's \<Rightarrow> ('m \<times> 's) option) \<Rightarrow> 's \<Rightarrow>
    'm queue_op list \<Rightarrow> 's \<times> 'm list \<times> (nat \<times> 'm) list" where
  "run_queue put get s [] = (s, [], [])"
| "run_queue put get s (Put m # ops) =
     (case put s m of
        None \<Rightarrow> run_queue put get s ops
      | Some s' \<Rightarrow> (case run_queue put get s' ops of (t, sent, recv) \<Rightarrow> (t, m # sent, recv)))"
| "run_queue put get s (Get r # ops) =
     (case get r s of
        None \<Rightarrow> run_queue put get s ops
      | Some (m, s') \<Rightarrow>
          (case run_queue put get s' ops of (t, sent, recv) \<Rightarrow> (t, sent, (r, m) # recv)))"

definition received :: "nat \<Rightarrow> (nat \<times> 'm) list \<Rightarrow> 'm list" where
  "received r recv = map snd (filter (\<lambda>p. fst p = r) recv)"

lemma received_simps [simp]:
  "received r [] = []"
  "received r ((q, m) # recv) = (if q = r then m # received r recv else received r recv)"
  by (simp_all add: received_def)

locale message_queue =
  fixes put :: "'s \<Rightarrow> 'm \<Rightarrow> 's option"
    and get :: "nat \<Rightarrow> 's \<Rightarrow> ('m \<times> 's) option"
    and content :: "nat \<Rightarrow> 's \<Rightarrow> 'm list"
    and readers :: "'s \<Rightarrow> nat"
    and capacity :: "'s \<Rightarrow> nat"
    and wf :: "'s \<Rightarrow> bool"
    and ok :: "'s \<Rightarrow> 'm \<Rightarrow> bool"
  assumes put_Some: "wf s \<Longrightarrow> ok s m \<Longrightarrow> put s m = Some s' \<Longrightarrow>
      wf s' \<and> readers s' = readers s \<and> capacity s' = capacity s \<and> ok s' = ok s
      \<and> (\<forall>r < readers s. content r s' = content r s @ [m])"
    and put_None_iff: "wf s \<Longrightarrow> ok s m \<Longrightarrow>
      put s m = None \<longleftrightarrow> (\<exists>r < readers s. length (content r s) = capacity s)"
    and get_Some: "wf s \<Longrightarrow> r < readers s \<Longrightarrow> get r s = Some (m, s') \<Longrightarrow>
      wf s' \<and> readers s' = readers s \<and> capacity s' = capacity s \<and> ok s' = ok s
      \<and> content r s = m # content r s'
      \<and> (\<forall>q < readers s. q \<noteq> r \<longrightarrow> content q s' = content q s)"
    and get_None_iff: "wf s \<Longrightarrow> r < readers s \<Longrightarrow> get r s = None \<longleftrightarrow> content r s = []"
begin

text \<open>For every reader: what it had pending followed by what was accepted is what it received
  followed by what is pending now.\<close>

lemma delivery:
  assumes "wf s" and "\<forall>m. Put m \<in> set ops \<longrightarrow> ok s m" and "\<forall>r. Get r \<in> set ops \<longrightarrow> r < readers s"
    and "run_queue put get s ops = (t, sent, recv)" and "q < readers s"
  shows "wf t \<and> content q s @ sent = received q recv @ content q t"
  using assms
proof (induction ops arbitrary: s t sent recv)
  case Nil
  then show ?case by simp
next
  case (Cons op ops)
  show ?case
  proof (cases op)
    case (Put m)
    show ?thesis
    proof (cases "put s m")
      case None
      with Cons Put show ?thesis by simp
    next
      case (Some s')
      have ok: "ok s m" using Cons.prems(2) Put by simp
      note s' = put_Some [OF Cons.prems(1) ok Some]
      obtain t' sent' recv' where run: "run_queue put get s' ops = (t', sent', recv')"
        by (metis prod_cases3)
      with Cons.prems(4) Put Some have eq: "t = t'" "sent = m # sent'" "recv = recv'" by auto
      have "wf t' \<and> content q s' @ sent' = received q recv' @ content q t'"
        by (rule Cons.IH [OF _ _ _ run]) (use s' Cons.prems in auto)
      with eq s' Cons.prems(5) show ?thesis by simp
    qed
  next
    case (Get r)
    show ?thesis
    proof (cases "get r s")
      case None
      with Cons Get show ?thesis by simp
    next
      case (Some p)
      obtain m s' where p: "p = (m, s')" by (cases p)
      have r: "r < readers s" using Cons.prems(3) Get by simp
      note s' = get_Some [OF Cons.prems(1) r Some [unfolded p]]
      obtain t' sent' recv' where run: "run_queue put get s' ops = (t', sent', recv')"
        by (metis prod_cases3)
      with Cons.prems(4) Get Some p have eq: "t = t'" "sent = sent'" "recv = (r, m) # recv'"
        by auto
      have "wf t' \<and> content q s' @ sent' = received q recv' @ content q t'"
        by (rule Cons.IH [OF _ _ _ run]) (use s' Cons.prems in auto)
      with eq s' Cons.prems(5) show ?thesis by auto
    qed
  qed
qed

text \<open>The writer makes progress as soon as every reader has room.\<close>

lemma put_progress:
  assumes "wf s" and "ok s m" and "\<forall>r < readers s. length (content r s) \<noteq> capacity s"
  shows "\<exists>s'. put s m = Some s'"
  using assms put_None_iff [OF assms(1,2)] by (cases "put s m") auto

end

end
