(* ===== verification/Shm_Ringbuf.thy ===== *)
theory Shm_Ringbuf
  imports Ring_Lines Message_Queue
begin

text \<open>
  Model of the data path of \<open>src/lib/shm_ringbuf.c\<close>: one ring of fixed-size lines per writer
  thread (a segment), written by one writer process and read by several reader processes, each
  with its own read index. The shared memory is a record: the global header, and per segment
  the write index, the read indices of the readers and the line area as a byte array. Byte
  offsets into the line area are computed with the C types (\<open>uint32_t\<close> products wrap); an
  access outside the line area of the segment is \<open>None\<close>.

  \<open>pthread_mutex_lock\<close> and \<open>pthread_mutex_unlock\<close> return 0 or a positive error number, so the
  tests of the code against -1 never succeed; the branches behind them do not occur in the
  model. Each call is one step: the writer owns the write index, and the readers of one process
  are serialised by the segment lock.
\<close>

section \<open>Data\<close>

record shmrbuf_global_hdr_t =
  g_checksum :: u32
  g_segment_count :: u8
  g_reader_count :: u8
  g_line_size :: u16
  g_line_count :: u32
  g_overwrite :: bool
  g_writer_att :: bool
  g_reader_att :: "bool list"

record shm_segment =
  s_write_index :: u32
  s_read_index :: "u32 list"
  s_data :: bytes

record shm_region =
  global_hdr :: shmrbuf_global_hdr_t
  segments :: "shm_segment list"

text \<open>The process-local argument structures; the pointers into the region are represented by
  whether they are set.\<close>

record shmrbuf_writer_arg_t =
  w_shm_key :: "string option"
  w_line_size :: u16
  w_line_count :: u32
  w_segment_count :: u8
  w_reader_count :: u8
  w_global_hdr :: bool
  w_segment_hdrs :: bool
  w_flags :: u32
  w_shm_id :: int

record shmrbuf_reader_arg_t =
  r_shm_key :: "string option"
  r_shm_id :: int
  r_flags :: u32
  r_reader_id :: u8
  r_global_hdr :: bool
  r_segment_hdrs :: bool

record iovec =
  iov_base :: bytes
  iov_len :: u64

section \<open>Writing\<close>

text \<open>A line: the first \<open>wsize\<close> bytes of the source, filled up with zero bytes.\<close>

definition pad_line :: "u16 \<Rightarrow> u16 \<Rightarrow> bytes \<Rightarrow> bytes" where
  "pad_line line_size wsize src =
     take (unat wsize) src @ replicate (unat line_size - unat wsize) 0"

definition next_index :: "u32 \<Rightarrow> u32 \<Rightarrow> u32" where
  "next_index line_count i = (if i = line_count - 1 then 0 else i + 1)"

definition line_offset :: "u32 \<Rightarrow> u16 \<Rightarrow> nat" where
  "line_offset i line_size = unat (i * ucast line_size)"

definition shmrbuf_write ::
  "shmrbuf_writer_arg_t option \<Rightarrow> bytes option \<Rightarrow> u16 \<Rightarrow> u8 \<Rightarrow> shm_region \<Rightarrow>
   (int \<times> shm_region) option" where
  "shmrbuf_write args src wsize segment_id shm =
     (case (args, src) of
        (Some a, Some s) \<Rightarrow>
          if \<not> w_segment_hdrs a then Some (IO_IPC_NULLPTR_ERR, shm)
          else let g = global_hdr shm in
          if g_segment_count g \<le> segment_id \<or> g_line_size g < wsize
          then Some (IO_IPC_ARG_ERR, shm)
          else if wsize = 0 then Some (0, shm)
          else do {
            seg \<leftarrow> nth_opt (segments shm) (unat segment_id);
            let new_write_index = next_index (g_line_count g) (s_write_index seg);
            if \<not> g_overwrite g \<and>
               list_ex (\<lambda>r. new_write_index = r) (take (unat (g_reader_count g)) (s_read_index seg))
            then Some (IO_IPC_SIZE_ERR, shm)
            else if length s < unat wsize then None
            else do {
              d \<leftarrow> mem_write (s_data seg) (line_offset (s_write_index seg) (g_line_size g))
                    (pad_line (g_line_size g) wsize s);
              Some (uint (g_line_size g),
                shm\<lparr>segments := (segments shm)[unat segment_id :=
                  seg\<lparr>s_data := d, s_write_index := new_write_index\<rparr>]\<rparr>)
            }
          }
      | _ \<Rightarrow> Some (IO_IPC_NULLPTR_ERR, shm))"

text \<open>The loop over the readers that limits the number of lines of a vectored write.\<close>

definition free_lines :: "u32 \<Rightarrow> u32 \<Rightarrow> u32 \<Rightarrow> u32" where
  "free_lines line_count write_index read_index =
     (if write_index < read_index then read_index - write_index - 1
      else line_count - (write_index - read_index) - 1)"

fun limit_vsize :: "u32 \<Rightarrow> u32 \<Rightarrow> u32 list \<Rightarrow> u16 \<Rightarrow> u16" where
  "limit_vsize line_count write_index [] vsize = vsize"
| "limit_vsize line_count write_index (r # rs) vsize =
     (let dst = free_lines line_count write_index r;
          vsize' = (if dst < ucast vsize then ucast dst else vsize)
      in if vsize' = 0 then 0 else limit_vsize line_count write_index rs vsize')"

text \<open>The copy loops: the flag is \<open>False\<close> when a vector element is longer than a line, and the
  lines copied before it stay.\<close>

fun put_lines :: "u16 \<Rightarrow> iovec list \<Rightarrow> nat \<Rightarrow> nat \<Rightarrow> bytes \<Rightarrow> (bool \<times> bytes) option" where
  "put_lines line_size iovs off 0 m = Some (True, m)"
| "put_lines line_size [] off (Suc n) m = None"
| "put_lines line_size (iov # iovs) off (Suc n) m =
     (let wsize = ucast (iov_len iov) in
      if line_size < wsize then Some (False, m)
      else if length (iov_base iov) < unat wsize then None
      else do {
        m' \<leftarrow> mem_write m off (pad_line line_size wsize (iov_base iov));
        put_lines line_size iovs (off + unat line_size) n m'
      })"

text \<open>Up to the end of the line area, then from its start. The second loop begins again with the
  first vector element.\<close>

definition copy_lines ::
  "u16 \<Rightarrow> u32 \<Rightarrow> u32 \<Rightarrow> iovec list \<Rightarrow> u16 \<Rightarrow> bytes \<Rightarrow> (bool \<times> bytes) option" where
  "copy_lines line_size line_count write_index iovs vsize m =
     (if write_index < (write_index + ucast vsize) mod line_count
      then put_lines line_size iovs (line_offset write_index line_size) (unat vsize) m
      else let dst = ucast (line_count - write_index) :: u16 in
        do {
          (ok, m1) \<leftarrow> put_lines line_size iovs (line_offset write_index line_size) (unat dst) m;
          (if ok then put_lines line_size iovs 0 (unat (vsize - dst)) m1 else Some (False, m1))
        })"

definition shmrbuf_writev ::
  "shmrbuf_writer_arg_t option \<Rightarrow> iovec list option \<Rightarrow> u16 \<Rightarrow> u8 \<Rightarrow> shm_region \<Rightarrow>
   (int \<times> shm_region) option" where
  "shmrbuf_writev args iovecs vsize0 segment_id shm =
     (case (args, iovecs) of
        (Some a, Some iovs) \<Rightarrow>
          if \<not> w_segment_hdrs a then Some (IO_IPC_NULLPTR_ERR, shm)
          else if w_segment_count a \<le> segment_id then Some (IO_IPC_ARG_ERR, shm)
          else if vsize0 = 0 then Some (0, shm)
          else do {
            seg \<leftarrow> nth_opt (segments shm) (unat segment_id);
            let g = global_hdr shm;
            let ls = g_line_size g;
            let lc = g_line_count g;
            let wi = s_write_index seg;
            let vsize1 = (if lc < ucast vsize0 then ucast lc else vsize0);
            let vsize = (if g_overwrite g then vsize1
                         else limit_vsize lc wi (take (unat (g_reader_count g)) (s_read_index seg))
                                vsize1);
            if \<not> g_overwrite g \<and> g_reader_count g \<noteq> 0 \<and> vsize = 0 then Some (0, shm)
            else if lc = 0 then None
            else do {
              let new_write_index = (wi + ucast vsize) mod lc;
              (ok, d) \<leftarrow> copy_lines ls lc wi iovs vsize (s_data seg);
              (if ok then Some (uint vsize, shm\<lparr>segments := (segments shm)[unat segment_id :=
                  seg\<lparr>s_data := d, s_write_index := new_write_index\<rparr>]\<rparr>)
               else Some (IO_IPC_SIZE_ERR, shm\<lparr>segments := (segments shm)[unat segment_id :=
                  seg\<lparr>s_data := d\<rparr>]\<rparr>))
            }
          }
      | _ \<Rightarrow> Some (IO_IPC_NULLPTR_ERR, shm))"

section \<open>Reading\<close>

text \<open>The bytes copied to the caller's buffer are part of the result.\<close>

definition shmrbuf_read ::
  "shmrbuf_reader_arg_t option \<Rightarrow> bool \<Rightarrow> u16 \<Rightarrow> u8 \<Rightarrow> shm_region \<Rightarrow>
   (int \<times> bytes \<times> shm_region) option" where
  "shmrbuf_read args rbuf bufsize segment_id shm =
     (case args of
        None \<Rightarrow> Some (IO_IPC_NULLPTR_ERR, [], shm)
      | Some a \<Rightarrow>
          if \<not> rbuf \<or> \<not> r_segment_hdrs a then Some (IO_IPC_NULLPTR_ERR, [], shm)
          else let g = global_hdr shm in
          if g_segment_count g \<le> segment_id then Some (IO_IPC_ARG_ERR, [], shm)
          else if bufsize = 0 then Some (0, [], shm)
          else do {
            seg \<leftarrow> nth_opt (segments shm) (unat segment_id);
            read_index \<leftarrow> nth_opt (s_read_index seg) (unat (r_reader_id a));
            let new_read_index = next_index (g_line_count g) read_index;
            let rsize = (if bufsize < g_line_size g then bufsize else g_line_size g);
            if s_write_index seg = read_index then Some (0, [], shm)
            else do {
              bs \<leftarrow> mem_read (s_data seg) (line_offset read_index (g_line_size g)) (unat rsize);
              Some (uint rsize, bs,
                shm\<lparr>segments := (segments shm)[unat segment_id :=
                  seg\<lparr>s_read_index :=
                    (s_read_index seg)[unat (r_reader_id a) := new_read_index]\<rparr>]\<rparr>)
            }
          })"

definition max_read :: "u32 \<Rightarrow> u32 \<Rightarrow> u32 \<Rightarrow> u32" where
  "max_read line_count write_index read_index =
     (if write_index < read_index then line_count - (read_index - write_index)
      else write_index - read_index)"

text \<open>The copy loop of \<open>shmrbuf_readv\<close>: the source pointer is advanced line by line and never
  taken back to the start of the line area.\<close>

fun get_lines :: "nat \<Rightarrow> nat \<Rightarrow> nat \<Rightarrow> bytes \<Rightarrow> bytes list option" where
  "get_lines line_size off 0 m = Some []"
| "get_lines line_size off (Suc n) m =
     do {
       l \<leftarrow> mem_read m off line_size;
       ls \<leftarrow> get_lines line_size (off + line_size) n m;
       Some (l # ls)
     }"

definition shmrbuf_readv ::
  "shmrbuf_reader_arg_t option \<Rightarrow> bool \<Rightarrow> u16 \<Rightarrow> u16 \<Rightarrow> u8 \<Rightarrow> shm_region \<Rightarrow>
   (int \<times> bytes list \<times> shm_region) option" where
  "shmrbuf_readv args iovecs vsize0 bufsize segment_id shm =
     (case args of
        None \<Rightarrow> Some (IO_IPC_NULLPTR_ERR, [], shm)
      | Some a \<Rightarrow>
          if \<not> iovecs \<or> \<not> r_segment_hdrs a then Some (IO_IPC_NULLPTR_ERR, [], shm)
          else let g = global_hdr shm in
          if g_segment_count g \<le> segment_id then Some (IO_IPC_ARG_ERR, [], shm)
          else if vsize0 = 0 then Some (0, [], shm)
          else do {
            seg \<leftarrow> nth_opt (segments shm) (unat segment_id);
            read_index \<leftarrow> nth_opt (s_read_index seg) (unat (r_reader_id a));
            if s_write_index seg = read_index then Some (0, [], shm)
            else do {
              let lc = g_line_count g;
              let ls = g_line_size g;
              let mx = max_read lc (s_write_index seg) read_index;
              let vsize = (if mx < ucast vsize0 then ucast mx else vsize0);
              if lc = 0 then None
              else if bufsize < ls then Some (IO_IPC_SIZE_ERR, [], shm)
              else do {
                lines \<leftarrow> get_lines (unat ls) (line_offset read_index ls) (unat vsize) (s_data seg);
                let new_read_index = (read_index + ucast vsize) mod lc;
                Some (uint vsize, lines,
                  shm\<lparr>segments := (segments shm)[unat segment_id :=
                    seg\<lparr>s_read_index :=
                      (s_read_index seg)[unat (r_reader_id a) := new_read_index]\<rparr>]\<rparr>)
              }
            }
          })"

section \<open>Reading a range of segments\<close>

text \<open>The thread-local cursors \<open>segment_index\<close> and \<open>steal_index\<close> are passed along. The first
  argument of the loops is the number of iterations left.\<close>

definition rng_index :: "u8 \<Rightarrow> u8 \<Rightarrow> u8 \<Rightarrow> u8" where
  "rng_index lower upper i = (if i = upper then lower else if i < lower then lower else i)"

definition steal_rng_index :: "u8 \<Rightarrow> u8 \<Rightarrow> u8 \<Rightarrow> u8 \<Rightarrow> u8" where
  "steal_rng_index lower upper segment_count i =
     (if i = lower then (if upper = segment_count then 0 else upper)
      else if i = segment_count then (if lower = 0 then upper else 0)
      else i)"

fun read_scan ::
  "nat \<Rightarrow> (u8 \<Rightarrow> u8) \<Rightarrow> shmrbuf_reader_arg_t option \<Rightarrow> u16 \<Rightarrow> u8 \<Rightarrow> shm_region \<Rightarrow>
   (int \<times> bytes \<times> u8 \<times> shm_region) option" where
  "read_scan 0 nxt args bufsize idx shm = Some (0, [], idx, shm)"
| "read_scan (Suc n) nxt args bufsize idx shm =
     do {
       (retval, bs, shm') \<leftarrow> shmrbuf_read args True bufsize (nxt idx) shm;
       (if retval \<noteq> 0 then Some (retval, bs, nxt idx + 1, shm')
        else read_scan n nxt args bufsize (nxt idx + 1) shm')
     }"

text \<open>Result: return value, bytes, the two cursors, whether \<open>*wsteal\<close> was set, the region.\<close>

definition shmrbuf_read_rng ::
  "shmrbuf_reader_arg_t \<Rightarrow> u16 \<Rightarrow> u8 \<Rightarrow> u8 \<Rightarrow> bool \<Rightarrow> u8 \<Rightarrow> u8 \<Rightarrow> shm_region \<Rightarrow>
   (int \<times> bytes \<times> u8 \<times> u8 \<times> bool \<times> shm_region) option" where
  "shmrbuf_read_rng args bufsize lower upper wsteal segment_index steal_index shm =
     (let rng = upper - lower; segment_count = g_segment_count (global_hdr shm) in
      if upper < lower \<or> segment_count < upper
      then Some (IO_IPC_ARG_ERR, [], segment_index, steal_index, False, shm)
      else do {
        (retval, bs, si, shm1) \<leftarrow>
          read_scan (unat rng) (rng_index lower upper) (Some args) bufsize segment_index shm;
        if retval \<noteq> 0 \<or> \<not> wsteal then Some (retval, bs, si, steal_index, False, shm1)
        else do {
          (retval2, bs2, sti, shm2) \<leftarrow>
            read_scan (unat (segment_count - rng)) (steal_rng_index lower upper segment_count)
              (Some args) bufsize steal_index shm1;
          Some (retval2, bs2, si, sti, 0 < retval2, shm2)
        }
      })"

text \<open>The loops of \<open>shmrbuf_readv_rng\<close>: \<open>read\<close> lines so far and \<open>vsize\<close> wanted. The flag says
  that the loop ended the call, either with an error or because all wanted lines were read.\<close>

fun readv_scan ::
  "nat \<Rightarrow> (u8 \<Rightarrow> u8) \<Rightarrow> shmrbuf_reader_arg_t option \<Rightarrow> u16 \<Rightarrow> u16 \<Rightarrow> u16 \<Rightarrow> bytes list \<Rightarrow>
   u8 \<Rightarrow> shm_region \<Rightarrow> (bool \<times> int \<times> u16 \<times> u16 \<times> bytes list \<times> u8 \<times> shm_region) option" where
  "readv_scan 0 nxt args bufsize rd vsize acc idx shm =
     Some (False, uint rd, rd, vsize, acc, idx, shm)"
| "readv_scan (Suc n) nxt args bufsize rd vsize acc idx shm =
     do {
       (retval, ls, shm') \<leftarrow> shmrbuf_readv args True vsize bufsize (nxt idx) shm;
       (if retval < 0 then Some (True, retval, rd, vsize, acc, nxt idx + 1, shm')
        else if retval = 0 then readv_scan n nxt args bufsize rd vsize acc (nxt idx + 1) shm'
        else let rd' = rd + word_of_int retval in
          if retval = uint vsize
          then Some (True, uint rd', rd', vsize, acc @ ls, nxt idx + 1, shm')
          else readv_scan n nxt args bufsize rd' (vsize - word_of_int retval) (acc @ ls)
                 (nxt idx + 1) shm')
     }"

text \<open>Result: return value, lines, the two cursors, the number of stolen lines that is added to
  \<open>*wsteal\<close>, the region.\<close>

definition shmrbuf_readv_rng ::
  "shmrbuf_reader_arg_t \<Rightarrow> u16 \<Rightarrow> u16 \<Rightarrow> u8 \<Rightarrow> u8 \<Rightarrow> bool \<Rightarrow> u8 \<Rightarrow> u8 \<Rightarrow> shm_region \<Rightarrow>
   (int \<times> bytes list \<times> u8 \<times> u8 \<times> u16 \<times> shm_region) option" where
  "shmrbuf_readv_rng args vsize bufsize lower upper wsteal segment_index steal_index shm =
     (let rng = upper - lower; segment_count = g_segment_count (global_hdr shm) in
      if upper < lower \<or> segment_count < upper
      then Some (IO_IPC_ARG_ERR, [], segment_index, steal_index, 0, shm)
      else do {
        (stop, retval, rd, vsize1, ls, si, shm1) \<leftarrow>
          readv_scan (unat rng) (rng_index lower upper) (Some args) bufsize 0 vsize []
            segment_index shm;
        if stop \<or> \<not> wsteal then Some (retval, ls, si, steal_index, 0, shm1)
        else do {
          (stop2, retval2, rd2, vsize2, ls2, sti, shm2) \<leftarrow>
            readv_scan (unat (segment_count - rng)) (steal_rng_index lower upper segment_count)
              (Some args) bufsize rd vsize1 ls steal_index shm1;
          Some (retval2, ls2, si, sti, rd2 - rd, shm2)
        }
      })"

section \<open>Well-formed segments and pending lines\<close>

definition seg_wf :: "shmrbuf_global_hdr_t \<Rightarrow> shm_segment \<Rightarrow> bool" where
  "seg_wf g seg \<longleftrightarrow> 0 < unat (g_line_size g)
     \<and> unat (g_line_count g) * unat (g_line_size g) < 2 ^ 32
     \<and> length (s_data seg) = unat (g_line_count g) * unat (g_line_size g)
     \<and> unat (s_write_index seg) < unat (g_line_count g)
     \<and> length (s_read_index seg) = unat (g_reader_count g)
     \<and> (\<forall>r\<in>set (s_read_index seg). unat r < unat (g_line_count g))"

definition shm_wf :: "shm_region \<Rightarrow> bool" where
  "shm_wf shm \<longleftrightarrow> length (segments shm) = unat (g_segment_count (global_hdr shm))
     \<and> (\<forall>seg\<in>set (segments shm). seg_wf (global_hdr shm) seg)"

lemmas [wf_simps] = seg_wf_def shm_wf_def

text \<open>The lines the writer has completed and reader \<open>r\<close> has not read.\<close>

definition pending :: "shmrbuf_global_hdr_t \<Rightarrow> nat \<Rightarrow> shm_segment \<Rightarrow> bytes list" where
  "pending g r seg = ring_list (unat (g_line_count g)) (slot (unat (g_line_size g)) (s_data seg))
     (unat (s_read_index seg ! r)) (unat (s_write_index seg))"

lemma unat_next_index:
  assumes "unat i < unat lc"
  shows "unat (next_index lc i) = radd (unat lc) (unat i) 1"
proof (cases "i = lc - 1")
  case True
  have "lc \<noteq> 0" using assms by auto
  then have "unat i = unat lc - 1" using True word_pred_eq_unat [of lc i] by simp
  moreover have "0 < unat lc" using assms by simp
  ultimately show ?thesis using True by (simp add: next_index_def radd_def)
next
  case False
  have "lc \<noteq> 0" using assms by auto
  then have "unat i \<noteq> unat lc - 1" using False word_pred_eq_unat [of lc i] by simp
  then have lt: "unat i + 1 < unat lc" using assms by simp
  moreover have "unat lc < 4294967296" by (rule unat_u32_less)
  ultimately have "unat (i + 1) = unat i + 1" by (simp add: unat_word_ariths)
  then show ?thesis using False lt by (simp add: next_index_def radd_def)
qed

lemma line_offset_eq:
  assumes "unat i < unat lc" and "unat lc * unat ls < 2 ^ 32"
  shows "line_offset i ls = unat i * unat (ls :: u16)"
proof -
  have "unat i * unat ls \<le> unat lc * unat ls" using assms(1) by (intro mult_le_mono1) simp
  then have "unat i * unat ls < 2 ^ 32" using assms(2) by (rule le_less_trans)
  then show ?thesis by (simp add: line_offset_def unat_word_ariths)
qed

lemma length_pad_line:
  "unat wsize \<le> length src \<Longrightarrow> wsize \<le> ls \<Longrightarrow> length (pad_line ls wsize src) = unat ls"
  by (simp add: pad_line_def word_le_nat_alt)

lemma slot_fits:
  assumes "i < lc" and "length d = lc * ls"
  shows "i * ls + ls \<le> length d"
proof -
  have "(i + 1) * ls \<le> lc * ls" using assms(1) by (intro mult_le_mono1) simp
  with assms(2) show ?thesis by simp
qed

lemma read_index_ok:
  "seg_wf g seg \<Longrightarrow> r < unat (g_reader_count g) \<Longrightarrow>
     unat (s_read_index seg ! r) < unat (g_line_count g)"
  by (simp add: seg_wf_def)

lemma length_pending: "length (pending g r seg)
    = rdist (unat (g_line_count g)) (unat (s_read_index seg ! r)) (unat (s_write_index seg))"
  by (simp add: pending_def)

lemma pending_less:
  assumes "seg_wf g seg" and "r < unat (g_reader_count g)"
  shows "length (pending g r seg) < unat (g_line_count g)"
  using assms read_index_ok [OF assms] by (simp add: length_pending rdist_less seg_wf_def)

text \<open>The writer's overtaking test: a reader is in its way exactly when it has a whole ring of
  lines pending.\<close>

lemma overtake_iff_full:
  assumes wf: "seg_wf g seg" and r: "r < unat (g_reader_count g)"
  shows "next_index (g_line_count g) (s_write_index seg) = s_read_index seg ! r \<longleftrightarrow>
    length (pending g r seg) = unat (g_line_count g) - 1"
proof -
  let ?n = "unat (g_line_count g)" and ?a = "unat (s_read_index seg ! r)"
  let ?b = "unat (s_write_index seg)"
  have b: "?b < ?n" and a: "?a < ?n" using wf read_index_ok [OF wf r] by (simp_all add: seg_wf_def)
  have "next_index (g_line_count g) (s_write_index seg) = s_read_index seg ! r \<longleftrightarrow>
      radd ?n ?b 1 = ?a"
    using unat_next_index [OF b] by (metis word_unat_eq_iff)
  also have "\<dots> \<longleftrightarrow> rdist ?n ?a ?b = ?n - 1"
    using a b by (auto simp: radd_def rdist_def mod_if split: if_splits)
  finally show ?thesis by (simp add: length_pending)
qed

section \<open>Writing and reading one line\<close>

lemma segment_write:
  assumes wf: "seg_wf g seg" and w: "wsize \<le> g_line_size g" and src: "unat wsize \<le> length src"
  shows "\<exists>d. mem_write (s_data seg) (line_offset (s_write_index seg) (g_line_size g))
        (pad_line (g_line_size g) wsize src) = Some d
    \<and> seg_wf g (seg\<lparr>s_data := d, s_write_index := next_index (g_line_count g) (s_write_index seg)\<rparr>)
    \<and> (\<forall>r < unat (g_reader_count g). length (pending g r seg) + 1 < unat (g_line_count g) \<longrightarrow>
        pending g r
          (seg\<lparr>s_data := d, s_write_index := next_index (g_line_count g) (s_write_index seg)\<rparr>)
        = pending g r seg @ [pad_line (g_line_size g) wsize src])"
proof -
  let ?n = "unat (g_line_count g)" and ?w = "unat (g_line_size g)"
  let ?b = "unat (s_write_index seg)" and ?l = "pad_line (g_line_size g) wsize src"
  have b: "?b < ?n" and len: "length (s_data seg) = ?n * ?w" and small: "?n * ?w < 2 ^ 32"
    using wf by (simp_all add: seg_wf_def)
  have ll: "length ?l = ?w" using w src by (rule length_pad_line [rotated])
  have off: "line_offset (s_write_index seg) (g_line_size g) = ?b * ?w"
    using line_offset_eq [OF b small] .
  have "?b * ?w + length ?l \<le> length (s_data seg)" using slot_fits [OF b len] ll by simp
  then obtain d where d: "mem_write (s_data seg) (?b * ?w) ?l = Some d"
    by (simp add: mem_write_def)
  let ?seg = "seg\<lparr>s_data := d, s_write_index := next_index (g_line_count g) (s_write_index seg)\<rparr>"
  have "length d = length (s_data seg)" using d by (rule mem_write_length)
  moreover have "radd ?n ?b 1 < ?n" using b by (intro radd_less) simp
  ultimately have wf': "seg_wf g ?seg"
    using wf unat_next_index [OF b] by (simp add: seg_wf_def)
  have "pending g r ?seg = pending g r seg @ [?l]"
    if r: "r < unat (g_reader_count g)" and room: "length (pending g r seg) + 1 < ?n" for r
  proof -
    have "ring_list ?n (slot ?w d) (unat (s_read_index seg ! r)) (radd ?n ?b 1)
        = ring_list ?n (slot ?w (s_data seg)) (unat (s_read_index seg ! r)) ?b @ [?l]"
      by (rule ring_list_snoc)
        (use read_index_ok [OF wf r] b room d ll slot_write_same slot_write_other in
          \<open>auto simp: length_pending\<close>)
    then show ?thesis using unat_next_index [OF b] by (simp add: pending_def)
  qed
  with d off wf' show ?thesis by auto
qed

lemma segment_read:
  assumes wf: "seg_wf g seg" and r: "r < unat (g_reader_count g)"
    and ne: "s_write_index seg \<noteq> s_read_index seg ! r"
    and seg': "seg' = seg\<lparr>s_read_index := (s_read_index seg)
      [r := next_index (g_line_count g) (s_read_index seg ! r)]\<rparr>"
  shows "line_offset (s_read_index seg ! r) (g_line_size g) + unat (g_line_size g)
      \<le> length (s_data seg)"
    and "pending g r seg =
      take (unat (g_line_size g))
        (drop (line_offset (s_read_index seg ! r) (g_line_size g)) (s_data seg)) # pending g r seg'"
    and "seg_wf g seg'"
    and "\<And>q. q \<noteq> r \<Longrightarrow> pending g q seg' = pending g q seg"
proof -
  let ?n = "unat (g_line_count g)" and ?w = "unat (g_line_size g)"
  let ?a = "unat (s_read_index seg ! r)"
  have a: "?a < ?n" by (rule read_index_ok [OF wf r])
  have b: "unat (s_write_index seg) < ?n" and len: "length (s_data seg) = ?n * ?w"
    and small: "?n * ?w < 2 ^ 32" and rl: "r < length (s_read_index seg)"
    using wf r by (simp_all add: seg_wf_def)
  have off: "line_offset (s_read_index seg ! r) (g_line_size g) = ?a * ?w"
    using line_offset_eq [OF a small] .
  show "line_offset (s_read_index seg ! r) (g_line_size g) + ?w \<le> length (s_data seg)"
    unfolding off by (rule slot_fits [OF a len])
  have nx: "unat (next_index (g_line_count g) (s_read_index seg ! r)) = radd ?n ?a 1"
    by (rule unat_next_index [OF a])
  have "?a \<noteq> unat (s_write_index seg)" using ne by (metis word_unat_eq_iff)
  from ring_list_Cons [OF a b this, of "slot ?w (s_data seg)"]
  show "pending g r seg = take ?w (drop (line_offset (s_read_index seg ! r) (g_line_size g))
      (s_data seg)) # pending g r seg'"
    using rl nx off by (simp add: pending_def seg' slot_def)
  show "seg_wf g seg'"
  proof -
    have "unat x < ?n" if "x \<in> set ((s_read_index seg)[r :=
        next_index (g_line_count g) (s_read_index seg ! r)])" for x
    proof (cases "x = next_index (g_line_count g) (s_read_index seg ! r)")
      case True
      then show ?thesis using nx a by (simp add: radd_less)
    next
      case False
      with that have "x \<in> set (s_read_index seg)"
        using set_update_subset_insert [of "s_read_index seg" r] by blast
      then show ?thesis using wf by (simp add: seg_wf_def)
    qed
    with wf show ?thesis by (simp add: seg_wf_def seg')
  qed
  show "\<And>q. q \<noteq> r \<Longrightarrow> pending g q seg' = pending g q seg" by (simp add: pending_def seg')
qed

section \<open>The calls on the shared region\<close>

definition put_segment :: "shm_region \<Rightarrow> u8 \<Rightarrow> shm_segment \<Rightarrow> shm_region" where
  "put_segment shm sid seg = shm\<lparr>segments := (segments shm)[unat sid := seg]\<rparr>"

abbreviation segment :: "shm_region \<Rightarrow> u8 \<Rightarrow> shm_segment" where
  "segment shm sid \<equiv> segments shm ! unat sid"

lemma put_segment_simps [simp]:
  "global_hdr (put_segment shm sid seg) = global_hdr shm"
  "unat sid < length (segments shm) \<Longrightarrow> segment (put_segment shm sid seg) sid = seg"
  "length (segments (put_segment shm sid seg)) = length (segments shm)"
  by (simp_all add: put_segment_def)

lemma shm_wf_segment:
  assumes "shm_wf shm" and "sid < g_segment_count (global_hdr shm)"
  shows "unat sid < length (segments shm)" and "seg_wf (global_hdr shm) (segment shm sid)"
  using assms by (simp_all add: shm_wf_def word_less_nat_alt)

lemma shm_wf_put_segment:
  assumes "shm_wf shm" and "seg_wf (global_hdr shm) seg"
  shows "shm_wf (put_segment shm sid seg)"
  using assms set_update_subset_insert [of "segments shm" "unat sid" seg]
  by (auto simp: shm_wf_def put_segment_def)

lemma reader_list_ex:
  assumes "seg_wf g seg"
  shows "list_ex (\<lambda>r. next_index (g_line_count g) (s_write_index seg) = r)
      (take (unat (g_reader_count g)) (s_read_index seg)) \<longleftrightarrow>
    (\<exists>r < unat (g_reader_count g). length (pending g r seg) = unat (g_line_count g) - 1)"
proof -
  have "length (s_read_index seg) = unat (g_reader_count g)" using assms by (simp add: seg_wf_def)
  then have "list_ex (\<lambda>r. next_index (g_line_count g) (s_write_index seg) = r)
      (take (unat (g_reader_count g)) (s_read_index seg)) \<longleftrightarrow>
    (\<exists>r < unat (g_reader_count g).
      next_index (g_line_count g) (s_write_index seg) = s_read_index seg ! r)"
    by (simp add: list_ex_iff) (metis in_set_conv_nth)
  then show ?thesis using overtake_iff_full [OF assms] by blast
qed

lemma shmrbuf_write_result:
  assumes wf: "shm_wf shm" and sid: "sid < g_segment_count (global_hdr shm)"
    and a: "w_segment_hdrs a" and w: "0 < wsize" "wsize \<le> g_line_size (global_hdr shm)"
    and src: "unat wsize \<le> length src" and mode: "\<not> g_overwrite (global_hdr shm)"
  shows "if \<exists>r < unat (g_reader_count (global_hdr shm)).
        length (pending (global_hdr shm) r (segment shm sid))
          = unat (g_line_count (global_hdr shm)) - 1
    then shmrbuf_write (Some a) (Some src) wsize sid shm = Some (IO_IPC_SIZE_ERR, shm)
    else \<exists>seg'. shmrbuf_write (Some a) (Some src) wsize sid shm
        = Some (uint (g_line_size (global_hdr shm)), put_segment shm sid seg')
      \<and> seg_wf (global_hdr shm) seg'
      \<and> (\<forall>r < unat (g_reader_count (global_hdr shm)).
          pending (global_hdr shm) r seg' = pending (global_hdr shm) r (segment shm sid)
            @ [pad_line (g_line_size (global_hdr shm)) wsize src])"
proof -
  let ?g = "global_hdr shm" and ?seg = "segment shm sid"
  note seg = shm_wf_segment [OF wf sid]
  note full = reader_list_ex [OF seg(2)]
  have guards: "\<not> g_segment_count ?g \<le> sid" "\<not> g_line_size ?g < wsize" "wsize \<noteq> 0"
    "\<not> length src < unat wsize"
    using sid w src by auto
  show ?thesis
  proof (cases "\<exists>r < unat (g_reader_count ?g).
      length (pending ?g r ?seg) = unat (g_line_count ?g) - 1")
    case True
    then show ?thesis
      using full guards a seg(1) mode by (simp add: shmrbuf_write_def Let_def)
  next
    case False
    have room: "length (pending ?g r ?seg) + 1 < unat (g_line_count ?g)"
      if "r < unat (g_reader_count ?g)" for r
      using False that pending_less [OF seg(2) that] by fastforce
    obtain d where d: "mem_write (s_data ?seg) (line_offset (s_write_index ?seg) (g_line_size ?g))
        (pad_line (g_line_size ?g) wsize src) = Some d"
      "seg_wf ?g (?seg\<lparr>s_data := d,
        s_write_index := next_index (g_line_count ?g) (s_write_index ?seg)\<rparr>)"
      "\<forall>r < unat (g_reader_count ?g). length (pending ?g r ?seg) + 1 < unat (g_line_count ?g) \<longrightarrow>
        pending ?g r (?seg\<lparr>s_data := d,
          s_write_index := next_index (g_line_count ?g) (s_write_index ?seg)\<rparr>)
        = pending ?g r ?seg @ [pad_line (g_line_size ?g) wsize src]"
      using segment_write [OF seg(2) w(2) src] by blast
    have "shmrbuf_write (Some a) (Some src) wsize sid shm = Some (uint (g_line_size ?g),
        put_segment shm sid (?seg\<lparr>s_data := d,
          s_write_index := next_index (g_line_count ?g) (s_write_index ?seg)\<rparr>))"
      using full [THEN iffD1] False guards a seg(1) mode d(1)
      by (auto simp: shmrbuf_write_def Let_def put_segment_def)
    with d(2,3) room False show ?thesis by (simp only: if_False) blast
  qed
qed

lemma shmrbuf_read_result:
  assumes wf: "shm_wf shm" and sid: "sid < g_segment_count (global_hdr shm)"
    and a: "r_segment_hdrs a" and r: "r_reader_id a < g_reader_count (global_hdr shm)"
    and buf: "0 < bufsize"
  shows "case pending (global_hdr shm) (unat (r_reader_id a)) (segment shm sid) of
      [] \<Rightarrow> shmrbuf_read (Some a) True bufsize sid shm = Some (0, [], shm)
    | l # ls \<Rightarrow> \<exists>seg'. shmrbuf_read (Some a) True bufsize sid shm
        = Some (uint (min bufsize (g_line_size (global_hdr shm))), take (unat bufsize) l,
            put_segment shm sid seg')
      \<and> seg_wf (global_hdr shm) seg'
      \<and> pending (global_hdr shm) (unat (r_reader_id a)) seg' = ls
      \<and> (\<forall>q. q \<noteq> unat (r_reader_id a) \<longrightarrow>
          pending (global_hdr shm) q seg' = pending (global_hdr shm) q (segment shm sid))"
proof -
  let ?g = "global_hdr shm" and ?seg = "segment shm sid" and ?r = "unat (r_reader_id a)"
  note seg = shm_wf_segment [OF wf sid]
  have rn: "?r < unat (g_reader_count ?g)" using r by (simp add: word_less_nat_alt)
  have rl: "?r < length (s_read_index ?seg)" using rn seg(2) by (simp add: seg_wf_def)
  have guards: "\<not> g_segment_count ?g \<le> sid" "bufsize \<noteq> 0" using sid buf by auto
  have empty: "pending ?g ?r ?seg = [] \<longleftrightarrow> s_write_index ?seg = s_read_index ?seg ! ?r"
    using seg(2) read_index_ok [OF seg(2) rn]
    by (auto simp: pending_def ring_list_empty_iff seg_wf_def word_unat_eq_iff)
  show ?thesis
  proof (cases "s_write_index ?seg = s_read_index ?seg ! ?r")
    case True
    with empty show ?thesis
      using guards a seg(1) rl by (simp add: shmrbuf_read_def Let_def)
  next
    case False
    define seg' where "seg' = ?seg\<lparr>s_read_index := (s_read_index ?seg)
      [?r := next_index (g_line_count ?g) (s_read_index ?seg ! ?r)]\<rparr>"
    note sr = segment_read [OF seg(2) rn False seg'_def]
    let ?off = "line_offset (s_read_index ?seg ! ?r) (g_line_size ?g)"
    let ?rs = "min bufsize (g_line_size ?g)"
    have rs: "(if bufsize < g_line_size ?g then bufsize else g_line_size ?g) = ?rs"
      by (auto simp: min_def)
    have urs: "unat ?rs = min (unat bufsize) (unat (g_line_size ?g))"
      by (simp add: min_def word_le_nat_alt)
    have "shmrbuf_read (Some a) True bufsize sid shm = Some (uint ?rs,
        take (unat bufsize) (take (unat (g_line_size ?g)) (drop ?off (s_data ?seg))),
        put_segment shm sid seg')"
      using guards a seg(1) rl False sr(1) unfolding rs [symmetric]
      by (simp add: shmrbuf_read_def Let_def put_segment_def seg'_def mem_read_def rs urs)
    moreover have "seg_wf ?g seg' \<and> (\<forall>q. q \<noteq> ?r \<longrightarrow> pending ?g q seg' = pending ?g q ?seg)"
      using sr(3,4) by blast
    ultimately show ?thesis unfolding sr(2) by (simp only: list.case) blast
  qed
qed

section \<open>A segment as a message queue\<close>

text \<open>The writer's and the readers' view of one segment: messages that fill a line, the plain
  (not overwriting) mode.\<close>

definition chan_writer :: shmrbuf_writer_arg_t where
  "chan_writer = \<lparr>w_shm_key = None, w_line_size = 0, w_line_count = 0, w_segment_count = 0,
     w_reader_count = 0, w_global_hdr = True, w_segment_hdrs = True, w_flags = 0, w_shm_id = 0\<rparr>"

definition chan_reader :: "nat \<Rightarrow> shmrbuf_reader_arg_t" where
  "chan_reader r = \<lparr>r_shm_key = None, r_shm_id = 0, r_flags = 0, r_reader_id = word_of_nat r,
     r_global_hdr = True, r_segment_hdrs = True\<rparr>"

fun chan_put :: "shm_region \<times> u8 \<Rightarrow> bytes \<Rightarrow> (shm_region \<times> u8) option" where
  "chan_put (shm, sid) m =
     (case shmrbuf_write (Some chan_writer) (Some m) (word_of_nat (length m)) sid shm of
        None \<Rightarrow> None
      | Some (n, shm') \<Rightarrow> if 0 < n then Some (shm', sid) else None)"

fun chan_get :: "nat \<Rightarrow> shm_region \<times> u8 \<Rightarrow> (bytes \<times> (shm_region \<times> u8)) option" where
  "chan_get r (shm, sid) =
     (case shmrbuf_read (Some (chan_reader r)) True (g_line_size (global_hdr shm)) sid shm of
        None \<Rightarrow> None
      | Some (n, bs, shm') \<Rightarrow> if 0 < n then Some (bs, (shm', sid)) else None)"

fun chan_content :: "nat \<Rightarrow> shm_region \<times> u8 \<Rightarrow> bytes list" where
  "chan_content r (shm, sid) = pending (global_hdr shm) r (segment shm sid)"

fun chan_readers :: "shm_region \<times> u8 \<Rightarrow> nat" where
  "chan_readers (shm, sid) = unat (g_reader_count (global_hdr shm))"

fun chan_capacity :: "shm_region \<times> u8 \<Rightarrow> nat" where
  "chan_capacity (shm, sid) = unat (g_line_count (global_hdr shm)) - 1"

fun chan_wf :: "shm_region \<times> u8 \<Rightarrow> bool" where
  "chan_wf (shm, sid) \<longleftrightarrow> shm_wf shm \<and> sid < g_segment_count (global_hdr shm)
     \<and> \<not> g_overwrite (global_hdr shm)"

fun chan_ok :: "shm_region \<times> u8 \<Rightarrow> bytes \<Rightarrow> bool" where
  "chan_ok (shm, sid) m \<longleftrightarrow> length m = unat (g_line_size (global_hdr shm))"

lemma word_of_nat_line:
  "length m = unat (ls :: u16) \<Longrightarrow> word_of_nat (length m) = ls"
  by simp

lemma pad_line_full: "length m = unat ls \<Longrightarrow> pad_line ls ls m = m"
  by (simp add: pad_line_def)

lemma chan_put_cases:
  assumes "chan_wf (shm, sid)" and "chan_ok (shm, sid) m"
  shows "if \<exists>r < chan_readers (shm, sid). length (chan_content r (shm, sid)) = chan_capacity (shm, sid)
    then chan_put (shm, sid) m = None
    else \<exists>seg'. chan_put (shm, sid) m = Some (put_segment shm sid seg', sid)
      \<and> seg_wf (global_hdr shm) seg'
      \<and> (\<forall>r < chan_readers (shm, sid).
          pending (global_hdr shm) r seg' = chan_content r (shm, sid) @ [m])"
proof -
  let ?g = "global_hdr shm"
  have wf: "shm_wf shm" and sid: "sid < g_segment_count ?g" and mode: "\<not> g_overwrite ?g"
    and m: "length m = unat (g_line_size ?g)" using assms by simp_all
  have "0 < unat (g_line_size ?g)"
    using shm_wf_segment(2) [OF wf sid] by (simp add: seg_wf_def)
  then have pos: "0 < g_line_size ?g" "0 < uint (g_line_size ?g)"
    by (simp_all only: word_pos_iff_unat uint_pos_iff_unat)
  have hdrs: "w_segment_hdrs chan_writer" by (simp add: chan_writer_def)
  have len: "unat (g_line_size ?g) \<le> length m" using m by simp
  note res = shmrbuf_write_result [OF wf sid hdrs pos(1) order_refl len mode]
  show ?thesis
  proof (cases "\<exists>r < unat (g_reader_count ?g).
      length (pending ?g r (segment shm sid)) = unat (g_line_count ?g) - 1")
    case True
    with res m show ?thesis by (simp add: word_of_nat_line io_ipc_codes)
  next
    case False
    with res obtain seg' where
      "shmrbuf_write (Some chan_writer) (Some m) (g_line_size ?g) sid shm
        = Some (uint (g_line_size ?g), put_segment shm sid seg')" "seg_wf ?g seg'"
      "\<forall>r < unat (g_reader_count ?g). pending ?g r seg' = pending ?g r (segment shm sid) @
        [pad_line (g_line_size ?g) (g_line_size ?g) m]"
      by (auto simp only: if_False)
    with False m pos(2) show ?thesis by (auto simp: word_of_nat_line pad_line_full)
  qed
qed

lemma unat_reader_id:
  "r < unat (n :: u8) \<Longrightarrow> unat (word_of_nat r :: u8) = r"
  using unat_u8_less [of n] by (simp add: unat_of_nat)

lemma chan_get_cases:
  assumes "chan_wf (shm, sid)" and "r < chan_readers (shm, sid)"
  shows "case chan_content r (shm, sid) of
      [] \<Rightarrow> chan_get r (shm, sid) = None
    | l # ls \<Rightarrow> \<exists>seg'. chan_get r (shm, sid) = Some (l, put_segment shm sid seg', sid)
      \<and> seg_wf (global_hdr shm) seg' \<and> pending (global_hdr shm) r seg' = ls
      \<and> (\<forall>q. q \<noteq> r \<longrightarrow> pending (global_hdr shm) q seg' = chan_content q (shm, sid))"
proof -
  let ?g = "global_hdr shm"
  have wf: "shm_wf shm" and sid: "sid < g_segment_count ?g"
    and r: "r < unat (g_reader_count ?g)" using assms by simp_all
  note seg = shm_wf_segment [OF wf sid]
  have "0 < unat (g_line_size ?g)" using seg(2) by (simp add: seg_wf_def)
  then have pos: "0 < g_line_size ?g" "0 < uint (g_line_size ?g)"
    by (simp_all only: word_pos_iff_unat uint_pos_iff_unat)
  have id: "unat (r_reader_id (chan_reader r)) = r"
    using unat_reader_id [OF r] by (simp add: chan_reader_def)
  then have lt: "r_reader_id (chan_reader r) < g_reader_count ?g"
    using r by (simp add: word_less_nat_alt)
  have hdrs: "r_segment_hdrs (chan_reader r)" by (simp add: chan_reader_def)
  note res = shmrbuf_read_result [OF wf sid hdrs lt pos(1), unfolded id]
  show ?thesis
  proof (cases "pending ?g r (segment shm sid)")
    case Nil
    with res show ?thesis by simp
  next
    case (Cons l ls)
    have "length l = unat (g_line_size ?g)"
    proof -
      have ne: "s_write_index (segment shm sid) \<noteq> s_read_index (segment shm sid) ! r"
        using Cons by (auto simp: pending_def ring_list_def)
      from segment_read(1,2) [OF seg(2) r ne refl] Cons show ?thesis by auto
    qed
    with Cons res pos(2) show ?thesis by auto
  qed
qed

lemma chan_put_segment:
  assumes "chan_wf (shm, sid)" and "seg_wf (global_hdr shm) seg'"
  shows "chan_wf (put_segment shm sid seg', sid)"
    and "chan_content r (put_segment shm sid seg', sid) = pending (global_hdr shm) r seg'"
    and "chan_readers (put_segment shm sid seg', sid) = chan_readers (shm, sid)"
    and "chan_capacity (put_segment shm sid seg', sid) = chan_capacity (shm, sid)"
    and "chan_ok (put_segment shm sid seg', sid) = chan_ok (shm, sid)"
  using assms shm_wf_put_segment shm_wf_segment(1) by (auto simp: fun_eq_iff)

interpretation shm_chan: message_queue chan_put chan_get chan_content chan_readers chan_capacity
  chan_wf chan_ok
proof
  fix s m s'
  assume a: "chan_wf s" "chan_ok s m" "chan_put s m = Some s'"
  obtain shm sid where s: "s = (shm, sid)" by (cases s)
  from chan_put_cases [of shm sid m] a s obtain seg' where
    "s' = (put_segment shm sid seg', sid)" "seg_wf (global_hdr shm) seg'"
    "\<forall>r < chan_readers (shm, sid). pending (global_hdr shm) r seg' = chan_content r (shm, sid) @ [m]"
    by (auto split: if_splits simp del: chan_content.simps chan_readers.simps chan_put.simps
        chan_wf.simps chan_ok.simps chan_capacity.simps)
  then show "chan_wf s' \<and> chan_readers s' = chan_readers s \<and> chan_capacity s' = chan_capacity s
      \<and> chan_ok s' = chan_ok s \<and> (\<forall>r < chan_readers s. chan_content r s' = chan_content r s @ [m])"
    using a(1) unfolding s by (metis chan_put_segment)
next
  fix s m
  assume a: "chan_wf s" "chan_ok s m"
  obtain shm sid where s: "s = (shm, sid)" by (cases s)
  from chan_put_cases [of shm sid m] a
  show "chan_put s m = None \<longleftrightarrow> (\<exists>r < chan_readers s. length (chan_content r s) = chan_capacity s)"
    unfolding s by (auto split: if_splits simp del: chan_content.simps chan_readers.simps
        chan_put.simps chan_wf.simps chan_ok.simps chan_capacity.simps)
next
  fix s r m s'
  assume a: "chan_wf s" "r < chan_readers s" "chan_get r s = Some (m, s')"
  obtain shm sid where s: "s = (shm, sid)" by (cases s)
  from chan_get_cases [of shm sid r] a s obtain seg' ls where
    seg': "chan_content r (shm, sid) = m # ls" "s' = (put_segment shm sid seg', sid)"
    "seg_wf (global_hdr shm) seg'" "pending (global_hdr shm) r seg' = ls"
    "\<forall>q. q \<noteq> r \<longrightarrow> pending (global_hdr shm) q seg' = chan_content q (shm, sid)"
    by (auto split: list.splits simp del: chan_content.simps chan_readers.simps chan_get.simps
        chan_wf.simps)
  from a(1) s have wf: "chan_wf (shm, sid)" by simp
  from chan_put_segment [OF wf seg'(3)] seg'
  show "chan_wf s' \<and> chan_readers s' = chan_readers s \<and> chan_capacity s' = chan_capacity s
      \<and> chan_ok s' = chan_ok s \<and> chan_content r s = m # chan_content r s'
      \<and> (\<forall>q < chan_readers s. q \<noteq> r \<longrightarrow> chan_content q s' = chan_content q s)"
    unfolding s by metis
next
  fix s r
  assume a: "chan_wf s" "r < chan_readers s"
  obtain shm sid where s: "s = (shm, sid)" by (cases s)
  from chan_get_cases [of shm sid r] a show "chan_get r s = None \<longleftrightarrow> chan_content r s = []"
    unfolding s by (auto split: list.splits simp del: chan_content.simps chan_readers.simps
        chan_get.simps chan_wf.simps)
qed

section \<open>Vectored reading\<close>

lemma get_lines_eq:
  assumes "length m = lc * ls" and "0 < ls"
  shows "get_lines ls (a * ls) n m
    = (if a + n \<le> lc \<or> n = 0 then Some (map (slot ls m) [a ..< a + n]) else None)"
proof (induction n arbitrary: a)
  case 0
  then show ?case by simp
next
  case (Suc n)
  have off: "a * ls + ls = (a + 1) * ls" by simp
  show ?case
  proof (cases "a < lc")
    case True
    have "(a + 1) * ls \<le> lc * ls" using True by (intro mult_le_mono1) simp
    then have rd: "mem_read m (a * ls) ls = Some (slot ls m a)"
      using assms(1) by (simp add: mem_read_def slot_def)
    have "[a ..< a + Suc n] = a # [a + 1 ..< a + 1 + n]" by (simp add: upt_conv_Cons)
    then show ?thesis using rd True Suc.IH [of "a + 1"] by (simp add: off)
  next
    case False
    then have "lc * ls \<le> a * ls" by (intro mult_le_mono1) simp
    then have "lc * ls < a * ls + ls" using assms(2) by linarith
    then have "mem_read m (a * ls) ls = None" using assms(1) by (simp add: mem_read_def)
    with False show ?thesis by simp
  qed
qed

lemma unat_max_read:
  assumes "unat wi < unat lc" and "unat ri < unat lc"
  shows "unat (max_read lc wi ri) = rdist (unat lc) (unat ri) (unat wi)"
proof (cases "wi < ri")
  case True
  then have lt: "unat wi < unat ri" by (simp add: word_less_nat_alt)
  then have "unat (ri - wi) = unat ri - unat wi"
    by (intro unat_sub) (simp add: word_le_nat_alt)
  moreover from this have "unat (lc - (ri - wi)) = unat lc - (unat ri - unat wi)"
    using assms(2) by (subst unat_sub) (simp_all add: word_le_nat_alt)
  ultimately show ?thesis using True lt assms by (simp add: max_read_def rdist_def)
next
  case False
  then have le: "unat ri \<le> unat wi" by (simp add: word_less_nat_alt)
  then have "unat (wi - ri) = unat wi - unat ri" by (intro unat_sub) (simp add: word_le_nat_alt)
  then show ?thesis using False le by (simp add: max_read_def rdist_def)
qed

lemma unat_add_mod_count:
  fixes i lc :: u32
  assumes "unat i < unat lc" and "unat lc \<le> 2 ^ 31"
  shows "unat ((i + ucast (v :: u16)) mod lc) = radd (unat lc) (unat i) (unat v)"
proof -
  have "unat v < 65536" by (rule unat_u16_less)
  then have "unat (i + ucast v) = unat i + unat v"
    using assms by (simp add: unat_word_ariths)
  then show ?thesis by (simp add: unat_mod_distrib radd_def)
qed

text \<open>A comparison of a 32-bit count with a 16-bit one that picks the smaller.\<close>

lemma unat_cap_16:
  "unat (if (x :: u32) < ucast (v :: u16) then ucast x else v) = min (unat x) (unat v)"
proof (cases "x < ucast v")
  case True
  then have "unat x < unat v" by (simp add: word_less_nat_alt)
  moreover from this have "unat x < 65536" using unat_u16_less [of v] by simp
  ultimately show ?thesis using True 
    by (simp add: unsigned_ucast_eq take_bit_nat_eq_self)
next
  case False
  then show ?thesis by (simp add: word_less_nat_alt)
qed

text \<open>What a vectored read does: the oldest pending lines, as far as they lie before the end of
  the line area; a request across the end reads behind it.\<close>

lemma shmrbuf_readv_result:
  assumes wf: "shm_wf shm" and sid: "sid < g_segment_count (global_hdr shm)"
    and a: "r_segment_hdrs a" and r: "r_reader_id a < g_reader_count (global_hdr shm)"
    and v: "0 < vsize" and buf: "g_line_size (global_hdr shm) \<le> bufsize"
    and lc: "unat (g_line_count (global_hdr shm)) \<le> 2 ^ 31"
    and p: "p = pending (global_hdr shm) (unat (r_reader_id a)) (segment shm sid)"
    and k: "k = min (length p) (unat vsize)"
  shows "if unat (s_read_index (segment shm sid) ! unat (r_reader_id a)) + k
        \<le> unat (g_line_count (global_hdr shm))
    then \<exists>seg'. shmrbuf_readv (Some a) True vsize bufsize sid shm
          = Some (int k, take k p, if p = [] then shm else put_segment shm sid seg')
      \<and> seg_wf (global_hdr shm) seg'
      \<and> pending (global_hdr shm) (unat (r_reader_id a)) seg' = drop k p
      \<and> (\<forall>q. q \<noteq> unat (r_reader_id a) \<longrightarrow>
          pending (global_hdr shm) q seg' = pending (global_hdr shm) q (segment shm sid))
    else shmrbuf_readv (Some a) True vsize bufsize sid shm = None"
proof -
  let ?g = "global_hdr shm" and ?seg = "segment shm sid" and ?r = "unat (r_reader_id a)"
  let ?n = "unat (g_line_count ?g)" and ?w = "unat (g_line_size ?g)"
  let ?ri = "s_read_index ?seg ! ?r" and ?wi = "s_write_index ?seg"
  note seg = shm_wf_segment [OF wf sid]
  have rn: "?r < unat (g_reader_count ?g)" using r by (simp add: word_less_nat_alt)
  have rl: "?r < length (s_read_index ?seg)" using rn seg(2) by (simp add: seg_wf_def)
  have ri: "unat ?ri < ?n" by (rule read_index_ok [OF seg(2) rn])
  have wi: "unat ?wi < ?n" and len: "length (s_data ?seg) = ?n * ?w" and w0: "0 < ?w"
    and small: "?n * ?w < 2 ^ 32" using seg(2) by (simp_all add: seg_wf_def)
  have lenp: "length p = rdist ?n (unat ?ri) (unat ?wi)" by (simp add: p length_pending)
  have empty: "p = [] \<longleftrightarrow> ?wi = ?ri"
    using ri wi by (auto simp: p pending_def ring_list_empty_iff word_unat_eq_iff)
  have guards: "\<not> g_segment_count ?g \<le> sid" "vsize \<noteq> 0" "\<not> bufsize < g_line_size ?g"
    "g_line_count ?g \<noteq> 0" using sid v buf wi by auto
  show ?thesis
  proof (cases "?wi = ?ri")
    case True
    then have "shmrbuf_readv (Some a) True vsize bufsize sid shm = Some (0, [], shm)"
      using guards a seg(1) rl by (simp add: shmrbuf_readv_def Let_def)
    moreover have "p = []" "k = 0" using True empty k by simp_all
    moreover have "unat ?ri + 0 \<le> ?n" using ri by simp
    ultimately show ?thesis using seg(2) p by (auto intro: exI [of _ ?seg])
  next
    case False
    define vs where "vs = (if max_read (g_line_count ?g) ?wi ?ri < ucast vsize
      then ucast (max_read (g_line_count ?g) ?wi ?ri) else vsize)"
    have vs: "unat vs = k"
      by (simp only: vs_def unat_cap_16 unat_max_read [OF wi ri] k lenp)
    have uvs: "uint vs = int k" unfolding vs [symmetric] by simp
    define nri where "nri = (?ri + ucast vs) mod g_line_count ?g"
    define seg' where "seg' = ?seg\<lparr>s_read_index := (s_read_index ?seg)[?r := nri]\<rparr>"
    have nri: "unat nri = radd ?n (unat ?ri) k"
      unfolding nri_def vs [symmetric] by (rule unat_add_mod_count [OF ri lc])
    have off: "line_offset ?ri (g_line_size ?g) = unat ?ri * ?w"
      by (rule line_offset_eq [OF ri small])
    have call: "shmrbuf_readv (Some a) True vsize bufsize sid shm =
      (case get_lines ?w (unat ?ri * ?w) k (s_data ?seg) of None \<Rightarrow> None
       | Some ls \<Rightarrow> Some (int k, ls, put_segment shm sid seg'))"
      using guards a seg(1) rl False vs uvs
      by (simp add: shmrbuf_readv_def Let_def vs_def [symmetric] nri_def [symmetric]
          put_segment_def seg'_def off split: option.split)
    have k0: "k \<noteq> 0" using False empty k v by (simp add: word_pos_iff_unat)
    have kle: "k \<le> rdist ?n (unat ?ri) (unat ?wi)" using k lenp by simp
    show ?thesis
    proof (cases "unat ?ri + k \<le> ?n")
      case True
      have "map (slot ?w (s_data ?seg)) [unat ?ri ..< unat ?ri + k] = take k p"
        using ring_list_prefix [OF ri wi kle True, of "slot ?w (s_data ?seg)"]
        by (simp add: p pending_def)
      moreover have "pending ?g ?r seg' = drop k p"
        using ring_list_drop [OF ri wi kle] rl nri by (simp add: p pending_def seg'_def)
      moreover have "seg_wf ?g seg'"
        using seg(2) nri ri 
        by (auto simp: seg_wf_def seg'_def radd_less dest!: set_update_subset_insert [THEN subsetD])
      moreover have "pending ?g q seg' = pending ?g q ?seg" if "q \<noteq> ?r" for q
        using that by (simp add: pending_def seg'_def)
      ultimately show ?thesis
        using True call k0 False empty get_lines_eq [OF len w0, of "unat ?ri" k] by auto
    next
      case False
      then show ?thesis using call k0 get_lines_eq [OF len w0, of "unat ?ri" k] by simp
    qed
  qed
qed

section \<open>Vectored writing\<close>

definition iov_line :: "u16 \<Rightarrow> iovec \<Rightarrow> bytes" where
  "iov_line ls iov = pad_line ls (ucast (iov_len iov)) (iov_base iov)"

definition iov_ok :: "u16 \<Rightarrow> iovec \<Rightarrow> bool" where
  "iov_ok ls iov \<longleftrightarrow> (ucast (iov_len iov) :: u16) \<le> ls
     \<and> unat (ucast (iov_len iov) :: u16) \<le> length (iov_base iov)"

lemma put_lines_ok:
  assumes "length m = lc * unat ls" and "a + n \<le> lc" and "n \<le> length iovs"
    and "\<forall>iov\<in>set (take n iovs). iov_ok ls iov"
  shows "\<exists>d. put_lines ls iovs (a * unat ls) n m = Some (True, d) \<and> length d = length m
    \<and> (\<forall>j. slot (unat ls) d j =
        (if a \<le> j \<and> j < a + n then iov_line ls (iovs ! (j - a)) else slot (unat ls) m j))"
  using assms
proof (induction n arbitrary: iovs a m)
  case 0
  then show ?case by auto
next
  case (Suc n)
  obtain iov iovs' where iovs: "iovs = iov # iovs'" using Suc.prems(3) by (cases iovs) auto
  have ok: "iov_ok ls iov" using Suc.prems(4) iovs by simp
  have ll: "length (iov_line ls iov) = unat ls"
    using ok by (simp add: iov_line_def iov_ok_def length_pad_line)
  have "(a + 1) * unat ls \<le> lc * unat ls" using Suc.prems(2) by (intro mult_le_mono1) simp
  then obtain m' where m': "mem_write m (a * unat ls) (iov_line ls iov) = Some m'"
    using Suc.prems(1) ll by (simp add: mem_write_def)
  have lm': "length m' = length m" by (rule mem_write_length [OF m'])
  have "\<exists>d. put_lines ls iovs' ((a + 1) * unat ls) n m' = Some (True, d) \<and> length d = length m'
    \<and> (\<forall>j. slot (unat ls) d j = (if a + 1 \<le> j \<and> j < a + 1 + n
        then iov_line ls (iovs' ! (j - (a + 1))) else slot (unat ls) m' j))"
    by (rule Suc.IH) (use Suc.prems iovs lm' in auto)
  then obtain d where d: "put_lines ls iovs' ((a + 1) * unat ls) n m' = Some (True, d)"
    "length d = length m'" and slots: "\<And>j. slot (unat ls) d j = (if a + 1 \<le> j \<and> j < a + 1 + n
        then iov_line ls (iovs' ! (j - (a + 1))) else slot (unat ls) m' j)" by blast
  have "put_lines ls iovs (a * unat ls) (Suc n) m = Some (True, d)"
    using ok m' d(1) unfolding iovs
    by (auto simp: iov_ok_def iov_line_def Let_def add.commute)
  moreover have "slot (unat ls) d j = (if a \<le> j \<and> j < a + Suc n
      then iov_line ls (iovs ! (j - a)) else slot (unat ls) m j)" for j
  proof (cases "j = a")
    case True
    then show ?thesis using slots [of j] slot_write_same [OF m' ll] iovs by simp
  next
    case False
    then show ?thesis using slots [of j] slot_write_other [OF m' ll False] iovs
      by (auto simp: nth_Cons' Suc_le_eq)
  qed
  ultimately show ?case using d(2) lm' by auto
qed

lemma unat_free_lines:
  assumes "unat wi < unat lc" and "unat ri < unat lc"
  shows "unat (free_lines lc wi ri) = unat lc - 1 - rdist (unat lc) (unat ri) (unat wi)"
proof (cases "wi < ri")
  case True
  then have lt: "unat wi < unat ri" by (simp add: word_less_nat_alt)
  then have d: "unat (ri - wi) = unat ri - unat wi"
    by (intro unat_sub) (simp add: word_le_nat_alt)
  have "unat (ri - wi - 1) = unat ri - unat wi - 1"
    using lt d by (subst unat_sub) (simp_all add: word_le_nat_alt)
  then show ?thesis using True lt assms by (simp add: free_lines_def rdist_def)
next
  case False
  then have le: "unat ri \<le> unat wi" by (simp add: word_less_nat_alt)
  then have d: "unat (wi - ri) = unat wi - unat ri" by (intro unat_sub) (simp add: word_le_nat_alt)
  then have e: "unat (lc - (wi - ri)) = unat lc - (unat wi - unat ri)"
    using assms by (subst unat_sub) (simp_all add: word_le_nat_alt)
  have "unat (lc - (wi - ri) - 1) = unat lc - (unat wi - unat ri) - 1"
    using e assms by (subst unat_sub) (simp_all add: word_le_nat_alt)
  then show ?thesis using False le by (simp add: free_lines_def rdist_def)
qed

text \<open>The reader loop computes the minimum of the wanted number and the free lines in front of
  every reader.\<close>

lemma unat_limit_vsize:
  "unat (limit_vsize lc wi rs v) = Min (insert (unat v) ((\<lambda>r. unat (free_lines lc wi r)) ` set rs))"
proof (induction rs arbitrary: v)
  case Nil
  then show ?case by simp
next
  case (Cons r rs)
  let ?S = "(\<lambda>r. unat (free_lines lc wi r)) ` set rs" and ?f = "unat (free_lines lc wi r)"
  define v' where "v' = (if free_lines lc wi r < ucast v then ucast (free_lines lc wi r) else v)"
  have v': "unat v' = min ?f (unat v)" by (simp only: v'_def unat_cap_16)
  have Min: "Min (insert (unat v) (insert ?f ?S)) = Min (insert (unat v') ?S)"
    unfolding v' by (cases "?S = {}") (simp_all add: min.assoc min.commute min.left_commute)
  show ?case
  proof (cases "v' = 0")
    case True
    then have "Min (insert (unat v') ?S) = 0" by (simp add: Min_eq_iff)
    with True Min show ?thesis by (simp add: Let_def v'_def [symmetric])
  next
    case False
    with Min Cons.IH [of v'] show ?thesis by (simp add: Let_def v'_def [symmetric])
  qed
qed

text \<open>The lines that end up in the ring: when the end of the line area is passed after \<open>d\<close>
  lines, the remaining ones are again the first vector elements.\<close>

definition written_lines :: "u16 \<Rightarrow> nat \<Rightarrow> nat \<Rightarrow> iovec list \<Rightarrow> bytes list" where
  "written_lines ls room k iovs =
     map (iov_line ls) (take (min k room) iovs @ take (k - min k room) iovs)"

lemma copy_lines_ok:
  assumes wi: "unat wi < unat lc" and lc: "unat lc \<le> 2 ^ 31"
    and small: "unat lc * unat ls < 2 ^ 32" and len: "length m = unat lc * unat ls"
    and k: "0 < unat v" "unat v \<le> unat lc" "unat v \<le> length iovs"
    and ok: "\<forall>iov\<in>set (take (unat v) iovs). iov_ok ls iov"
  shows "\<exists>d. copy_lines ls lc wi iovs v m = Some (True, d) \<and> length d = length m
    \<and> (\<forall>i < unat v. slot (unat ls) d (radd (unat lc) (unat wi) i)
        = written_lines ls (unat lc - unat wi) (unat v) iovs ! i)
    \<and> (\<forall>j < unat lc. (\<forall>i < unat v. j \<noteq> radd (unat lc) (unat wi) i) \<longrightarrow>
        slot (unat ls) d j = slot (unat ls) m j)"
proof -
  let ?n = "unat lc" and ?w = "unat wi" and ?k = "unat v" and ?s = "slot (unat ls)"
  have off: "line_offset wi ls = ?w * unat ls" by (rule line_offset_eq [OF wi small])
  have nwi: "unat ((wi + ucast v) mod lc) = radd ?n ?w ?k" by (rule unat_add_mod_count [OF wi lc])
  have radd: "radd ?n ?w i = (if ?w + i < ?n then ?w + i else ?w + i - ?n)" if "i < ?k" for i
    using that k(2) wi by (intro radd_cases) simp_all
  show ?thesis
  proof (cases "?w + ?k < ?n")
    case True
    then have "radd ?n ?w ?k = ?w + ?k" by (simp add: radd_def)
    then have branch: "wi < (wi + ucast v) mod lc" using nwi k(1) by (simp add: word_less_nat_alt)
    from True have "?w + ?k \<le> ?n" by simp
    from put_lines_ok [OF len this k(3) ok] obtain d where
      d: "put_lines ls iovs (?w * unat ls) ?k m = Some (True, d)" "length d = length m"
      and slots: "\<And>j. ?s d j = (if ?w \<le> j \<and> j < ?w + ?k then iov_line ls (iovs ! (j - ?w))
        else ?s m j)" by blast
    have "copy_lines ls lc wi iovs v m = Some (True, d)"
      using branch d(1) by (simp add: copy_lines_def off)
    moreover have "?s d (radd ?n ?w i) = written_lines ls (?n - ?w) ?k iovs ! i" if "i < ?k" for i
      using that True radd [OF that] slots k(3) by (simp add: written_lines_def nth_append)
    moreover have "?s d j = ?s m j" if "\<forall>i < ?k. j \<noteq> radd ?n ?w i" for j
    proof -
      have "\<not> (?w \<le> j \<and> j < ?w + ?k)"
      proof
        assume j: "?w \<le> j \<and> j < ?w + ?k"
        then have "j - ?w < ?k" by linarith
        then show False using that radd [of "j - ?w"] True j by auto
      qed
      then show ?thesis by (simp only: slots if_False)
    qed
    ultimately show ?thesis using d(2) by blast
  next
    case False
    define dst :: u16 where "dst = ucast (lc - wi)"
    have "unat (lc - wi) = ?n - ?w" using wi by (intro unat_sub) (simp add: word_le_nat_alt)
    moreover have "?n - ?w < 65536" using False unat_u16_less [of v] by simp
    ultimately have dst: "unat dst = ?n - ?w"
      by (simp add: dst_def unsigned_ucast_eq take_bit_nat_eq_self)
    have rest: "unat (v - dst) = ?k - (?n - ?w)"
      using False dst by (subst unat_sub) (simp_all add: word_le_nat_alt)
    have "radd ?n ?w ?k \<le> ?w" using False k(2) wi by (auto simp: radd_def mod_if)
    then have branch: "\<not> wi < (wi + ucast v) mod lc" using nwi by (simp add: word_less_nat_alt)
    have "\<exists>d1. put_lines ls iovs (?w * unat ls) (?n - ?w) m = Some (True, d1) \<and> length d1 = length m
      \<and> (\<forall>j. ?s d1 j = (if ?w \<le> j \<and> j < ?w + (?n - ?w) then iov_line ls (iovs ! (j - ?w))
          else ?s m j))"
      by (rule put_lines_ok [OF len]) 
        (use wi False k take_all_mono [OF ok, of "?n - ?w"] in auto)
    then obtain d1 where d1: "put_lines ls iovs (?w * unat ls) (?n - ?w) m = Some (True, d1)"
      "length d1 = length m" and slots1: "\<And>j. ?s d1 j = (if ?w \<le> j \<and> j < ?n
        then iov_line ls (iovs ! (j - ?w)) else ?s m j)" using wi by auto
    have "\<exists>d. put_lines ls iovs (0 * unat ls) (?k - (?n - ?w)) d1 = Some (True, d)
      \<and> length d = length d1 \<and> (\<forall>j. ?s d j = (if 0 \<le> j \<and> j < 0 + (?k - (?n - ?w))
          then iov_line ls (iovs ! (j - 0)) else ?s d1 j))"
      by (rule put_lines_ok [of d1 ?n]) 
        (use wi False k take_all_mono [OF ok, of "?k - (?n - ?w)"] d1(2) len in auto)
    then obtain d where d: "put_lines ls iovs 0 (?k - (?n - ?w)) d1 = Some (True, d)"
      "length d = length d1" and slots: "\<And>j. ?s d j = (if j < ?k - (?n - ?w)
        then iov_line ls (iovs ! j) else ?s d1 j)" by auto
    have "copy_lines ls lc wi iovs v m = Some (True, d)"
      using branch d1(1) d(1) by (simp add: copy_lines_def off dst_def [symmetric] dst rest)
    moreover have "?s d (radd ?n ?w i) = written_lines ls (?n - ?w) ?k iovs ! i" if "i < ?k" for i
    proof -
      have "min ?k (?n - ?w) = ?n - ?w" using False by simp
      then have "written_lines ls (?n - ?w) ?k iovs ! i
        = iov_line ls (iovs ! (if i < ?n - ?w then i else i - (?n - ?w)))"
        using that k(3) by (simp add: written_lines_def nth_append)
      then show ?thesis using that False radd [OF that] slots slots1 k(2) wi
        by (auto simp: add.commute)
    qed
    moreover have "?s d j = ?s m j" if "j < ?n" "\<forall>i < ?k. j \<noteq> radd ?n ?w i" for j
    proof -
      have "\<not> ?w \<le> j"
      proof
        assume j: "?w \<le> j"
        then have "j - ?w < ?k" using False that(1) by linarith
        then show False using that radd [of "j - ?w"] j by auto
      qed
      moreover have "\<not> j < ?k - (?n - ?w)"
      proof
        assume j: "j < ?k - (?n - ?w)"
        then have "j + (?n - ?w) < ?k" by linarith
        then show False using that(2) radd [of "j + (?n - ?w)"] wi by auto
      qed
      ultimately show ?thesis by (simp add: slots slots1)
    qed
    ultimately show ?thesis using d(2) d1(2) by auto
  qed
qed

lemma segment_writev:
  assumes wf: "seg_wf g seg" and lc: "unat (g_line_count g) \<le> 2 ^ 31"
    and k: "0 < unat v" "unat v \<le> unat (g_line_count g)" "unat v \<le> length iovs"
    and ok: "\<forall>iov\<in>set (take (unat v) iovs). iov_ok (g_line_size g) iov"
    and room: "\<forall>r < unat (g_reader_count g).
      length (pending g r seg) + unat v < unat (g_line_count g)"
  shows "\<exists>seg'. (\<exists>d. copy_lines (g_line_size g) (g_line_count g) (s_write_index seg) iovs v
        (s_data seg) = Some (True, d) \<and> seg' = seg\<lparr>s_data := d,
          s_write_index := (s_write_index seg + ucast v) mod g_line_count g\<rparr>)
    \<and> seg_wf g seg'
    \<and> (\<forall>r < unat (g_reader_count g). pending g r seg' = pending g r seg
        @ written_lines (g_line_size g) (unat (g_line_count g) - unat (s_write_index seg))
            (unat v) iovs)"
proof -
  let ?n = "unat (g_line_count g)" and ?w = "unat (s_write_index seg)"
  let ?xs = "written_lines (g_line_size g) (?n - ?w) (unat v) iovs"
  have wi: "?w < ?n" and len: "length (s_data seg) = ?n * unat (g_line_size g)"
    and small: "?n * unat (g_line_size g) < 2 ^ 32" using wf by (simp_all add: seg_wf_def)
  obtain d where d: "copy_lines (g_line_size g) (g_line_count g) (s_write_index seg) iovs v
      (s_data seg) = Some (True, d)" "length d = length (s_data seg)"
    and new: "\<And>i. i < unat v \<Longrightarrow> slot (unat (g_line_size g)) d (radd ?n ?w i) = ?xs ! i"
    and old: "\<And>j. j < ?n \<Longrightarrow> \<forall>i < unat v. j \<noteq> radd ?n ?w i \<Longrightarrow>
      slot (unat (g_line_size g)) d j = slot (unat (g_line_size g)) (s_data seg) j"
    using copy_lines_ok [OF wi lc small len k ok] by blast
  let ?nwi = "(s_write_index seg + ucast v) mod g_line_count g"
  let ?seg' = "seg\<lparr>s_data := d, s_write_index := ?nwi\<rparr>"
  have nwi: "unat ?nwi = radd ?n ?w (unat v)" by (rule unat_add_mod_count [OF wi lc])
  have lxs: "length ?xs = unat v" using k(3) by (simp add: written_lines_def)
  have "seg_wf g ?seg'" using wf d(2) nwi wi by (simp add: seg_wf_def radd_less)
  moreover have "pending g r ?seg' = pending g r seg @ ?xs"
    if r: "r < unat (g_reader_count g)" for r
  proof -
    let ?a = "unat (s_read_index seg ! r)"
    have a: "?a < ?n" by (rule read_index_ok [OF wf r])
    have rm: "rdist ?n ?a ?w + length ?xs < ?n"
      using room r by (simp add: length_pending lxs)
    have "ring_list ?n (slot (unat (g_line_size g)) d) ?a (radd ?n ?w (length ?xs))
      = ring_list ?n (slot (unat (g_line_size g)) (s_data seg)) ?a ?w @ ?xs"
    proof (rule ring_list_append [OF a wi rm])
      fix i assume "i < length ?xs"
      then show "slot (unat (g_line_size g)) d (radd ?n ?w i) = ?xs ! i" using new lxs by simp
    next
      fix j assume j: "j < rdist ?n ?a ?w"
      show "slot (unat (g_line_size g)) d (radd ?n ?a j)
        = slot (unat (g_line_size g)) (s_data seg) (radd ?n ?a j)"
      proof (rule old)
        show "radd ?n ?a j < ?n" using a by (simp add: radd_less)
        show "\<forall>i < unat v. radd ?n ?a j \<noteq> radd ?n ?w i"
        proof (intro allI impI)
          fix i assume "i < unat v"
          then have "rdist ?n ?a ?w + i < ?n" using rm lxs by linarith
          from ring_slot_outside [OF a wi j this] show "radd ?n ?a j \<noteq> radd ?n ?w i" by (rule not_sym)
        qed
      qed
    qed
    then show ?thesis using nwi lxs by (simp add: pending_def)
  qed
  ultimately show ?thesis using d(1) by blast
qed

lemma unat_writev_count:
  assumes wf: "seg_wf g seg"
  shows "unat (limit_vsize (g_line_count g) (s_write_index seg)
      (take (unat (g_reader_count g)) (s_read_index seg))
      (if g_line_count g < ucast vsize then ucast (g_line_count g) else vsize))
    = Min (insert (min (unat (g_line_count g)) (unat vsize))
        ((\<lambda>r. unat (g_line_count g) - 1 - length (pending g r seg)) ` {..< unat (g_reader_count g)}))"
proof -
  have len: "length (s_read_index seg) = unat (g_reader_count g)"
    and wi: "unat (s_write_index seg) < unat (g_line_count g)" using wf by (simp_all add: seg_wf_def)
  have "(\<lambda>r. unat (free_lines (g_line_count g) (s_write_index seg) r)) `
      set (take (unat (g_reader_count g)) (s_read_index seg))
    = (\<lambda>r. unat (free_lines (g_line_count g) (s_write_index seg) (s_read_index seg ! r))) `
      {..< unat (g_reader_count g)}"
    using len by (auto simp: set_conv_nth image_iff)
  also have "\<dots> = (\<lambda>r. unat (g_line_count g) - 1 - length (pending g r seg)) `
      {..< unat (g_reader_count g)}"
    using unat_free_lines [OF wi read_index_ok [OF wf]] by (intro image_cong) (simp_all add: length_pending)
  finally show ?thesis by (simp only: unat_limit_vsize unat_cap_16)
qed

end
