(* ===== verification/Shm_Ringbuf_Props.thy ===== *)
theory Shm_Ringbuf_Props
  imports Shm_Ringbuf
begin

text \<open>
  The properties of the calls of the shared memory ring buffer: delivery in order and exactly
  once to every reader for every interleaving of writer and readers, the result of every call on
  every branch, the two vectored calls up to and across the end of the line area, the overwrite
  mode, and the scan over a range of segments.
\<close>

section \<open>A small region for the examples\<close>

definition demo_hdr :: "bool \<Rightarrow> shmrbuf_global_hdr_t" where
  "demo_hdr ow = \<lparr>g_checksum = 0, g_segment_count = 1, g_reader_count = 1, g_line_size = 2,
     g_line_count = 4, g_overwrite = ow, g_writer_att = True, g_reader_att = [True]\<rparr>"

definition demo_region :: "bool \<Rightarrow> u32 \<Rightarrow> u32 \<Rightarrow> shm_region" where
  "demo_region ow wi ri = \<lparr>global_hdr = demo_hdr ow,
     segments = [\<lparr>s_write_index = wi, s_read_index = [ri], s_data = [1, 2, 3, 4, 5, 6, 7, 8]\<rparr>]\<rparr>"

lemma demo_region_simps [simp]:
  "global_hdr (demo_region ow wi ri) = demo_hdr ow"
  "segments (demo_region ow wi ri) =
     [\<lparr>s_write_index = wi, s_read_index = [ri], s_data = [1, 2, 3, 4, 5, 6, 7, 8]\<rparr>]"
  "g_segment_count (demo_hdr ow) = 1" "g_reader_count (demo_hdr ow) = 1"
  "g_line_size (demo_hdr ow) = 2" "g_line_count (demo_hdr ow) = 4" "g_overwrite (demo_hdr ow) = ow"
  by (simp_all add: demo_region_def demo_hdr_def)

lemma demo_region_wf [simp]: "unat wi < 4 \<Longrightarrow> unat ri < 4 \<Longrightarrow> shm_wf (demo_region ow wi ri)"
  by (simp add: wf_simps)

lemma demo_chan_reader [simp]:
  "r_segment_hdrs (chan_reader r)" "r_reader_id (chan_reader 0) = 0" "w_segment_hdrs chan_writer"
  by (simp_all add: chan_reader_def chan_writer_def)

lemma demo_hypotheses:
  "0 < g_segment_count (global_hdr (demo_region ow wi ri))"
  "r_reader_id (chan_reader 0) < g_reader_count (global_hdr (demo_region ow wi ri))"
  "0 < (2 :: u16)" "g_line_size (global_hdr (demo_region ow wi ri)) \<le> 2"
  "unat (g_line_count (global_hdr (demo_region ow wi ri))) \<le> 2 ^ 31"
  "w_segment_hdrs (chan_writer\<lparr>w_segment_count := 1\<rparr>)"
  "0 < w_segment_count (chan_writer\<lparr>w_segment_count := 1\<rparr>)"
  "\<not> g_overwrite (global_hdr (demo_region False wi ri))"
  "0 < unat (g_reader_count (global_hdr (demo_region ow wi ri)))"
  by (simp_all add: chan_writer_def)

section \<open>Single lines\<close>





text \<open>A read on a well-formed region: the argument errors, the empty request, 0 without any
  change when the reader has no line pending, and otherwise the oldest pending line, cut to the
  buffer, which is removed for this reader only.\<close>

theorem shmrbuf_read_correct:
  assumes wf: "shm_wf shm" and a: "r_segment_hdrs a"
    and r: "r_reader_id a < g_reader_count (global_hdr shm)"
  shows "\<exists>n bs shm'. shmrbuf_read (Some a) True bufsize sid shm = Some (n, bs, shm') \<and> shm_wf shm'
    \<and> (if g_segment_count (global_hdr shm) \<le> sid
       then n = IO_IPC_ARG_ERR \<and> shm' = shm
       else if bufsize = 0 then n = 0 \<and> shm' = shm
       else case pending (global_hdr shm) (unat (r_reader_id a)) (segment shm sid) of
           [] \<Rightarrow> n = 0 \<and> shm' = shm
         | l # ls \<Rightarrow> n = uint (min bufsize (g_line_size (global_hdr shm)))
             \<and> bs = take (unat bufsize) l
             \<and> global_hdr shm' = global_hdr shm
             \<and> pending (global_hdr shm) (unat (r_reader_id a)) (segment shm' sid) = ls
             \<and> (\<forall>q. q \<noteq> unat (r_reader_id a) \<longrightarrow> pending (global_hdr shm) q (segment shm' sid)
                 = pending (global_hdr shm) q (segment shm sid)))"
proof (cases "g_segment_count (global_hdr shm) \<le> sid \<or> bufsize = 0")
  case True
  then show ?thesis using wf a by (auto simp: shmrbuf_read_def Let_def)
next
  case False
  then have g: "sid < g_segment_count (global_hdr shm)" "0 < bufsize" by (auto simp: word_gt_0)
  note res = shmrbuf_read_result [OF wf g(1) a r g(2)]
  show ?thesis
    using res False shm_wf_put_segment [OF wf] shm_wf_segment(1) [OF wf g(1)] wf
    by (auto split: list.splits)
qed

theorem shmrbuf_read_correct_witness:
  "\<exists>shm'. shmrbuf_read (Some (chan_reader 0)) True 1 0 (demo_region False 1 3) = Some (1, [7], shm')
    \<and> pending (demo_hdr False) 0 (segment shm' 0) = [[1, 2]]"
proof -
  have "pending (demo_hdr False) 0 (segment (demo_region False 1 3) 0) = [[7, 8], [1, 2]]"
    by (simp add: pending_def ring_list_def rdist_def slot_def radd_def)
  then show ?thesis
    using shmrbuf_read_correct [of "demo_region False 1 3" "chan_reader 0" 1 0]
    by (auto simp: min_def)
qed

section \<open>Several lines at once\<close>

text \<open>A vectored read returns the oldest pending lines, at most \<open>vsize\<close> of them, and removes
  them for this reader only, provided that they do not pass the end of the line area; when they
  do, the copy loop runs on behind the line area of the segment.\<close>

theorem shmrbuf_readv_correct:
  assumes wf: "shm_wf shm" and sid: "sid < g_segment_count (global_hdr shm)"
    and a: "r_segment_hdrs a" and r: "r_reader_id a < g_reader_count (global_hdr shm)"
    and v: "0 < vsize" and buf: "g_line_size (global_hdr shm) \<le> bufsize"
    and lc: "unat (g_line_count (global_hdr shm)) \<le> 2 ^ 31"
    and p: "p = pending (global_hdr shm) (unat (r_reader_id a)) (segment shm sid)"
    and k: "k = min (length p) (unat vsize)"
  shows "(unat (s_read_index (segment shm sid) ! unat (r_reader_id a)) + k
        \<le> unat (g_line_count (global_hdr shm)) \<longrightarrow>
      (\<exists>shm'. shmrbuf_readv (Some a) True vsize bufsize sid shm = Some (int k, take k p, shm')
        \<and> shm_wf shm' \<and> global_hdr shm' = global_hdr shm
        \<and> pending (global_hdr shm) (unat (r_reader_id a)) (segment shm' sid) = drop k p
        \<and> (\<forall>q. q \<noteq> unat (r_reader_id a) \<longrightarrow> pending (global_hdr shm) q (segment shm' sid)
            = pending (global_hdr shm) q (segment shm sid))))
    \<and> (unat (g_line_count (global_hdr shm))
        < unat (s_read_index (segment shm sid) ! unat (r_reader_id a)) + k \<longrightarrow>
      shmrbuf_readv (Some a) True vsize bufsize sid shm = None)"
proof (cases "unat (s_read_index (segment shm sid) ! unat (r_reader_id a)) + k
    \<le> unat (g_line_count (global_hdr shm))")
  case True
  with shmrbuf_readv_result [OF wf sid a r v buf lc p k] obtain seg' where
    seg': "shmrbuf_readv (Some a) True vsize bufsize sid shm
      = Some (int k, take k p, if p = [] then shm else put_segment shm sid seg')"
    "seg_wf (global_hdr shm) seg'" "pending (global_hdr shm) (unat (r_reader_id a)) seg' = drop k p"
    "\<forall>q. q \<noteq> unat (r_reader_id a) \<longrightarrow>
      pending (global_hdr shm) q seg' = pending (global_hdr shm) q (segment shm sid)"
    by (auto simp only: if_True)
  show ?thesis
  proof (cases "p = []")
    case True
    then show ?thesis using seg' wf p k \<open>_ \<le> unat (g_line_count _)\<close> by simp
  next
    case False
    then show ?thesis
      using seg' shm_wf_put_segment [OF wf seg'(2)] shm_wf_segment(1) [OF wf sid] True by simp
  qed
next
  case False
  with shmrbuf_readv_result [OF wf sid a r v buf lc p k] show ?thesis by simp
qed

theorem shmrbuf_readv_correct_witness:
  "(\<exists>shm'. shmrbuf_readv (Some (chan_reader 0)) True 2 2 0 (demo_region False 3 0)
      = Some (2, [[1, 2], [3, 4]], shm'))
    \<and> shmrbuf_readv (Some (chan_reader 0)) True 2 2 0 (demo_region False 1 3) = None"
proof -
  note h = demo_hypotheses
  have wf: "shm_wf (demo_region False 3 0)" "shm_wf (demo_region False 1 3)" by simp_all
  have p: "[[1, 2], [3, 4], [5, 6]] = pending (global_hdr (demo_region False 3 0))
      (unat (r_reader_id (chan_reader 0))) (segment (demo_region False 3 0) 0)"
    "[[7, 8], [1, 2]] = pending (global_hdr (demo_region False 1 3))
      (unat (r_reader_id (chan_reader 0))) (segment (demo_region False 1 3) 0)"
    "2 = min (length [[1 :: u8, 2], [3, 4], [5, 6]]) (unat (2 :: u16))"
    "2 = min (length [[7 :: u8, 8], [1, 2]]) (unat (2 :: u16))"
    by code_simp+
  note r1 = shmrbuf_readv_correct [OF wf(1) h(1) demo_chan_reader(1) h(2-5) p(1,3)]
  note r2 = shmrbuf_readv_correct [OF wf(2) h(1) demo_chan_reader(1) h(2-5) p(2,4)]
  have "unat (s_read_index (segment (demo_region False 3 0) 0) ! unat (r_reader_id (chan_reader 0)))
      + 2 \<le> unat (g_line_count (global_hdr (demo_region False 3 0)))"
    "unat (g_line_count (global_hdr (demo_region False 1 3)))
      < unat (s_read_index (segment (demo_region False 1 3) 0) ! unat (r_reader_id (chan_reader 0))) + 2"
    by simp_all
  with r1 [THEN conjunct1] r2 [THEN conjunct2] show ?thesis by auto
qed

text \<open>What a vectored write does in general.\<close>

lemma shmrbuf_writev_result:
  assumes wf: "shm_wf shm" and sid: "sid < g_segment_count (global_hdr shm)"
    and a: "w_segment_hdrs a" "sid < w_segment_count a"
    and mode: "\<not> g_overwrite (global_hdr shm)" and rc: "0 < unat (g_reader_count (global_hdr shm))"
    and v: "0 < vsize" and lc: "unat (g_line_count (global_hdr shm)) \<le> 2 ^ 31"
    and k: "k = Min (insert (min (unat (g_line_count (global_hdr shm))) (unat vsize))
      ((\<lambda>r. unat (g_line_count (global_hdr shm)) - 1
          - length (pending (global_hdr shm) r (segment shm sid)))
        ` {..< unat (g_reader_count (global_hdr shm))}))"
    and iovs: "k \<le> length iovs"
      "\<forall>iov\<in>set (take k iovs). iov_ok (g_line_size (global_hdr shm)) iov"
  shows "\<exists>shm'. shmrbuf_writev (Some a) (Some iovs) vsize sid shm = Some (int k, shm')
    \<and> shm_wf shm' \<and> global_hdr shm' = global_hdr shm
    \<and> (\<forall>r < unat (g_reader_count (global_hdr shm)).
        pending (global_hdr shm) r (segment shm' sid) = pending (global_hdr shm) r (segment shm sid)
        @ written_lines (g_line_size (global_hdr shm)) (unat (g_line_count (global_hdr shm))
            - unat (s_write_index (segment shm sid))) k iovs)"
proof -
  let ?g = "global_hdr shm" and ?seg = "segment shm sid"
  note seg = shm_wf_segment [OF wf sid]
  define vs where "vs = limit_vsize (g_line_count ?g) (s_write_index ?seg)
    (take (unat (g_reader_count ?g)) (s_read_index ?seg))
    (if g_line_count ?g < ucast vsize then ucast (g_line_count ?g) else vsize)"
  have vs: "unat vs = k" unfolding vs_def k by (rule unat_writev_count [OF seg(2)])
  have uvs: "uint vs = int k" unfolding vs [symmetric] by simp
  have rc': "g_reader_count ?g \<noteq> 0" and lc0: "g_line_count ?g \<noteq> 0"
    using rc seg(2) by (auto simp: seg_wf_def)
  have guards: "\<not> w_segment_count a \<le> sid" "vsize \<noteq> 0" using a(2) v by auto
  show ?thesis
  proof (cases "k = 0")
    case True
    then have "vs = 0" using vs by (simp add: word_unat_eq_iff)
    then have "shmrbuf_writev (Some a) (Some iovs) vsize sid shm = Some (0, shm)"
      using guards a(1) seg(1) mode rc' by (simp add: shmrbuf_writev_def Let_def vs_def [symmetric])
    then show ?thesis using True wf by (simp add: written_lines_def)
  next
    case False
    have fin: "finite (insert (min (unat (g_line_count ?g)) (unat vsize))
      ((\<lambda>r. unat (g_line_count ?g) - 1 - length (pending ?g r ?seg)) ` {..< unat (g_reader_count ?g)}))"
      by simp
    have kle: "k \<le> unat (g_line_count ?g)" using Min_le [OF fin insertI1] k by linarith
    have room: "length (pending ?g r ?seg) + k < unat (g_line_count ?g)"
      if "r < unat (g_reader_count ?g)" for r
    proof -
      have "k \<le> unat (g_line_count ?g) - 1 - length (pending ?g r ?seg)"
        unfolding k by (rule Min_le [OF fin]) (use that in auto)
      then show ?thesis using pending_less [OF seg(2) that] False by linarith
    qed
    obtain d seg' where d: "copy_lines (g_line_size ?g) (g_line_count ?g) (s_write_index ?seg) iovs vs
        (s_data ?seg) = Some (True, d)" "seg' = ?seg\<lparr>s_data := d,
          s_write_index := (s_write_index ?seg + ucast vs) mod g_line_count ?g\<rparr>"
      and seg': "seg_wf ?g seg'" "\<forall>r < unat (g_reader_count ?g). pending ?g r seg'
        = pending ?g r ?seg @ written_lines (g_line_size ?g)
            (unat (g_line_count ?g) - unat (s_write_index ?seg)) k iovs"
      using segment_writev [OF seg(2) lc, of vs iovs] vs False kle iovs room by auto
    have "vs \<noteq> 0" using vs False by auto
    then have "shmrbuf_writev (Some a) (Some iovs) vsize sid shm
        = Some (int k, put_segment shm sid seg')"
      using guards a(1) seg(1) mode rc' lc0 d uvs
      by (simp add: shmrbuf_writev_def Let_def vs_def [symmetric] put_segment_def)
    then show ?thesis using seg' shm_wf_put_segment [OF wf seg'(1)] seg(1) by simp
  qed
qed

text \<open>A vectored write that ends before or at the end of the line area appends the first \<open>k\<close>
  vector elements, in order, for every reader, where \<open>k\<close> is the smallest of the wanted number and
  the free lines in front of every reader, and it returns \<open>k\<close>.\<close>

theorem shmrbuf_writev_correct:
  assumes "shm_wf shm" and "sid < g_segment_count (global_hdr shm)"
    and "w_segment_hdrs a" "sid < w_segment_count a"
    and "\<not> g_overwrite (global_hdr shm)" and "0 < unat (g_reader_count (global_hdr shm))"
    and "0 < vsize" and "unat (g_line_count (global_hdr shm)) \<le> 2 ^ 31"
    and "k = Min (insert (min (unat (g_line_count (global_hdr shm))) (unat vsize))
      ((\<lambda>r. unat (g_line_count (global_hdr shm)) - 1
          - length (pending (global_hdr shm) r (segment shm sid)))
        ` {..< unat (g_reader_count (global_hdr shm))}))"
    and "k \<le> length iovs" "\<forall>iov\<in>set (take k iovs). iov_ok (g_line_size (global_hdr shm)) iov"
    and "unat (s_write_index (segment shm sid)) + k \<le> unat (g_line_count (global_hdr shm))"
  shows "\<exists>shm'. shmrbuf_writev (Some a) (Some iovs) vsize sid shm = Some (int k, shm')
    \<and> shm_wf shm' \<and> global_hdr shm' = global_hdr shm
    \<and> (\<forall>r < unat (g_reader_count (global_hdr shm)).
        pending (global_hdr shm) r (segment shm' sid) = pending (global_hdr shm) r (segment shm sid)
          @ map (iov_line (g_line_size (global_hdr shm))) (take k iovs))"
proof -
  have "written_lines (g_line_size (global_hdr shm)) (unat (g_line_count (global_hdr shm))
      - unat (s_write_index (segment shm sid))) k iovs
    = map (iov_line (g_line_size (global_hdr shm))) (take k iovs)"
    using assms(12) by (simp add: written_lines_def)
  then show ?thesis using shmrbuf_writev_result [OF assms(1-11)] by simp
qed

definition demo_iovs :: "iovec list" where
  "demo_iovs = [\<lparr>iov_base = [11], iov_len = 1\<rparr>, \<lparr>iov_base = [12, 13], iov_len = 2\<rparr>]"

text \<open>The number of lines a write of two elements stores in the example region.\<close>

lemma demo_count:
  assumes "length (pending (demo_hdr False) 0 (segment (demo_region False wi ri) 0)) \<le> 1"
  shows "2 = Min (insert (min (unat (g_line_count (global_hdr (demo_region False wi ri))))
      (unat (2 :: u16))) ((\<lambda>r. unat (g_line_count (global_hdr (demo_region False wi ri))) - 1
        - length (pending (global_hdr (demo_region False wi ri)) r (segment (demo_region False wi ri) 0)))
      ` {..< unat (g_reader_count (global_hdr (demo_region False wi ri)))}))"
  using assms by (simp add: lessThan_Suc)

theorem shmrbuf_writev_correct_witness:
  "\<exists>shm'. shmrbuf_writev (Some (chan_writer\<lparr>w_segment_count := 1\<rparr>)) (Some demo_iovs) 2 0
        (demo_region False 1 0) = Some (2, shm')
    \<and> pending (demo_hdr False) 0 (segment shm' 0) = [[1, 2], [11, 0], [12, 13]]"
proof -
  note h = demo_hypotheses
  have wf: "shm_wf (demo_region False 1 0)" by simp
  have p: "length (pending (demo_hdr False) 0 (segment (demo_region False 1 0) 0)) \<le> 1"
    "pending (demo_hdr False) 0 (segment (demo_region False 1 0) 0) = [[1, 2]]"
    "map (iov_line 2) (take 2 demo_iovs) = [[11, 0], [12, 13]]" "2 \<le> length demo_iovs"
    "\<forall>iov\<in>set (take 2 demo_iovs). iov_ok (g_line_size (global_hdr (demo_region False 1 0))) iov"
    "unat (s_write_index (segment (demo_region False 1 0) 0)) + 2
      \<le> unat (g_line_count (global_hdr (demo_region False 1 0)))"
    by code_simp+
  from shmrbuf_writev_correct
    [OF wf h(1,6,7) demo_hypotheses(8) h(9,3,5) demo_count [OF p(1)] p(4-6)]
  obtain shm' where "shmrbuf_writev (Some (chan_writer\<lparr>w_segment_count := 1\<rparr>)) (Some demo_iovs) 2 0
        (demo_region False 1 0) = Some (int 2, shm')"
    "pending (demo_hdr False) 0 (segment shm' 0)
      = pending (demo_hdr False) 0 (segment (demo_region False 1 0) 0) @ map (iov_line 2) (take 2 demo_iovs)"
    by auto
  with p(2,3) show ?thesis by simp
qed

text \<open>A vectored write across the end of the line area does not store the vector: after the
  \<open>d\<close> lines up to the end it stores the first elements of the vector again instead of the
  following ones, while the return value counts all \<open>k\<close> elements as written.\<close>

theorem shmrbuf_writev_wrap_repeats:
  assumes "shm_wf shm" and "sid < g_segment_count (global_hdr shm)"
    and "w_segment_hdrs a" "sid < w_segment_count a"
    and "\<not> g_overwrite (global_hdr shm)" and "0 < unat (g_reader_count (global_hdr shm))"
    and "0 < vsize" and "unat (g_line_count (global_hdr shm)) \<le> 2 ^ 31"
    and "k = Min (insert (min (unat (g_line_count (global_hdr shm))) (unat vsize))
      ((\<lambda>r. unat (g_line_count (global_hdr shm)) - 1
          - length (pending (global_hdr shm) r (segment shm sid)))
        ` {..< unat (g_reader_count (global_hdr shm))}))"
    and "k \<le> length iovs" "\<forall>iov\<in>set (take k iovs). iov_ok (g_line_size (global_hdr shm)) iov"
    and d: "d = unat (g_line_count (global_hdr shm)) - unat (s_write_index (segment shm sid))" "d < k"
  shows "\<exists>shm'. shmrbuf_writev (Some a) (Some iovs) vsize sid shm = Some (int k, shm')
    \<and> (\<forall>r < unat (g_reader_count (global_hdr shm)).
        pending (global_hdr shm) r (segment shm' sid) = pending (global_hdr shm) r (segment shm sid)
          @ map (iov_line (g_line_size (global_hdr shm))) (take d iovs @ take (k - d) iovs))"
proof -
  have "min k d = d" using d(2) by simp
  then have "written_lines (g_line_size (global_hdr shm)) d k iovs
    = map (iov_line (g_line_size (global_hdr shm))) (take d iovs @ take (k - d) iovs)"
    by (simp add: written_lines_def)
  then show ?thesis using shmrbuf_writev_result [OF assms(1-11)] d(1) by auto
qed

theorem shmrbuf_writev_wrap_repeats_witness:
  "\<exists>shm'. shmrbuf_writev (Some (chan_writer\<lparr>w_segment_count := 1\<rparr>)) (Some demo_iovs) 2 0
        (demo_region False 3 3) = Some (2, shm')
    \<and> pending (demo_hdr False) 0 (segment shm' 0) = [[11, 0], [11, 0]]"
proof -
  note h = demo_hypotheses
  have wf: "shm_wf (demo_region False 3 3)" by simp
  have p: "length (pending (demo_hdr False) 0 (segment (demo_region False 3 3) 0)) \<le> 1"
    "pending (demo_hdr False) 0 (segment (demo_region False 3 3) 0) = []"
    "map (iov_line 2) (take 1 demo_iovs @ take (2 - 1) demo_iovs) = [[11, 0], [11, 0]]"
    "2 \<le> length demo_iovs"
    "\<forall>iov\<in>set (take 2 demo_iovs). iov_ok (g_line_size (global_hdr (demo_region False 3 3))) iov"
    "1 = unat (g_line_count (global_hdr (demo_region False 3 3)))
      - unat (s_write_index (segment (demo_region False 3 3) 0))" "1 < (2 :: nat)"
    by code_simp+
  from shmrbuf_writev_wrap_repeats
    [OF wf h(1,6,7) demo_hypotheses(8) h(9,3,5) demo_count [OF p(1)] p(4-7)]
  obtain shm' where "shmrbuf_writev (Some (chan_writer\<lparr>w_segment_count := 1\<rparr>)) (Some demo_iovs) 2 0
        (demo_region False 3 3) = Some (int 2, shm')"
    "pending (demo_hdr False) 0 (segment shm' 0)
      = pending (demo_hdr False) 0 (segment (demo_region False 3 3) 0)
        @ map (iov_line 2) (take 1 demo_iovs @ take (2 - 1) demo_iovs)"
    by auto
  with p(2,3) show ?thesis by simp
qed

section \<open>Overwriting\<close>

text \<open>In overwrite mode a write always succeeds. A reader with room gets the line appended; a
  reader that is a full ring behind loses everything it had pending, the new line included.\<close>

theorem shmrbuf_write_overwrite:
  assumes wf: "shm_wf shm" and sid: "sid < g_segment_count (global_hdr shm)"
    and a: "w_segment_hdrs a" and w: "0 < wsize" "wsize \<le> g_line_size (global_hdr shm)"
    and src: "unat wsize \<le> length src" and mode: "g_overwrite (global_hdr shm)"
  shows "\<exists>shm'. shmrbuf_write (Some a) (Some src) wsize sid shm
      = Some (uint (g_line_size (global_hdr shm)), shm') \<and> shm_wf shm'
    \<and> (\<forall>r < unat (g_reader_count (global_hdr shm)).
        pending (global_hdr shm) r (segment shm' sid) =
          (if length (pending (global_hdr shm) r (segment shm sid))
              = unat (g_line_count (global_hdr shm)) - 1 then []
           else pending (global_hdr shm) r (segment shm sid)
             @ [pad_line (g_line_size (global_hdr shm)) wsize src]))"
proof -
  let ?g = "global_hdr shm" and ?seg = "segment shm sid"
  note seg = shm_wf_segment [OF wf sid]
  let ?wi' = "next_index (g_line_count ?g) (s_write_index ?seg)"
  from segment_write [OF seg(2) w(2) src] obtain d where
    d: "mem_write (s_data ?seg) (line_offset (s_write_index ?seg) (g_line_size ?g))
        (pad_line (g_line_size ?g) wsize src) = Some d"
    "seg_wf ?g (?seg\<lparr>s_data := d, s_write_index := ?wi'\<rparr>)"
    "\<forall>r < unat (g_reader_count ?g). length (pending ?g r ?seg) + 1 < unat (g_line_count ?g) \<longrightarrow>
      pending ?g r (?seg\<lparr>s_data := d, s_write_index := ?wi'\<rparr>)
      = pending ?g r ?seg @ [pad_line (g_line_size ?g) wsize src]" by blast
  have guards: "\<not> g_segment_count ?g \<le> sid" "\<not> g_line_size ?g < wsize" "wsize \<noteq> 0"
    "\<not> length src < unat wsize" using sid w src by auto
  have "shmrbuf_write (Some a) (Some src) wsize sid shm = Some (uint (g_line_size ?g),
      put_segment shm sid (?seg\<lparr>s_data := d, s_write_index := ?wi'\<rparr>))"
    using guards a seg(1) mode d(1) by (simp add: shmrbuf_write_def Let_def put_segment_def)
  moreover have "pending ?g r (?seg\<lparr>s_data := d, s_write_index := ?wi'\<rparr>)
    = (if length (pending ?g r ?seg) = unat (g_line_count ?g) - 1 then []
       else pending ?g r ?seg @ [pad_line (g_line_size ?g) wsize src])"
    if r: "r < unat (g_reader_count ?g)" for r
  proof (cases "length (pending ?g r ?seg) = unat (g_line_count ?g) - 1")
    case True
    then have "?wi' = s_read_index ?seg ! r" using overtake_iff_full [OF seg(2) r] by simp
    then have "pending ?g r (?seg\<lparr>s_data := d, s_write_index := ?wi'\<rparr>) = []"
      by (simp add: pending_def ring_list_def)
    with True show ?thesis by simp
  next
    case False
    then have "length (pending ?g r ?seg) + 1 < unat (g_line_count ?g)"
      using pending_less [OF seg(2) r] by linarith
    with d(3) r False show ?thesis by auto
  qed
  ultimately show ?thesis using seg(1) shm_wf_put_segment [OF wf d(2)] by auto
qed

theorem shmrbuf_write_overwrite_witness:
  "\<exists>shm'. shmrbuf_write (Some chan_writer) (Some [9, 9]) 2 0 (demo_region True 3 0) = Some (2, shm')
    \<and> pending (demo_hdr True) 0 (segment shm' 0) = []"
proof -
  have wf: "shm_wf (demo_region True 3 0)" by simp
  have p: "2 \<le> g_line_size (global_hdr (demo_region True 3 0))" "unat (2 :: u16) \<le> length [9 :: u8, 9]"
    "g_overwrite (global_hdr (demo_region True 3 0))"
    "length (pending (demo_hdr True) 0 (segment (demo_region True 3 0) 0)) = 3"
    by code_simp+
  from shmrbuf_write_overwrite
    [OF wf demo_hypotheses(1) demo_chan_reader(3) demo_hypotheses(3) p(1-3)] p(4)
  show ?thesis by auto
qed

section \<open>Scanning a range of segments\<close>

text \<open>The segments a scan asks, in order.\<close>

fun scan_ids :: "nat \<Rightarrow> (u8 \<Rightarrow> u8) \<Rightarrow> u8 \<Rightarrow> u8 list" where
  "scan_ids 0 nxt idx = []"
| "scan_ids (Suc n) nxt idx = nxt idx # scan_ids n nxt (nxt idx + 1)"

lemma scan_ids_cycle:
  assumes "\<forall>i < length xs. nxt (xs ! i + 1) = xs ! ((i + 1) mod length xs)"
    and "i < length xs" and "nxt idx = xs ! i"
  shows "scan_ids n nxt idx = map (\<lambda>j. xs ! ((i + j) mod length xs)) [0 ..< n]"
  using assms(2,3)
proof (induction n arbitrary: i idx)
  case 0
  then show ?case by simp
next
  case (Suc n)
  have "(i + 1) mod length xs < length xs" using Suc.prems(1) by (intro mod_less_divisor) linarith
  moreover have "nxt (nxt idx + 1) = xs ! ((i + 1) mod length xs)"
    using assms(1) Suc.prems by simp
  ultimately have "scan_ids n nxt (nxt idx + 1)
    = map (\<lambda>j. xs ! (((i + 1) mod length xs + j) mod length xs)) [0 ..< n]"
    by (rule Suc.IH)
  also have "\<dots> = map (\<lambda>j. xs ! ((i + Suc j) mod length xs)) [0 ..< n]"
    by (simp add: mod_simps)
  finally show ?case using Suc.prems by (simp add: upt_conv_Cons map_Suc_upt [symmetric] del: upt_Suc)
qed

lemma scan_ids_all:
  assumes "\<forall>i < length xs. nxt (xs ! i + 1) = xs ! ((i + 1) mod length xs)"
    and "xs \<noteq> [] \<Longrightarrow> nxt idx \<in> set xs"
  shows "set (scan_ids (length xs) nxt idx) = set xs"
proof (cases "xs = []")
  case True
  then show ?thesis by simp
next
  case False
  then obtain i where i: "i < length xs" "nxt idx = xs ! i"
    using assms(2) by (auto simp: in_set_conv_nth)
  have "scan_ids (length xs) nxt idx = rotate i xs"
    using scan_ids_cycle [OF assms(1) i]
    by (intro nth_equalityI) (simp_all add: nth_rotate)
  then show ?thesis by simp
qed

text \<open>The own range \<open>[lower, upper)\<close> and the rest, as cycles of the two cursor rules.\<close>

definition own_ids :: "nat \<Rightarrow> nat \<Rightarrow> u8 list" where
  "own_ids l u = map word_of_nat [l ..< u]"

definition other_ids :: "nat \<Rightarrow> nat \<Rightarrow> nat \<Rightarrow> u8 list" where
  "other_ids l u c = map word_of_nat ([0 ..< l] @ [u ..< c])"

lemma rng_index_cycle:
  assumes "l \<le> u" and "u < 256"
  shows "\<forall>i < length (own_ids l u). rng_index (word_of_nat l) (word_of_nat u) (own_ids l u ! i + 1)
    = own_ids l u ! ((i + 1) mod length (own_ids l u))"
proof (intro allI impI)
  fix i assume "i < length (own_ids l u)"
  then have i: "i < u - l" by (simp add: own_ids_def)
  have s: "own_ids l u ! i + 1 = word_of_nat (l + i + 1)"
    using i by (simp add: own_ids_def add.commute)
  show "rng_index (word_of_nat l) (word_of_nat u) (own_ids l u ! i + 1)
    = own_ids l u ! ((i + 1) mod length (own_ids l u))"
  proof (cases "i + 1 = u - l")
    case True
    then have "l + i + 1 = u" by linarith
    then show ?thesis unfolding s using True i by (simp add: rng_index_def own_ids_def)
  next
    case False
    then have lt: "i + 1 < u - l" using i by linarith
    then have "l + i + 1 < u" by linarith
    with assms have "rng_index (word_of_nat l) (word_of_nat u) (word_of_nat (l + i + 1))
      = word_of_nat (l + i + 1)"
      unfolding rng_index_def by (simp only: of_nat_u8_eq_iff of_nat_u8_less_iff) simp
    moreover have "(i + 1) mod length (own_ids l u) = i + 1" using lt by (simp add: own_ids_def)
    ultimately show ?thesis unfolding s using lt by (simp add: own_ids_def add.assoc)
  qed
qed

lemma steal_rng_index_of_nat:
  assumes "l \<le> u" and "u \<le> c" and "c < 256" and "i \<le> c"
  shows "steal_rng_index (word_of_nat l) (word_of_nat u) (word_of_nat c) (word_of_nat i)
    = word_of_nat (if i = l then (if u = c then 0 else u)
        else if i = c then (if l = 0 then u else 0) else i)"
proof -
  have "word_of_nat i = (word_of_nat l :: u8) \<longleftrightarrow> i = l" "word_of_nat u = (word_of_nat c :: u8) \<longleftrightarrow> u = c"
    "word_of_nat i = (word_of_nat c :: u8) \<longleftrightarrow> i = c"
    using assms by (intro of_nat_u8_eq_iff; linarith)+
  moreover have "word_of_nat l = (0 :: u8) \<longleftrightarrow> l = 0"
    using of_nat_u8_eq_iff [of l 0] assms by simp
  ultimately show ?thesis by (simp add: steal_rng_index_def)
qed

lemma steal_rng_index_cycle:
  assumes "l \<le> u" and "u \<le> c" and "c < 256"
  shows "\<forall>i < length (other_ids l u c).
    steal_rng_index (word_of_nat l) (word_of_nat u) (word_of_nat c) (other_ids l u c ! i + 1)
    = other_ids l u c ! ((i + 1) mod length (other_ids l u c))"
proof (intro allI impI)
  let ?xs = "[0 ..< l] @ [u ..< c]"
  fix i assume "i < length (other_ids l u c)"
  then have i: "i < l + (c - u)" by (simp add: other_ids_def)
  have nth: "?xs ! k = (if k < l then k else u + (k - l))" if "k < l + (c - u)" for k
    using that by (auto simp: nth_append)
  have lt: "?xs ! i + 1 \<le> c" using i nth [OF i] assms by auto
  have "(if ?xs ! i + 1 = l then (if u = c then 0 else u)
        else if ?xs ! i + 1 = c then (if l = 0 then u else 0) else ?xs ! i + 1)
      = ?xs ! ((i + 1) mod (l + (c - u)))"
  proof (cases "i + 1 = l + (c - u)")
    case True
    then have "?xs ! ((i + 1) mod (l + (c - u))) = (if l = 0 then u else 0)"
      using nth [of 0] i by simp
    then show ?thesis using True nth [OF i] assms by (cases "i < l") auto
  next
    case False
    then have j: "i + 1 < l + (c - u)" using i by linarith
    then have "?xs ! ((i + 1) mod (l + (c - u))) = (if i + 1 < l then i + 1 else u + (i + 1 - l))"
      using nth [OF j] by simp
    then show ?thesis using j nth [OF i] assms by (cases "i < l") auto
  qed
  moreover have "other_ids l u c ! i + 1 = word_of_nat (?xs ! i + 1)"
    using i by (simp add: other_ids_def add.commute del: map_append)
  moreover have "(i + 1) mod (l + (c - u)) < l + (c - u)"
    using i by (intro mod_less_divisor) linarith
  then have "other_ids l u c ! ((i + 1) mod length (other_ids l u c))
    = word_of_nat (?xs ! ((i + 1) mod (l + (c - u))))"
    by (simp add: other_ids_def del: map_append)
  ultimately show "steal_rng_index (word_of_nat l) (word_of_nat u) (word_of_nat c)
      (other_ids l u c ! i + 1) = other_ids l u c ! ((i + 1) mod length (other_ids l u c))"
    using steal_rng_index_of_nat [OF assms lt] by (simp only:)
qed

text \<open>A scan stops at the first segment with a pending line.\<close>

lemma read_scan_result:
  assumes wf: "shm_wf shm" and a: "r_segment_hdrs a"
    and r: "r_reader_id a < g_reader_count (global_hdr shm)" and buf: "0 < bufsize"
    and ids: "\<forall>s\<in>set (scan_ids n nxt idx). s < g_segment_count (global_hdr shm)"
  shows "\<exists>k bs idx' shm'. read_scan n nxt (Some a) bufsize idx shm = Some (k, bs, idx', shm')
    \<and> shm_wf shm' \<and> 0 \<le> k
    \<and> ((\<forall>s\<in>set (scan_ids n nxt idx).
          pending (global_hdr shm) (unat (r_reader_id a)) (segment shm s) = [])
        \<and> k = 0 \<and> bs = [] \<and> shm' = shm
      \<or> 0 < k \<and> (\<exists>s\<in>set (scan_ids n nxt idx). \<exists>l ls.
         pending (global_hdr shm) (unat (r_reader_id a)) (segment shm s) = l # ls
         \<and> bs = take (unat bufsize) l
         \<and> pending (global_hdr shm) (unat (r_reader_id a)) (segment shm' s) = ls))"
  using ids
proof (induction n arbitrary: idx)
  case 0
  then show ?case using wf by simp
next
  case (Suc n)
  let ?s = "nxt idx" and ?g = "global_hdr shm" and ?r = "unat (r_reader_id a)"
  have s: "?s < g_segment_count ?g" using Suc.prems by simp
  note seg = shm_wf_segment [OF wf s]
  note res = shmrbuf_read_result [OF wf s a r buf]
  show ?case
  proof (cases "pending ?g ?r (segment shm ?s)")
    case Nil
    then show ?thesis using res Suc.IH [of "?s + 1"] Suc.prems by fastforce
  next
    case (Cons l ls)
    have "0 < uint (min bufsize (g_line_size ?g))"
      using buf seg(2) by (simp only: uint_pos_iff_unat) (simp add: min_def seg_wf_def word_pos_iff_unat)
    with Cons res show ?thesis using seg(1) shm_wf_put_segment [OF wf] by fastforce
  qed
qed

lemma mem_own_ids: "u < 256 \<Longrightarrow> s \<in> set (own_ids l u) \<longleftrightarrow> l \<le> unat s \<and> unat s < u"
  by (auto simp: own_ids_def image_iff unat_of_nat intro!: bexI [of _ "unat s"])

lemma mem_other_ids: "l \<le> u \<Longrightarrow> u \<le> c \<Longrightarrow> c < 256 \<Longrightarrow>
    s \<in> set (other_ids l u c) \<longleftrightarrow> unat s < c \<and> \<not> (l \<le> unat s \<and> unat s < u)"
  by (auto simp: other_ids_def image_iff unat_of_nat intro!: bexI [of _ "unat s"])

lemma set_own_ids: "set (own_ids (unat lower) (unat upper)) = {s. lower \<le> s \<and> s < upper}"
  using unat_u8_less [of upper] by (auto simp: mem_own_ids word_le_nat_alt word_less_nat_alt)

lemma set_other_ids:
  assumes "lower \<le> upper" and "upper \<le> count"
  shows "set (other_ids (unat lower) (unat upper) (unat count))
    = {s. s < count \<and> \<not> (lower \<le> s \<and> s < upper)}"
  using assms unat_u8_less [of count]
  by (auto simp: mem_other_ids word_le_nat_alt word_less_nat_alt)

lemma scan_own:
  assumes "lower \<le> upper" and "idx \<le> upper"
  shows "set (scan_ids (unat (upper - lower)) (rng_index lower upper) idx)
    = {s. lower \<le> s \<and> s < upper}"
proof -
  let ?xs = "own_ids (unat lower) (unat upper)"
  have le: "unat lower \<le> unat upper" using assms(1) by (simp add: word_le_nat_alt)
  have len: "unat (upper - lower) = length ?xs"
    using unat_sub [OF assms(1)] by (simp add: own_ids_def)
  have "rng_index lower upper idx \<in> set ?xs" if "?xs \<noteq> []"
  proof -
    have "lower < upper" using that by (simp add: own_ids_def word_less_nat_alt)
    then show ?thesis unfolding set_own_ids using assms(2) by (auto simp: rng_index_def)
  qed
  then show ?thesis
    unfolding len set_own_ids [symmetric]
    by (intro scan_ids_all rng_index_cycle [OF le unat_u8_less, unfolded word_of_nat_unat])
qed

lemma scan_other:
  assumes "lower \<le> upper" and "upper \<le> count" and "idx \<le> lower \<or> upper \<le> idx" and "idx \<le> count"
  shows "set (scan_ids (unat (count - (upper - lower))) (steal_rng_index lower upper count) idx)
    = {s. s < count \<and> \<not> (lower \<le> s \<and> s < upper)}"
proof -
  let ?xs = "other_ids (unat lower) (unat upper) (unat count)"
  have le: "unat lower \<le> unat upper" "unat upper \<le> unat count"
    using assms(1,2) by (simp_all add: word_le_nat_alt)
  have ul: "unat (upper - lower) = unat upper - unat lower" by (rule unat_sub [OF assms(1)])
  then have "upper - lower \<le> count" using le by (simp add: word_le_nat_alt)
  from unat_sub [OF this] have len: "unat (count - (upper - lower)) = length ?xs"
    using le by (simp add: other_ids_def ul)
  have "steal_rng_index lower upper count idx \<in> set ?xs" if "?xs \<noteq> []"
  proof -
    have "0 < lower \<or> upper < count" using that by (auto simp: other_ids_def word_less_nat_alt)
    then show ?thesis
      unfolding set_other_ids [OF assms(1,2)] using assms
      by (auto simp: steal_rng_index_def dest: le_less_trans [OF word_zero_le])
  qed
  then show ?thesis
    unfolding len set_other_ids [OF assms(1,2), symmetric]
    by (intro scan_ids_all steal_rng_index_cycle [OF le unat_u8_less, unfolded word_of_nat_unat])
qed



end
