(* ===== verification/Shm_Setup.thy ===== *)
theory Shm_Setup
  imports Shm_Ringbuf
begin

text \<open>
  Model of the life cycle part of \<open>src/lib/shm_ringbuf.c\<close>: \<open>shm_cleanup\<close>,
  \<open>get_hdr_checksum\<close>, \<open>shmrbuf_init\<close> for both roles and \<open>shmrbuf_finalize\<close>. The System V
  object behind the key is part of the state (whether it exists, its contents, the number of
  attachments); which system calls fail is given by an environment record. The union
  \<open>shmrbuf_arg_t\<close> with the role argument becomes one function per role.
\<close>

section \<open>Flags, environment and state\<close>

definition SHMRBUF_REATT :: u32 where "SHMRBUF_REATT = 0x01"
definition SHMRBUF_FRCAT :: u32 where "SHMRBUF_FRCAT = 0x02"
definition SHMRBUF_OVWR :: u32 where "SHMRBUF_OVWR = 0x04"
definition SHMRBUF_NOREG :: u32 where "SHMRBUF_NOREG = 0x08"
definition SHMRBUF_RESET :: u32 where "SHMRBUF_RESET = 0x016"

lemmas shmrbuf_flags =
  SHMRBUF_REATT_def SHMRBUF_FRCAT_def SHMRBUF_OVWR_def SHMRBUF_NOREG_def SHMRBUF_RESET_def

definition flag :: "u32 \<Rightarrow> u32 \<Rightarrow> bool" where
  "flag flags f = (flags AND f \<noteq> 0)"

text \<open>Results of the system and library calls: \<open>ftok\<close> by path, the value of \<open>errno\<close> after a
  failure, and for every other call whether it can succeed.\<close>

record shm_env =
  e_ftok :: "string \<Rightarrow> int"
  e_errno :: int
  e_shmget :: bool
  e_shmget_huge :: bool
  e_shmget_create :: bool
  e_shmat :: bool
  e_calloc :: bool
  e_shmdt :: bool
  e_stat :: bool
  e_rmid :: bool
  e_shm_id :: int

record shm_os =
  os_region :: "shm_region option"
  os_nattch :: nat

definition writer_zero :: shmrbuf_writer_arg_t where
  "writer_zero = \<lparr>w_shm_key = None, w_line_size = 0, w_line_count = 0, w_segment_count = 0,
     w_reader_count = 0, w_global_hdr = False, w_segment_hdrs = False, w_flags = 0, w_shm_id = 0\<rparr>"

definition reader_zero :: shmrbuf_reader_arg_t where
  "reader_zero = \<lparr>r_shm_key = None, r_shm_id = 0, r_flags = 0, r_reader_id = 0,
     r_global_hdr = False, r_segment_hdrs = False\<rparr>"

section \<open>Clean-up and checksum\<close>

text \<open>\<open>shmdt\<close> fails on a pointer that was never set. The last detachment removes the object.\<close>

definition shm_cleanup :: "shm_env \<Rightarrow> bool \<Rightarrow> bool \<Rightarrow> shm_os \<Rightarrow> int \<times> shm_os" where
  "shm_cleanup env hdr_set detach os =
     (if \<not> detach then (IO_IPC_SUCCESS, os)
      else if \<not> hdr_set \<or> \<not> e_shmdt env then (e_errno env, os)
      else let os1 = os\<lparr>os_nattch := os_nattch os - 1\<rparr> in
        if \<not> e_stat env then (e_errno env, os1)
        else if os_nattch os1 = 0 then
          (if e_rmid env then (IO_IPC_SUCCESS, os1\<lparr>os_region := None\<rparr>) else (e_errno env, os1))
        else (IO_IPC_SUCCESS, os1))"

definition get_hdr_checksum :: "shmrbuf_global_hdr_t \<Rightarrow> int \<Rightarrow> u32" where
  "get_hdr_checksum g key =
     (word_of_int key + g_line_count g + ucast (g_line_size g) + of_bool (g_overwrite g)
        + ucast (g_reader_count g) + ucast (g_segment_count g)) mod 0xFFFFFFFF"

section \<open>Sizes\<close>

text \<open>\<open>sizeof(struct shmrbuf_global_hdr_t)\<close> is 16 and \<open>sizeof(atomic_uint_fast32_t)\<close> is 8; the
  product of line count and line size is a \<open>uint32_t\<close>.\<close>

definition data_size :: "u32 \<Rightarrow> u16 \<Rightarrow> nat" where
  "data_size line_count line_size = unat (line_count * ucast line_size)"

definition shm_size :: "shmrbuf_writer_arg_t \<Rightarrow> int" where
  "shm_size a = 16 + (uint (w_reader_count a) - 1)
     + uint (w_segment_count a) * (int (data_size (w_line_count a) (w_line_size a))
         + (uint (w_reader_count a) + 1) * 8)"

definition segment_size :: "shmrbuf_global_hdr_t \<Rightarrow> int" where
  "segment_size g = 8 * (uint (g_reader_count g) + 1) + int (data_size (g_line_count g) (g_line_size g))"

definition segment_offset :: "shmrbuf_global_hdr_t \<Rightarrow> nat \<Rightarrow> int" where
  "segment_offset g i = 16 + (uint (g_reader_count g) - 1) + int i * segment_size g"

definition blank_hdr :: shmrbuf_global_hdr_t where
  "blank_hdr = \<lparr>g_checksum = 0, g_segment_count = 0, g_reader_count = 0, g_line_size = 0,
     g_line_count = 0, g_overwrite = False, g_writer_att = False, g_reader_att = []\<rparr>"

definition blank_region :: shm_region where
  "blank_region = \<lparr>global_hdr = blank_hdr, segments = []\<rparr>"

definition format_hdr :: "shmrbuf_writer_arg_t \<Rightarrow> bool \<Rightarrow> int \<Rightarrow> shmrbuf_global_hdr_t" where
  "format_hdr a overwrite key =
     (let g = \<lparr>g_checksum = 0, g_segment_count = w_segment_count a, g_reader_count = w_reader_count a,
          g_line_size = w_line_size a, g_line_count = w_line_count a, g_overwrite = overwrite,
          g_writer_att = True, g_reader_att = replicate (unat (w_reader_count a)) False\<rparr>
      in g\<lparr>g_checksum := get_hdr_checksum g key\<rparr>)"

definition format_region :: "shmrbuf_writer_arg_t \<Rightarrow> bool \<Rightarrow> int \<Rightarrow> shm_region" where
  "format_region a overwrite key =
     \<lparr>global_hdr = format_hdr a overwrite key,
      segments = replicate (unat (w_segment_count a))
        \<lparr>s_write_index = 0, s_read_index = replicate (unat (w_reader_count a)) 0,
         s_data = replicate (data_size (w_line_count a) (w_line_size a)) 0\<rparr>\<rparr>"

section \<open>Initialisation\<close>

text \<open>Creation of the object: huge pages first when it is larger than a page; \<open>IPC_EXCL\<close> makes
  both attempts fail when the object exists.\<close>

definition PAGESIZE :: int where "PAGESIZE = 4096"

definition shm_create :: "shm_env \<Rightarrow> int \<Rightarrow> shm_os \<Rightarrow> bool" where
  "shm_create env sz os \<longleftrightarrow> os_region os = None
     \<and> (PAGESIZE < sz \<and> e_shmget_huge env \<or> e_shmget_create env)"

definition writer_attach :: "shm_env \<Rightarrow> shmrbuf_writer_arg_t \<Rightarrow> int \<Rightarrow> bool \<Rightarrow> shm_os \<Rightarrow>
    int \<times> shmrbuf_writer_arg_t \<times> shm_os" where
  "writer_attach env a key exists os =
     (if \<not> e_shmat env then (e_errno env, writer_zero, os)
      else let os1 = os\<lparr>os_nattch := os_nattch os + 1\<rparr>;
               shm = (case os_region os of Some s \<Rightarrow> s | None \<Rightarrow> blank_region);
               g = global_hdr shm
        in
        if exists \<and> (g_checksum g \<noteq> get_hdr_checksum g key
             \<or> g_writer_att g \<and> \<not> flag (w_flags a) SHMRBUF_FRCAT)
        then (IO_IPC_ARG_ERR, writer_zero, snd (shm_cleanup env (w_global_hdr a) True os1))
        else let shm' = (if exists then shm\<lparr>global_hdr := g\<lparr>g_writer_att := True\<rparr>\<rparr>
                         else format_region a (flag (w_flags a) SHMRBUF_OVWR) key);
                 os2 = os1\<lparr>os_region := Some shm'\<rparr>
          in
          if \<not> e_calloc env
          then (IO_IPC_MEM_ERR, writer_zero, snd (shm_cleanup env True exists os2))
          else (IO_IPC_SUCCESS,
            a\<lparr>w_global_hdr := True, w_shm_id := e_shm_id env, w_segment_hdrs := True\<rparr>, os2))"

definition shmrbuf_init_writer ::
  "shm_env \<Rightarrow> shmrbuf_writer_arg_t \<Rightarrow> shm_os \<Rightarrow> int \<times> shmrbuf_writer_arg_t \<times> shm_os" where
  "shmrbuf_init_writer env a os =
     (let reattach = flag (w_flags a) SHMRBUF_REATT in
      case w_shm_key a of
        None \<Rightarrow> (IO_IPC_ARG_ERR, a, os)
      | Some path \<Rightarrow>
          if \<not> reattach \<and> (w_line_size a = 0 \<or> w_line_count a = 0 \<or> w_segment_count a = 0
               \<or> w_reader_count a = 0)
          then (IO_IPC_ARG_ERR, a, os)
          else let key = e_ftok env path in
          if key = -1 then (e_errno env, a, os)
          else if reattach \<and> e_shmget env \<and> os_region os \<noteq> None then writer_attach env a key True os
          else if shm_create env (shm_size a) os
          then writer_attach env a key False (os\<lparr>os_region := Some blank_region\<rparr>)
          else (e_errno env, a, os))"

text \<open>Registration takes the first reader slot that is free.\<close>

fun first_free :: "bool list \<Rightarrow> nat option" where
  "first_free [] = None"
| "first_free (b # bs) = (if b then map_option Suc (first_free bs) else Some 0)"

definition reset_segment :: "nat \<Rightarrow> shm_segment \<Rightarrow> shm_segment" where
  "reset_segment r seg = seg\<lparr>s_read_index := (s_read_index seg)[r := s_write_index seg]\<rparr>"

definition shmrbuf_init_reader ::
  "shm_env \<Rightarrow> shmrbuf_reader_arg_t \<Rightarrow> shm_os \<Rightarrow> (int \<times> shmrbuf_reader_arg_t \<times> shm_os) option" where
  "shmrbuf_init_reader env a os =
     (case r_shm_key a of
        None \<Rightarrow> Some (IO_IPC_ARG_ERR, a, os)
      | Some path \<Rightarrow>
          let key = e_ftok env path in
          if key = -1 then Some (e_errno env, a, os)
          else if \<not> e_shmget env then Some (e_errno env, a, os)
          else case os_region os of
            None \<Rightarrow> Some (e_errno env, a, os)
          | Some shm \<Rightarrow>
              if \<not> e_shmat env then Some (e_errno env, reader_zero, os)
              else let os1 = os\<lparr>os_nattch := os_nattch os + 1\<rparr>; g = global_hdr shm in
              if g_checksum g \<noteq> get_hdr_checksum g key \<or> g_segment_count g = 0
                 \<or> g_line_count g = 0 \<or> g_line_size g = 0
              then Some (IO_IPC_ARG_ERR, reader_zero,
                     snd (shm_cleanup env (r_global_hdr a) True os1))
              else let a1 = a\<lparr>r_global_hdr := True, r_shm_id := e_shm_id env\<rparr>;
                       noreg = flag (r_flags a) SHMRBUF_NOREG;
                       reg = (if noreg then None
                              else first_free (take (unat (g_reader_count g)) (g_reader_att g)))
                in
                if \<not> noreg \<and> reg = None
                then Some (IO_IPC_SIZE_ERR, reader_zero, snd (shm_cleanup env True True os1))
                else let a2 = (case reg of None \<Rightarrow> a1 | Some i \<Rightarrow> a1\<lparr>r_reader_id := word_of_nat i\<rparr>);
                         g' = (case reg of None \<Rightarrow> g
                               | Some i \<Rightarrow> g\<lparr>g_reader_att := (g_reader_att g)[i := True]\<rparr>);
                         os2 = os1\<lparr>os_region := Some (shm\<lparr>global_hdr := g'\<rparr>)\<rparr>
                  in
                  if \<not> e_calloc env
                  then Some (IO_IPC_MEM_ERR, reader_zero, snd (shm_cleanup env True True os2))
                  else if flag (r_flags a) SHMRBUF_RESET
                  then if g_reader_count g \<le> r_reader_id a2 then None
                    else Some (IO_IPC_SUCCESS, a2\<lparr>r_segment_hdrs := True\<rparr>,
                      os2\<lparr>os_region := Some (shm\<lparr>global_hdr := g',
                        segments := map (reset_segment (unat (r_reader_id a2))) (segments shm)\<rparr>)\<rparr>)
                  else Some (IO_IPC_SUCCESS, a2\<lparr>r_segment_hdrs := True\<rparr>, os2))"

section \<open>Finalisation\<close>

definition shmrbuf_finalize_writer ::
  "shm_env \<Rightarrow> shmrbuf_writer_arg_t option \<Rightarrow> shm_os \<Rightarrow>
   (int \<times> shmrbuf_writer_arg_t option \<times> shm_os) option" where
  "shmrbuf_finalize_writer env args os =
     (case args of
        None \<Rightarrow> Some (IO_IPC_NULLPTR_ERR, None, os)
      | Some a \<Rightarrow>
          if \<not> w_global_hdr a then None
          else (case os_region os of
            None \<Rightarrow> None
          | Some shm \<Rightarrow>
              let (rv, os') = shm_cleanup env True True (os\<lparr>os_region :=
                    Some (shm\<lparr>global_hdr := (global_hdr shm)\<lparr>g_writer_att := False\<rparr>\<rparr>)\<rparr>)
              in Some (rv, Some writer_zero, os')))"

definition shmrbuf_finalize_reader ::
  "shm_env \<Rightarrow> shmrbuf_reader_arg_t option \<Rightarrow> shm_os \<Rightarrow>
   (int \<times> shmrbuf_reader_arg_t option \<times> shm_os) option" where
  "shmrbuf_finalize_reader env args os =
     (case args of
        None \<Rightarrow> Some (IO_IPC_NULLPTR_ERR, None, os)
      | Some a \<Rightarrow>
          if flag (r_flags a) SHMRBUF_NOREG
          then let (rv, os') = shm_cleanup env (r_global_hdr a) True os
               in Some (rv, Some reader_zero, os')
          else if \<not> r_global_hdr a then None
          else (case os_region os of
            None \<Rightarrow> None
          | Some shm \<Rightarrow>
              let g = global_hdr shm in
              if length (g_reader_att g) \<le> unat (r_reader_id a) then None
              else let (rv, os') = shm_cleanup env True True (os\<lparr>os_region :=
                    Some (shm\<lparr>global_hdr :=
                      g\<lparr>g_reader_att := (g_reader_att g)[unat (r_reader_id a) := False]\<rparr>\<rparr>)\<rparr>)
              in Some (rv, Some reader_zero, os')))"

section \<open>Properties\<close>

text \<open>An environment in which every call succeeds, for the examples.\<close>

definition good_env :: shm_env where
  "good_env = \<lparr>e_ftok = (\<lambda>_. 77), e_errno = 12, e_shmget = True, e_shmget_huge = True,
     e_shmget_create = True, e_shmat = True, e_calloc = True, e_shmdt = True, e_stat = True,
     e_rmid = True, e_shm_id = 5\<rparr>"

definition demo_writer :: shmrbuf_writer_arg_t where
  "demo_writer = writer_zero\<lparr>w_shm_key := Some ''/tmp/k'', w_line_size := 2, w_line_count := 4,
     w_segment_count := 2, w_reader_count := 2\<rparr>"

definition demo_reader :: shmrbuf_reader_arg_t where
  "demo_reader = reader_zero\<lparr>r_shm_key := Some ''/tmp/k''\<rparr>"

lemma data_size_eq: "unat lc * unat ls < 2 ^ 32 \<Longrightarrow> data_size lc ls = unat lc * unat ls"
  by (simp add: data_size_def unat_word_ariths)

lemma format_region_wf:
  assumes "0 < unat (w_line_size a)" and "0 < unat (w_line_count a)"
    and "unat (w_line_count a) * unat (w_line_size a) < 2 ^ 32"
  shows "shm_wf (format_region a ow key)"
  using assms by (simp add: wf_simps format_region_def format_hdr_def Let_def data_size_eq)

lemma format_checksum:
  "g_checksum (format_hdr a ow key) = get_hdr_checksum (format_hdr a ow key) key"
  by (simp add: format_hdr_def Let_def get_hdr_checksum_def)

lemma init_writer_result:
  assumes key: "w_shm_key a = Some path" "e_ftok env path \<noteq> -1"
    and args: "w_line_size a \<noteq> 0" "w_line_count a \<noteq> 0" "w_segment_count a \<noteq> 0" "w_reader_count a \<noteq> 0"
    and env: "e_shmget_create env" "e_shmat env" "e_calloc env" and os: "os_region os = None"
  shows "shmrbuf_init_writer env a os = (IO_IPC_SUCCESS,
      a\<lparr>w_global_hdr := True, w_shm_id := e_shm_id env, w_segment_hdrs := True\<rparr>,
      \<lparr>os_region = Some (format_region a (flag (w_flags a) SHMRBUF_OVWR) (e_ftok env path)), os_nattch = os_nattch os + 1\<rparr>)"
  using assms by (simp add: shmrbuf_init_writer_def Let_def shm_create_def writer_attach_def)

text \<open>A writer that creates the object: with valid arguments and calls that succeed the
  initialisation succeeds, the region is well-formed with a matching checksum, no reader has a
  line pending in any segment, no reader slot is taken, and the segments exactly fill the
  allocated size.\<close>

theorem shmrbuf_init_writer_creates:
  assumes key: "w_shm_key a = Some path" "e_ftok env path \<noteq> -1"
    and args: "w_line_size a \<noteq> 0" "w_line_count a \<noteq> 0" "w_segment_count a \<noteq> 0" "w_reader_count a \<noteq> 0"
    and small: "unat (w_line_count a) * unat (w_line_size a) < 2 ^ 32"
    and env: "e_shmget_create env" "e_shmat env" "e_calloc env" and os: "os_region os = None"
  shows "\<exists>a' shm. shmrbuf_init_writer env a os
      = (IO_IPC_SUCCESS, a', \<lparr>os_region = Some shm, os_nattch = os_nattch os + 1\<rparr>)
    \<and> w_global_hdr a' \<and> w_segment_hdrs a' \<and> shm_wf shm
    \<and> g_checksum (global_hdr shm) = get_hdr_checksum (global_hdr shm) (e_ftok env path)
    \<and> g_reader_att (global_hdr shm) = replicate (unat (w_reader_count a)) False
    \<and> (\<forall>sid < unat (w_segment_count a). \<forall>r < unat (w_reader_count a).
        pending (global_hdr shm) r (segments shm ! sid) = [])
    \<and> segment_offset (global_hdr shm) (unat (w_segment_count a)) = shm_size a"
proof -
  let ?shm = "format_region a (flag (w_flags a) SHMRBUF_OVWR) (e_ftok env path)"
  have pos: "0 < unat (w_line_size a)" "0 < unat (w_line_count a)"
    using args(1,2) by (simp_all add: word_unat_eq_iff)
  have "shmrbuf_init_writer env a os = (IO_IPC_SUCCESS,
      a\<lparr>w_global_hdr := True, w_shm_id := e_shm_id env, w_segment_hdrs := True\<rparr>,
      \<lparr>os_region = Some ?shm, os_nattch = os_nattch os + 1\<rparr>)"
    by (rule init_writer_result [OF key args env os])
  moreover have "shm_wf ?shm" by (rule format_region_wf [OF pos small])
  moreover have "g_checksum (global_hdr ?shm) = get_hdr_checksum (global_hdr ?shm) (e_ftok env path)"
    by (simp add: format_region_def format_checksum)
  moreover have "pending (global_hdr ?shm) r (segments ?shm ! sid) = []"
    if "sid < unat (w_segment_count a)" "r < unat (w_reader_count a)" for sid r
    using that by (simp add: pending_def format_region_def ring_list_def)
  moreover have "segment_offset (global_hdr ?shm) (unat (w_segment_count a)) = shm_size a"
    by (simp add: segment_offset_def segment_size_def shm_size_def format_region_def format_hdr_def
        Let_def algebra_simps)
  ultimately show ?thesis by (simp add: format_region_def format_hdr_def Let_def)
qed

theorem shmrbuf_init_writer_creates_witness:
  "\<exists>a' shm. shmrbuf_init_writer good_env demo_writer \<lparr>os_region = None, os_nattch = 0\<rparr>
      = (0, a', \<lparr>os_region = Some shm, os_nattch = 1\<rparr>)
    \<and> shm_wf shm \<and> segment_offset (global_hdr shm) 2 = 81"
proof -
  let ?os = "\<lparr>os_region = None, os_nattch = 0\<rparr> :: shm_os"
  have h: "w_shm_key demo_writer = Some ''/tmp/k''" "e_ftok good_env ''/tmp/k'' \<noteq> -1"
    "w_line_size demo_writer \<noteq> 0" "w_line_count demo_writer \<noteq> 0" "w_segment_count demo_writer \<noteq> 0"
    "w_reader_count demo_writer \<noteq> 0"
    "unat (w_line_count demo_writer) * unat (w_line_size demo_writer) < 2 ^ 32"
    "e_shmget_create good_env" "e_shmat good_env" "e_calloc good_env" "os_region ?os = None"
    by (simp_all add: demo_writer_def good_env_def)
  have "shm_size demo_writer = 81" "unat (w_segment_count demo_writer) = 2" "os_nattch ?os + 1 = 1"
    by (simp_all add: shm_size_def demo_writer_def data_size_def)
  with shmrbuf_init_writer_creates [OF h] show ?thesis by (auto simp: io_ipc_codes)
qed

lemma first_free_None_iff: "first_free bs = None \<longleftrightarrow> (\<forall>b\<in>set bs. b)"
  by (induction bs) auto

lemma first_free_SomeD:
  "first_free bs = Some i \<Longrightarrow> i < length bs \<and> \<not> bs ! i \<and> (\<forall>j < i. bs ! j)"
proof (induction bs arbitrary: i)
  case Nil
  then show ?case by simp
next
  case (Cons b bs)
  then show ?case by (cases i) (auto split: if_splits simp: nth_Cons')
qed

definition hdr_valid :: "shmrbuf_global_hdr_t \<Rightarrow> int \<Rightarrow> bool" where
  "hdr_valid g key \<longleftrightarrow> g_checksum g = get_hdr_checksum g key \<and> g_segment_count g \<noteq> 0
     \<and> g_line_count g \<noteq> 0 \<and> g_line_size g \<noteq> 0 \<and> length (g_reader_att g) = unat (g_reader_count g)"

definition shm_env_ok :: "shm_env \<Rightarrow> bool" where
  "shm_env_ok env \<longleftrightarrow> e_shmget env \<and> e_shmat env \<and> e_calloc env \<and> e_shmdt env \<and> e_stat env \<and> e_rmid env"

lemma reader_attach_detach:
  assumes key: "r_shm_key a = Some path" "e_ftok env path \<noteq> -1" and env: "shm_env_ok env"
    and os: "os_region os = Some shm" "0 < os_nattch os"
    and hdr: "hdr_valid (global_hdr shm) (e_ftok env path)"
    and flags: "\<not> flag (r_flags a) SHMRBUF_NOREG" "\<not> flag (r_flags a) SHMRBUF_RESET"
  shows "if \<forall>b\<in>set (g_reader_att (global_hdr shm)). b
    then shmrbuf_init_reader env a os = Some (IO_IPC_SIZE_ERR, reader_zero, os)
    else \<exists>i a' os'. shmrbuf_init_reader env a os = Some (IO_IPC_SUCCESS, a', os')
      \<and> i < unat (g_reader_count (global_hdr shm)) \<and> unat (r_reader_id a') = i
      \<and> \<not> g_reader_att (global_hdr shm) ! i \<and> (\<forall>j < i. g_reader_att (global_hdr shm) ! j)
      \<and> os_region os' = Some (shm\<lparr>global_hdr := (global_hdr shm)
          \<lparr>g_reader_att := (g_reader_att (global_hdr shm))[i := True]\<rparr>\<rparr>)
      \<and> shmrbuf_finalize_reader env (Some a') os' = Some (IO_IPC_SUCCESS, Some reader_zero, os)"
proof -
  let ?att = "g_reader_att (global_hdr shm)"
  have len: "length ?att = unat (g_reader_count (global_hdr shm))" using hdr by (simp add: hdr_valid_def)
  note defs = shmrbuf_init_reader_def shm_cleanup_def Let_def
  note guards = key env [unfolded shm_env_ok_def] os hdr [unfolded hdr_valid_def] flags
  show ?thesis
  proof (cases "first_free ?att")
    case None
    have "shmrbuf_init_reader env a os = Some (IO_IPC_SIZE_ERR, reader_zero, os)"
      using guards None by (simp add: defs)
    with None show ?thesis by (auto simp: first_free_None_iff)
  next
    case (Some i)
    from first_free_SomeD [OF Some] have i: "i < length ?att" "\<not> ?att ! i" "\<forall>j < i. ?att ! j" by auto
    have ui: "unat (word_of_nat i :: u8) = i" using i(1) unfolding len by (rule unat_reader_id)
    let ?a = "a\<lparr>r_global_hdr := True, r_shm_id := e_shm_id env, r_reader_id := word_of_nat i,
      r_segment_hdrs := True\<rparr>"
    let ?os = "os\<lparr>os_nattch := os_nattch os + 1, os_region := Some (shm\<lparr>global_hdr := (global_hdr shm)
          \<lparr>g_reader_att := ?att[i := True]\<rparr>\<rparr>)\<rparr>"
    have init: "shmrbuf_init_reader env a os = Some (IO_IPC_SUCCESS, ?a, ?os)"
      using guards Some by (simp add: defs)
    have same: "?att[i := False] = ?att" using i by (metis list_update_id)
    have "shmrbuf_finalize_reader env (Some ?a) ?os = Some (IO_IPC_SUCCESS, Some reader_zero, os)"
      using guards i(1) ui same by (simp add: shmrbuf_finalize_reader_def shm_cleanup_def Let_def)
    moreover have "\<not> (\<forall>b\<in>set ?att. b)" using Some by (metis first_free_None_iff option.simps(3))
    ultimately show ?thesis
      using init i ui len by (intro if_split [THEN iffD2]) (auto intro!: exI [of _ ?a] exI [of _ ?os])
  qed
qed

text \<open>Registration of readers. A reader that attaches to a valid object gets the first free
  reader slot, which is marked taken, and detaching it gives back exactly the state before: the
  slot is free, the contents and the attachment count are as they were. When every slot is taken
  the call fails with a size error and leaves the object and the attachment count alone.\<close>

theorem shmrbuf_reader_attach_detach:
  assumes key: "r_shm_key a = Some path" "e_ftok env path \<noteq> -1" and env: "shm_env_ok env"
    and os: "os_region os = Some shm" "0 < os_nattch os"
    and hdr: "hdr_valid (global_hdr shm) (e_ftok env path)"
    and flags: "\<not> flag (r_flags a) SHMRBUF_NOREG" "\<not> flag (r_flags a) SHMRBUF_RESET"
  shows "if \<forall>b\<in>set (g_reader_att (global_hdr shm)). b
    then shmrbuf_init_reader env a os = Some (IO_IPC_SIZE_ERR, reader_zero, os)
    else \<exists>i a' os'. shmrbuf_init_reader env a os = Some (IO_IPC_SUCCESS, a', os')
      \<and> i < unat (g_reader_count (global_hdr shm)) \<and> unat (r_reader_id a') = i
      \<and> \<not> g_reader_att (global_hdr shm) ! i \<and> (\<forall>j < i. g_reader_att (global_hdr shm) ! j)
      \<and> os_region os' = Some (shm\<lparr>global_hdr := (global_hdr shm)
          \<lparr>g_reader_att := (g_reader_att (global_hdr shm))[i := True]\<rparr>\<rparr>)
      \<and> shmrbuf_finalize_reader env (Some a') os' = Some (IO_IPC_SUCCESS, Some reader_zero, os)"
  by (rule reader_attach_detach [OF assms])

theorem shmrbuf_reader_attach_detach_witness:
  "let shm = format_region demo_writer False 77; os = \<lparr>os_region = Some shm, os_nattch = 1\<rparr> in
   \<exists>a' os'. shmrbuf_init_reader good_env demo_reader os = Some (0, a', os')
     \<and> shmrbuf_finalize_reader good_env (Some a') os' = Some (0, Some reader_zero, os)"
proof -
  let ?shm = "format_region demo_writer False 77"
  let ?os = "\<lparr>os_region = Some ?shm, os_nattch = 1\<rparr> :: shm_os"
  have ft: "e_ftok good_env ''/tmp/k'' = 77" by (simp add: good_env_def)
  have h: "r_shm_key demo_reader = Some ''/tmp/k''" "e_ftok good_env ''/tmp/k'' \<noteq> -1"
    "shm_env_ok good_env" "os_region ?os = Some ?shm" "0 < os_nattch ?os"
    by (simp_all add: demo_reader_def good_env_def shm_env_ok_def)
  have v: "hdr_valid (global_hdr ?shm) (e_ftok good_env ''/tmp/k'')"
    using format_checksum [of demo_writer False 77] unfolding ft
    by (simp add: hdr_valid_def format_region_def) (simp add: format_hdr_def Let_def demo_writer_def)
  have f: "\<not> flag (r_flags demo_reader) SHMRBUF_NOREG" "\<not> flag (r_flags demo_reader) SHMRBUF_RESET"
    by (simp_all add: flag_def demo_reader_def reader_zero_def)
  have n: "\<not> (\<forall>b\<in>set (g_reader_att (global_hdr ?shm)). b)"
    by (simp add: format_region_def format_hdr_def Let_def demo_writer_def)
  from shmrbuf_reader_attach_detach [OF h v f] n show ?thesis
    by (auto simp only: if_False io_ipc_codes Let_def)
qed

text \<open>A failed initialisation does not release what it attached: when the header of the
  object is not valid, a reader that was not attached before gets an argument error, but the
  clean-up is given the pointer from the arguments, which has not been set yet, so the object stays
  attached to the process.\<close>

theorem shmrbuf_init_reader_leaks_attachment:
  assumes "r_shm_key a = Some path" "e_ftok env path \<noteq> -1" and "shm_env_ok env"
    and "os_region os = Some shm" and "\<not> r_global_hdr a"
    and "g_checksum (global_hdr shm) \<noteq> get_hdr_checksum (global_hdr shm) (e_ftok env path)"
  shows "shmrbuf_init_reader env a os
    = Some (IO_IPC_ARG_ERR, reader_zero, os\<lparr>os_nattch := os_nattch os + 1\<rparr>)"
  using assms by (simp add: shmrbuf_init_reader_def Let_def shm_cleanup_def shm_env_ok_def)

theorem shmrbuf_init_reader_leaks_attachment_witness:
  "shmrbuf_init_reader good_env demo_reader \<lparr>os_region = Some blank_region, os_nattch = 1\<rparr>
    = Some (-1, reader_zero, \<lparr>os_region = Some blank_region, os_nattch = 2\<rparr>)"
proof -
  have h: "r_shm_key demo_reader = Some ''/tmp/k''" "e_ftok good_env ''/tmp/k'' \<noteq> -1" "shm_env_ok good_env"
    "os_region \<lparr>os_region = Some blank_region, os_nattch = 1\<rparr> = Some blank_region"
    "\<not> r_global_hdr demo_reader"
    by (simp_all add: demo_reader_def good_env_def shm_env_ok_def reader_zero_def)
  have "g_checksum (global_hdr blank_region)
    \<noteq> get_hdr_checksum (global_hdr blank_region) (e_ftok good_env ''/tmp/k'')"
    by (simp add: blank_region_def blank_hdr_def get_hdr_checksum_def good_env_def)
  from shmrbuf_init_reader_leaks_attachment [OF h this] show ?thesis by (simp add: io_ipc_codes)
qed

end
