(* ===== verification/Fips_Layout.thy ===== *)
theory Fips_Layout
  imports Prelude
begin

text \<open>
  Data model of \<open>src/lib/fips_buf.c\<close> and \<open>src/lib/include/fips_buf.h\<close>, the zero-copy ring
  buffer with several segments, reader processes and reader threads, and the part of it that lays
  out the shared memory: the offset macros, \<open>calculate_shared_memory_size\<close>, \<open>calc_checksum\<close>,
  \<open>checksum\<close> and \<open>setup_shm\<close>.

  The shared memory is a record: the header, the writer assignment bytes (padded to a multiple of
  eight), the reader assignments of all reader processes in one array, and the segments, each with
  its header, one pointer pair and one list of returned ranges per reader process, and the data
  area as a byte array. Pointers inside the memory are the byte offsets the code stores. Structure
  sizes are those of the x86-64 ABI. \<open>1 << line_count_exp\<close> is an \<open>int\<close> shift; the model is
  meaningful for exponents below 31.
\<close>

section \<open>Constants and structures\<close>

definition LINE_WIDTH_SIZE :: nat where "LINE_WIDTH_SIZE = 2"

definition FIPS_BUF_SUCCESS :: int where "FIPS_BUF_SUCCESS = 0"
definition FIPS_BUF_ERROR_INVALID_SHM_NAME :: int where "FIPS_BUF_ERROR_INVALID_SHM_NAME = 1"
definition FIPS_BUF_ERROR_INVALID_SHM_SIZE :: int where "FIPS_BUF_ERROR_INVALID_SHM_SIZE = 2"
definition FIPS_BUF_ERROR_MUTEX :: int where "FIPS_BUF_ERROR_MUTEX = 6"
definition FIPS_BUF_ERROR_SHM :: int where "FIPS_BUF_ERROR_SHM = 7"
definition FIPS_BUF_ERROR_WRITER_ALREADY_ATTACHED :: int where
  "FIPS_BUF_ERROR_WRITER_ALREADY_ATTACHED = 8"
definition FIPS_BUF_ERROR_CHECKSUM :: int where "FIPS_BUF_ERROR_CHECKSUM = 9"
definition FIPS_BUF_ERROR_UNINITIALIZED :: int where "FIPS_BUF_ERROR_UNINITIALIZED = 10"
definition FIPS_BUF_ERROR_NO_FREE_SEGMENT :: int where "FIPS_BUF_ERROR_NO_FREE_SEGMENT = 11"
definition FIPS_BUF_ERROR_THREADS_STILL_ATTACHED :: int where
  "FIPS_BUF_ERROR_THREADS_STILL_ATTACHED = 12"
definition FIPS_BUF_ERROR_NO_SPACE :: int where "FIPS_BUF_ERROR_NO_SPACE = 13"
definition FIPS_BUF_ERROR_CORRUPTED :: int where "FIPS_BUF_ERROR_CORRUPTED = 14"
definition FIPS_BUF_ERROR_EMPTY :: int where "FIPS_BUF_ERROR_EMPTY = 15"
definition FIPS_BUF_ERROR_NOT_IMPLEMENTED :: int where "FIPS_BUF_ERROR_NOT_IMPLEMENTED = 16"
definition FIPS_BUF_ERROR_CONFIG_FILE :: int where "FIPS_BUF_ERROR_CONFIG_FILE = 17"

lemmas fips_codes =
  FIPS_BUF_SUCCESS_def FIPS_BUF_ERROR_INVALID_SHM_NAME_def FIPS_BUF_ERROR_INVALID_SHM_SIZE_def
  FIPS_BUF_ERROR_MUTEX_def FIPS_BUF_ERROR_SHM_def FIPS_BUF_ERROR_WRITER_ALREADY_ATTACHED_def
  FIPS_BUF_ERROR_CHECKSUM_def FIPS_BUF_ERROR_UNINITIALIZED_def FIPS_BUF_ERROR_NO_FREE_SEGMENT_def
  FIPS_BUF_ERROR_THREADS_STILL_ATTACHED_def FIPS_BUF_ERROR_NO_SPACE_def
  FIPS_BUF_ERROR_CORRUPTED_def FIPS_BUF_ERROR_EMPTY_def FIPS_BUF_ERROR_NOT_IMPLEMENTED_def
  FIPS_BUF_ERROR_CONFIG_FILE_def

definition FIPS_BUF_FLAG_FORCE :: u8 where "FIPS_BUF_FLAG_FORCE = 1"
definition FIPS_BUF_FLAG_RM_FORCE :: u8 where "FIPS_BUF_FLAG_RM_FORCE = 2"
definition FIPS_BUF_FLAG_OVERWRITE :: u8 where "FIPS_BUF_FLAG_OVERWRITE = 1"
definition FIPS_BUF_FLAG_FREE :: u8 where "FIPS_BUF_FLAG_FREE = 0"
definition FIPS_BUF_FLAG_IN_USE :: u8 where "FIPS_BUF_FLAG_IN_USE = 1"
definition FIPS_BUF_FLAG_TRAILING :: u8 where "FIPS_BUF_FLAG_TRAILING = 2"

lemmas fips_flags =
  FIPS_BUF_FLAG_FORCE_def FIPS_BUF_FLAG_RM_FORCE_def FIPS_BUF_FLAG_OVERWRITE_def
  FIPS_BUF_FLAG_FREE_def FIPS_BUF_FLAG_IN_USE_def FIPS_BUF_FLAG_TRAILING_def

datatype fips_buf_role = FIPS_WRITER | FIPS_READER

record fips_buf_range_t =
  rng_start :: u32
  rng_count :: u16
  rng_segment :: u8
  rng_reader :: u8

record fips_buf_sqe_t =
  sqe_range :: fips_buf_range_t
  sqe_next :: nat

record fips_buf_assignment_t =
  start_segment :: u32
  a_count :: u16
  a_flags :: u16

record fips_buf_pointer_t =
  head_offset :: u32
  commit_offset :: u32

record fips_buf_list_t =
  list_capacity :: u64
  list_write_index :: u64
  list_read_index :: u64
  list_first_offset :: nat
  list_sqes :: "fips_buf_sqe_t list"

record fips_buf_reader =
  rd_ptr :: fips_buf_pointer_t
  rd_list :: fips_buf_list_t

record fips_buf_segment_header_t =
  next_offset :: nat
  prev_offset :: nat
  sh_index :: u8
  sh_writer :: fips_buf_pointer_t
  readers_offset :: nat
  data_offset :: nat

record fips_segment =
  seg_header :: fips_buf_segment_header_t
  seg_readers :: "fips_buf_reader list"
  seg_data :: bytes

record fips_buf_header_t =
  h_initialized :: u8
  h_assignment_generation :: u64
  h_checksum :: u64
  h_segment_count :: u8
  h_max_reader_count :: u8
  h_max_reader_thread_count :: u8
  h_reader_count :: u8
  h_writer_count :: u8
  h_line_count_exp :: u8
  h_flags :: u8
  h_line_size :: u32
  h_max_sqe_count :: u32
  h_line_MASK :: u64
  first_segment_offset :: nat
  writer_assignments_offset :: nat
  reader_assignments_offset :: nat

record fips_shm =
  fb_header :: fips_buf_header_t
  writer_assignments :: bytes
  reader_assignments :: "fips_buf_assignment_t list"
  fb_segments :: "fips_segment list"

record fips_buf_arg_t =
  a_role :: fips_buf_role
  a_shm_name :: bytes
  a_arg_flags :: u8
  a_line_count_exp :: u8
  a_max_reader_count :: u8
  a_max_reader_thread_count :: u8
  a_max_segment_count :: u8
  a_line_size :: u32
  a_max_sqe_count :: u32
  a_shm_id :: int
  a_reader_index :: u8

section \<open>Sizes and offsets\<close>

definition sizeof_header :: nat where "sizeof_header = 120"
definition sizeof_segment_header :: nat where "sizeof_segment_header = 48"
definition sizeof_pointer :: nat where "sizeof_pointer = 8"
definition sizeof_list :: nat where "sizeof_list = 88"
definition sizeof_sqe :: nat where "sizeof_sqe = 16"
definition sizeof_assignment :: nat where "sizeof_assignment = 8"

lemmas fips_sizes =
  sizeof_header_def sizeof_segment_header_def sizeof_pointer_def sizeof_list_def sizeof_sqe_def
  sizeof_assignment_def

text \<open>\<open>(n + 7) & ~7\<close>.\<close>

definition pad8 :: "nat \<Rightarrow> nat" where
  "pad8 n = (n + 7) div 8 * 8"

definition reader_size :: "u32 \<Rightarrow> nat" where
  "reader_size max_sqe_count = sizeof_pointer + sizeof_list + sizeof_sqe * unat max_sqe_count"

text \<open>The size of the data area of a segment is a product of an \<open>int\<close> and a \<open>uint32_t\<close>.\<close>

definition data_area :: "u8 \<Rightarrow> u32 \<Rightarrow> nat" where
  "data_area exp line_size = unat (push_bit (unat exp) 1 * (line_size + 2))"

definition calculate_shared_memory_size :: "fips_buf_arg_t \<Rightarrow> nat" where
  "calculate_shared_memory_size a =
     sizeof_header + pad8 (unat (a_max_segment_count a))
     + unat (a_max_reader_count a) * unat (a_max_reader_thread_count a) * sizeof_assignment
     + unat (a_max_segment_count a)
         * (sizeof_segment_header + unat (a_max_reader_count a) * reader_size (a_max_sqe_count a)
            + data_area (a_line_count_exp a) (a_line_size a))"

definition FIPS_BUF_GET_SEGMENT_HEADER :: "fips_buf_header_t \<Rightarrow> nat \<Rightarrow> nat" where
  "FIPS_BUF_GET_SEGMENT_HEADER h segment_index =
     first_segment_offset h + segment_index
       * (sizeof_segment_header + unat (h_max_reader_count h) * reader_size (h_max_sqe_count h)
          + data_area (h_line_count_exp h) (h_line_size h))"

definition FIPS_BUF_GET_READER :: "fips_buf_header_t \<Rightarrow> nat \<Rightarrow> nat \<Rightarrow> nat" where
  "FIPS_BUF_GET_READER h readers_off reader_index =
     readers_off + reader_index * reader_size (h_max_sqe_count h)"

definition FIPS_BUF_GET_READER_SGE_LIST :: "fips_buf_header_t \<Rightarrow> nat \<Rightarrow> nat \<Rightarrow> nat" where
  "FIPS_BUF_GET_READER_SGE_LIST h readers_off reader_index =
     readers_off + reader_index * reader_size (h_max_sqe_count h) + sizeof_pointer"

definition FIPS_BUF_GET_READER_ASSIGNMENTS :: "fips_buf_header_t \<Rightarrow> nat \<Rightarrow> nat" where
  "FIPS_BUF_GET_READER_ASSIGNMENTS h reader_index =
     reader_assignments_offset h + reader_index * unat (h_max_reader_thread_count h) * sizeof_assignment"

section \<open>Checksum\<close>

text \<open>The name is a C string without its terminator; a name of more than seven bytes contributes
  its first eight bytes as a little-endian number.\<close>

definition calc_checksum :: "fips_buf_arg_t \<Rightarrow> u64" where
  "calc_checksum a =
     (let geometry = ucast (a_line_count_exp a) OR push_bit 8 (ucast (a_max_reader_count a))
            OR push_bit 16 (ucast (a_max_reader_thread_count a))
            OR push_bit 24 (ucast (a_max_segment_count a))
            OR push_bit 32 (ucast (a_line_size a))
      in if 7 < length (a_shm_name a)
         then word_of_nat (le_nat (take 8 (a_shm_name a))) XOR geometry XOR ucast (a_max_sqe_count a)
         else geometry XOR ucast (a_max_sqe_count a))"

definition checksum :: "fips_buf_arg_t \<Rightarrow> fips_shm \<Rightarrow> int" where
  "checksum a shm = (if calc_checksum a = h_checksum (fb_header shm) then 0 else 1)"

section \<open>Set-up\<close>

definition zero_pointer :: fips_buf_pointer_t where
  "zero_pointer = \<lparr>head_offset = 0, commit_offset = 0\<rparr>"

definition zero_range :: fips_buf_range_t where
  "zero_range = \<lparr>rng_start = 0, rng_count = 0, rng_segment = 0, rng_reader = 0\<rparr>"

definition zero_assignment :: fips_buf_assignment_t where
  "zero_assignment = \<lparr>start_segment = 0, a_count = 0, a_flags = 0\<rparr>"

definition zero_header :: fips_buf_header_t where
  "zero_header = \<lparr>h_initialized = 0, h_assignment_generation = 0, h_checksum = 0, h_segment_count = 0,
     h_max_reader_count = 0, h_max_reader_thread_count = 0, h_reader_count = 0, h_writer_count = 0,
     h_line_count_exp = 0, h_flags = 0, h_line_size = 0, h_max_sqe_count = 0, h_line_MASK = 0,
     first_segment_offset = 0, writer_assignments_offset = 0, reader_assignments_offset = 0\<rparr>"

text \<open>The zeroed memory a new System V object consists of.\<close>

definition zero_shm :: fips_shm where
  "zero_shm = \<lparr>fb_header = zero_header, writer_assignments = [], reader_assignments = [],
     fb_segments = []\<rparr>"

definition setup_header :: "fips_buf_arg_t \<Rightarrow> fips_buf_header_t \<Rightarrow> fips_buf_header_t" where
  "setup_header a h =
     (let wa = sizeof_header;
          ra = wa + pad8 (unat (a_max_segment_count a));
          fs = ra + unat (a_max_reader_count a) * unat (a_max_reader_thread_count a) * sizeof_assignment
      in h\<lparr>h_line_size := a_line_size a, h_line_count_exp := a_line_count_exp a,
           h_line_MASK := push_bit (unat (a_line_count_exp a)) 1 - 1,
           h_max_reader_count := a_max_reader_count a,
           h_max_reader_thread_count := a_max_reader_thread_count a,
           h_segment_count := a_max_segment_count a, h_max_sqe_count := a_max_sqe_count a,
           h_flags := a_arg_flags a, h_checksum := calc_checksum a,
           writer_assignments_offset := wa, reader_assignments_offset := ra,
           first_segment_offset := fs\<rparr>)"

definition setup_reader :: "fips_buf_arg_t \<Rightarrow> fips_buf_reader" where
  "setup_reader a = \<lparr>rd_ptr = zero_pointer,
     rd_list = \<lparr>list_capacity = ucast (a_max_sqe_count a), list_write_index = 0, list_read_index = 0,
       list_first_offset = 0,
       list_sqes = replicate (unat (a_max_sqe_count a)) \<lparr>sqe_range = zero_range, sqe_next = 0\<rparr>\<rparr>\<rparr>"

text \<open>The loop over the segments: \<open>cur\<close> is the offset of the current segment, \<open>prev\<close> the value
  already stored as its \<open>prev_offset\<close>, \<open>n\<close> the number of segments left.\<close>

fun setup_segments :: "fips_buf_arg_t \<Rightarrow> fips_buf_header_t \<Rightarrow> nat \<Rightarrow> nat \<Rightarrow> nat \<Rightarrow> nat \<Rightarrow> fips_segment list"
  where
  "setup_segments a h i prev cur 0 = []"
| "setup_segments a h i prev cur (Suc n) =
     (let readers = cur + sizeof_segment_header;
          nxt = (if n = 0 then 0 else FIPS_BUF_GET_SEGMENT_HEADER h (i + 1));
          seg = \<lparr>seg_header = \<lparr>next_offset = nxt, prev_offset = prev, sh_index = word_of_nat i,
                   sh_writer = zero_pointer, readers_offset = readers,
                   data_offset = readers + unat (a_max_reader_count a) * reader_size (a_max_sqe_count a)\<rparr>,
                 seg_readers = replicate (unat (a_max_reader_count a)) (setup_reader a),
                 seg_data = replicate (data_area (a_line_count_exp a) (a_line_size a)) 0\<rparr>
      in seg # setup_segments a h (i + 1) cur nxt n)"

definition setup_shm :: "fips_buf_arg_t \<Rightarrow> fips_shm \<Rightarrow> int \<times> fips_shm" where
  "setup_shm a shm =
     (if h_initialized (fb_header shm) \<noteq> 0 then (0, shm)
      else let h = setup_header a (fb_header shm) in
        (0, \<lparr>fb_header = h\<lparr>h_initialized := 1\<rparr>,
             writer_assignments = replicate (pad8 (unat (a_max_segment_count a))) 0,
             reader_assignments = replicate
               (unat (a_max_reader_count a) * unat (a_max_reader_thread_count a)) zero_assignment,
             fb_segments = setup_segments a h 0 0 (first_segment_offset h)
               (unat (a_max_segment_count a))\<rparr>))"

section \<open>Properties of the layout\<close>

lemma length_setup_segments [simp]: "length (setup_segments a h i prev cur n) = n"
  by (induction n arbitrary: i prev cur) (simp_all add: Let_def)

lemma setup_segments_nth:
  assumes "k < n" and "cur = FIPS_BUF_GET_SEGMENT_HEADER h i"
  shows "setup_segments a h i prev cur n ! k =
    \<lparr>seg_header = \<lparr>
       next_offset = (if Suc k = n then 0 else FIPS_BUF_GET_SEGMENT_HEADER h (i + k + 1)),
       prev_offset = (if k = 0 then prev else FIPS_BUF_GET_SEGMENT_HEADER h (i + k - 1)),
       sh_index = word_of_nat (i + k), sh_writer = zero_pointer,
       readers_offset = FIPS_BUF_GET_SEGMENT_HEADER h (i + k) + sizeof_segment_header,
       data_offset = FIPS_BUF_GET_SEGMENT_HEADER h (i + k) + sizeof_segment_header
         + unat (a_max_reader_count a) * reader_size (a_max_sqe_count a)\<rparr>,
     seg_readers = replicate (unat (a_max_reader_count a)) (setup_reader a),
     seg_data = replicate (data_area (a_line_count_exp a) (a_line_size a)) 0\<rparr>"
  using assms
proof (induction n arbitrary: i prev cur k)
  case 0
  then show ?case by simp
next
  case (Suc n)
  show ?case
  proof (cases k)
    case 0
    then show ?thesis using Suc.prems by (auto simp: Let_def)
  next
    case (Suc j)
    then have "j < n" using Suc.prems(1) by simp
    then have n: "n \<noteq> 0" by simp
    show ?thesis
      using Suc.IH [OF \<open>j < n\<close> refl, of "i + 1" "cur"] n Suc Suc.prems(2)
      by (simp add: Let_def)
  qed
qed

lemma setup_header_simps [simp]:
  "h_max_reader_count (setup_header a h) = a_max_reader_count a"
  "h_max_reader_thread_count (setup_header a h) = a_max_reader_thread_count a"
  "h_segment_count (setup_header a h) = a_max_segment_count a"
  "h_max_sqe_count (setup_header a h) = a_max_sqe_count a"
  "h_line_count_exp (setup_header a h) = a_line_count_exp a"
  "h_line_size (setup_header a h) = a_line_size a"
  "h_checksum (setup_header a h) = calc_checksum a"
  "h_reader_count (setup_header a h) = h_reader_count h"
  "h_writer_count (setup_header a h) = h_writer_count h"
  "first_segment_offset (setup_header a h) = sizeof_header + pad8 (unat (a_max_segment_count a))
    + unat (a_max_reader_count a) * unat (a_max_reader_thread_count a) * sizeof_assignment"
  "reader_assignments_offset (setup_header a h) = sizeof_header + pad8 (unat (a_max_segment_count a))"
  "writer_assignments_offset (setup_header a h) = sizeof_header"
  by (simp_all add: setup_header_def Let_def)

lemma segment_header_init [simp]:
  "FIPS_BUF_GET_SEGMENT_HEADER (h\<lparr>h_initialized := x\<rparr>) i = FIPS_BUF_GET_SEGMENT_HEADER h i"
  "FIPS_BUF_GET_READER (h\<lparr>h_initialized := x\<rparr>) off j = FIPS_BUF_GET_READER h off j"
  "FIPS_BUF_GET_READER_ASSIGNMENTS (h\<lparr>h_initialized := x\<rparr>) j = FIPS_BUF_GET_READER_ASSIGNMENTS h j"
  by (simp_all add: FIPS_BUF_GET_SEGMENT_HEADER_def FIPS_BUF_GET_READER_def
      FIPS_BUF_GET_READER_ASSIGNMENTS_def)

text \<open>C32. The layout of a new buffer. The assignment area of the readers ends where the first
  segment begins; following \<open>next_offset\<close> from the first segment visits exactly the offsets that
  the macro \<open>FIPS_BUF_GET_SEGMENT_HEADER\<close> computes; inside a segment the reader slots end where the
  data area begins and the data area ends where the next segment begins; and the end of the last
  segment is the size that was requested for the whole memory. So the parts are disjoint and cover
  the allocation.\<close>

theorem setup_shm_layout:
  assumes new: "h_initialized (fb_header shm) = 0"
    and res: "setup_shm a shm = (rv, shm')" and h: "h = fb_header shm'"
    and n: "n = unat (a_max_segment_count a)"
  shows "rv = 0 \<and> length (fb_segments shm') = n
    \<and> FIPS_BUF_GET_READER_ASSIGNMENTS h (unat (a_max_reader_count a)) = first_segment_offset h
    \<and> FIPS_BUF_GET_SEGMENT_HEADER h 0 = first_segment_offset h
    \<and> FIPS_BUF_GET_SEGMENT_HEADER h n = calculate_shared_memory_size a
    \<and> (\<forall>i < n. let s = seg_header (fb_segments shm' ! i) in
        next_offset s = (if i + 1 = n then 0 else FIPS_BUF_GET_SEGMENT_HEADER h (i + 1))
        \<and> (0 < i \<longrightarrow> prev_offset s = FIPS_BUF_GET_SEGMENT_HEADER h (i - 1))
        \<and> readers_offset s = FIPS_BUF_GET_SEGMENT_HEADER h i + sizeof_segment_header
        \<and> FIPS_BUF_GET_READER h (readers_offset s) (unat (a_max_reader_count a)) = data_offset s
        \<and> data_offset s + length (seg_data (fb_segments shm' ! i))
            = FIPS_BUF_GET_SEGMENT_HEADER h (i + 1))"
proof -
  let ?h = "setup_header a (fb_header shm)"
  have shm': "rv = 0" "h = ?h\<lparr>h_initialized := 1\<rparr>"
    "fb_segments shm' = setup_segments a ?h 0 0 (first_segment_offset ?h) n"
    using new res h n by (auto simp: setup_shm_def Let_def)
  have first: "first_segment_offset ?h = FIPS_BUF_GET_SEGMENT_HEADER ?h 0"
    by (simp add: FIPS_BUF_GET_SEGMENT_HEADER_def)
  note seg = setup_segments_nth [OF _ first]
  have step: "FIPS_BUF_GET_SEGMENT_HEADER ?h (i + 1) = FIPS_BUF_GET_SEGMENT_HEADER ?h i
      + sizeof_segment_header + unat (a_max_reader_count a) * reader_size (a_max_sqe_count a)
      + data_area (a_line_count_exp a) (a_line_size a)" for i
    by (simp add: FIPS_BUF_GET_SEGMENT_HEADER_def algebra_simps)
  have sz: "FIPS_BUF_GET_SEGMENT_HEADER ?h n = calculate_shared_memory_size a"
    by (simp add: FIPS_BUF_GET_SEGMENT_HEADER_def calculate_shared_memory_size_def n)
  have "\<forall>i < n. let s = seg_header (fb_segments shm' ! i) in
        next_offset s = (if i + 1 = n then 0 else FIPS_BUF_GET_SEGMENT_HEADER h (i + 1))
        \<and> (0 < i \<longrightarrow> prev_offset s = FIPS_BUF_GET_SEGMENT_HEADER h (i - 1))
        \<and> readers_offset s = FIPS_BUF_GET_SEGMENT_HEADER h i + sizeof_segment_header
        \<and> FIPS_BUF_GET_READER h (readers_offset s) (unat (a_max_reader_count a)) = data_offset s
        \<and> data_offset s + length (seg_data (fb_segments shm' ! i))
            = FIPS_BUF_GET_SEGMENT_HEADER h (i + 1)"
    using seg step by (simp add: shm'(2,3) Let_def FIPS_BUF_GET_READER_def)
  then show ?thesis
    using sz shm' by (simp add: FIPS_BUF_GET_READER_ASSIGNMENTS_def FIPS_BUF_GET_SEGMENT_HEADER_def)
qed

definition example_arg :: fips_buf_arg_t where
  "example_arg = \<lparr>a_role = FIPS_WRITER, a_shm_name = [47, 116], a_arg_flags = 0, a_line_count_exp = 2,
     a_max_reader_count = 1, a_max_reader_thread_count = 2, a_max_segment_count = 2, a_line_size = 6,
     a_max_sqe_count = 4, a_shm_id = 0, a_reader_index = 0\<rparr>"

theorem setup_shm_layout_witness:
  "let (rv, shm') = setup_shm example_arg zero_shm; h = fb_header shm' in
    rv = 0 \<and> length (fb_segments shm') = 2 \<and> first_segment_offset h = 144
    \<and> FIPS_BUF_GET_SEGMENT_HEADER h 2 = calculate_shared_memory_size example_arg
    \<and> calculate_shared_memory_size example_arg = 624"
proof -
  obtain rv shm' where r: "setup_shm example_arg zero_shm = (rv, shm')"
    by (cases "setup_shm example_arg zero_shm")
  have "h_initialized (fb_header zero_shm) = 0" by (simp add: zero_shm_def zero_header_def)
  note layout = setup_shm_layout [OF this r refl refl]
  have "unat (a_max_segment_count example_arg) = 2" "calculate_shared_memory_size example_arg = 624"
    "first_segment_offset (fb_header (snd (setup_shm example_arg zero_shm))) = 144"
    by code_simp+
  with layout r show ?thesis by simp
qed

lemma unat_line_count:
  assumes "unat exp < 31"
  shows "unat (push_bit (unat exp) 1 :: u32) = 2 ^ unat exp"
proof -
  have "(2 :: nat) ^ unat exp < 2 ^ 32" using assms by (intro power_strict_increasing) simp_all
  then show ?thesis using assms
    by (simp only: unsigned_push_bit_eq unsigned_1) (simp add: push_bit_eq_mult take_bit_nat_eq_self)
qed

text \<open>The data area has room for all lines when the product fits into 32 bits.\<close>

lemma data_area_eq:
  assumes "unat exp < 31" and "unat ls + 2 < 2 ^ 32" and "2 ^ unat exp * (unat ls + 2) < 2 ^ 32"
  shows "data_area exp ls = 2 ^ unat exp * (unat ls + 2)"
proof -
  have "unat (ls + 2) = unat ls + 2" using assms(2) by (simp add: unat_word_ariths)
  then show ?thesis
    using assms(3) unfolding data_area_def unat_word_ariths
    by (simp only: unat_line_count [OF assms(1)]) simp
qed

text \<open>Bytes at different positions of a word do not overlap, so each can be read back.\<close>

definition geometry :: "u8 \<Rightarrow> u8 \<Rightarrow> u8 \<Rightarrow> u8 \<Rightarrow> u32 \<Rightarrow> u64" where
  "geometry e rc rt sc ls = ucast e OR push_bit 8 (ucast rc) OR push_bit 16 (ucast rt)
     OR push_bit 24 (ucast sc) OR push_bit 32 (ucast ls)"

lemma geometry_fields:
  "ucast (geometry e rc rt sc ls) = e" "ucast (drop_bit 8 (geometry e rc rt sc ls)) = rc"
  "ucast (drop_bit 16 (geometry e rc rt sc ls)) = rt"
  "ucast (drop_bit 24 (geometry e rc rt sc ls)) = sc"
  "ucast (drop_bit 32 (geometry e rc rt sc ls)) = ls"
  by (rule bit_word_eqI; auto simp: geometry_def bit_simps not_le dest: bit_imp_le_length)+

lemma xor_cancel:
  fixes x y z :: "'a::len word"
  shows "x XOR y = x XOR z \<longleftrightarrow> y = z" and "y XOR x = z XOR x \<longleftrightarrow> y = z"
  by (metis xor.assoc xor.commute xor.left_neutral xor_self_eq)+

text \<open>The checksum ties every process to the geometry of the buffer: with the same name and the
  same number of list entries two argument structures have the same checksum exactly when exponent,
  reader count, thread count, segment count and line size agree; a process with another geometry
  fails the comparison.\<close>

theorem checksum_geometry:
  assumes "a_shm_name a = a_shm_name b" and "a_max_sqe_count a = a_max_sqe_count b"
    and "h_checksum (fb_header shm) = calc_checksum b"
  shows "checksum a shm = 0 \<longleftrightarrow>
    a_line_count_exp a = a_line_count_exp b \<and> a_max_reader_count a = a_max_reader_count b
    \<and> a_max_reader_thread_count a = a_max_reader_thread_count b
    \<and> a_max_segment_count a = a_max_segment_count b \<and> a_line_size a = a_line_size b"
proof -
  let ?g = "\<lambda>a. geometry (a_line_count_exp a) (a_max_reader_count a) (a_max_reader_thread_count a)
    (a_max_segment_count a) (a_line_size a)"
  have "checksum a shm = 0 \<longleftrightarrow> calc_checksum a = calc_checksum b" using assms(3) by (simp add: checksum_def)
  also have "\<dots> \<longleftrightarrow> ?g a = ?g b"
    using assms(1,2) by (auto simp: calc_checksum_def Let_def geometry_def [symmetric]
        xor_cancel)
  also have "\<dots> \<longleftrightarrow> a_line_count_exp a = a_line_count_exp b \<and> a_max_reader_count a = a_max_reader_count b
    \<and> a_max_reader_thread_count a = a_max_reader_thread_count b
    \<and> a_max_segment_count a = a_max_segment_count b \<and> a_line_size a = a_line_size b"
    by (metis geometry_fields)
  finally show ?thesis .
qed

theorem checksum_geometry_witness:
  "checksum (example_arg\<lparr>a_line_size := 7\<rparr>) (snd (setup_shm example_arg zero_shm)) \<noteq> 0"
proof -
  have "h_checksum (fb_header (snd (setup_shm example_arg zero_shm))) = calc_checksum example_arg"
    by (simp add: setup_shm_def Let_def zero_shm_def zero_header_def)
  from checksum_geometry [of "example_arg\<lparr>a_line_size := 7\<rparr>" example_arg, OF _ _ this]
  show ?thesis by (simp add: example_arg_def)
qed

end
