(* ===== verification/Fips_Ring.thy ===== *)
theory Fips_Ring
  imports Fips_Layout Ring_Lines
begin

text \<open>
  The ring operations of \<open>src/lib/fips_buf.c\<close> on one segment: claiming buffers for writing
  (\<open>fips_get_write_buffer\<close>), committing them (\<open>fips_buf_write\<close>), claiming lines for reading
  (the compare-and-swap loop of \<open>fips_buf_read\<close>) and returning them (\<open>fips_buf_return\<close> with
  \<open>fips_buf_list_add_sqe\<close>). Data is not copied: the calls hand out positions in the data area.
  Each call is one step; the compare-and-swap makes the claim of a reader thread atomic, and the
  list lock serialises the returns.

  A number of lines is a natural number; the code adds it to a \<open>uint32_t\<close> offset and masks the sum.
\<close>

section \<open>Positions\<close>

definition advance :: "u64 \<Rightarrow> u32 \<Rightarrow> nat \<Rightarrow> u32" where
  "advance msk off n = ucast (ucast (off + word_of_nat n) AND msk)"

text \<open>The position of the contents of a line in the data area; the two bytes before hold its
  length. The product is computed with 64 bits.\<close>

definition line_pos :: "u32 \<Rightarrow> u64 \<Rightarrow> u32 \<Rightarrow> nat \<Rightarrow> nat" where
  "line_pos line_size msk off i =
     unat (line_size + 2) * unat (ucast (off + word_of_nat i) AND msk) + LINE_WIDTH_SIZE"

record fips_iovec =
  fv_pos :: nat
  fv_len :: u64

section \<open>Writing\<close>

definition writer_blocked :: "u32 \<Rightarrow> u32 \<Rightarrow> u32 \<Rightarrow> bool" where
  "writer_blocked cur new commit \<longleftrightarrow>
     cur < new \<and> cur < commit \<and> commit \<le> new \<or>
     new < cur \<and> (cur < commit \<or> commit \<le> new)"

text \<open>The loop over the attached reader processes.\<close>

fun any_blocked :: "u32 \<Rightarrow> u32 \<Rightarrow> fips_buf_reader list \<Rightarrow> nat \<Rightarrow> bool option" where
  "any_blocked cur new rs 0 = Some False"
| "any_blocked cur new [] (Suc n) = None"
| "any_blocked cur new (r # rs) (Suc n) =
     (if writer_blocked cur new (commit_offset (rd_ptr r)) then Some True
      else any_blocked cur new rs n)"

definition fips_get_write_buffer ::
  "u32 \<Rightarrow> nat \<Rightarrow> nat \<Rightarrow> fips_shm \<Rightarrow> (int \<times> fips_iovec list \<times> fips_shm) option" where
  "fips_get_write_buffer line_size seg_idx iovcnt shm =
     do {
       seg \<leftarrow> nth_opt (fb_segments shm) seg_idx;
       let h = fb_header shm;
       let cur = head_offset (sh_writer (seg_header seg));
       let new = advance (h_line_MASK h) cur iovcnt;
       blocked \<leftarrow> (if h_flags h AND FIPS_BUF_FLAG_OVERWRITE \<noteq> 0 then Some False
                  else any_blocked cur new (seg_readers seg) (unat (h_reader_count h)));
       if blocked then Some (FIPS_BUF_ERROR_NO_SPACE, [], shm)
       else
         let seg' = seg\<lparr>seg_header := (seg_header seg)\<lparr>sh_writer :=
                (sh_writer (seg_header seg))\<lparr>head_offset := new\<rparr>\<rparr>\<rparr>
         in Some (0,
              map (\<lambda>i. \<lparr>fv_pos = line_pos line_size (h_line_MASK h) cur i, fv_len = ucast line_size\<rparr>)
                [0 ..< iovcnt],
              shm\<lparr>fb_segments := (fb_segments shm)[seg_idx := seg']\<rparr>)
     }"

text \<open>The length prefixes are written in front of the buffers as 16-bit little-endian numbers.\<close>

definition le16 :: "u16 \<Rightarrow> bytes" where
  "le16 x = [ucast x, ucast (drop_bit 8 x)]"

fun put_lengths :: "fips_iovec list \<Rightarrow> bytes \<Rightarrow> bytes option" where
  "put_lengths [] d = Some d"
| "put_lengths (v # vs) d =
     (if fv_pos v < 2 then None
      else do {
        d' \<leftarrow> mem_write d (fv_pos v - 2) (le16 (ucast (fv_len v)));
        put_lengths vs d'
      })"

definition fips_buf_write :: "nat \<Rightarrow> fips_iovec list \<Rightarrow> fips_shm \<Rightarrow> (int \<times> fips_shm) option" where
  "fips_buf_write seg_idx iov shm =
     do {
       seg \<leftarrow> nth_opt (fb_segments shm) seg_idx;
       d \<leftarrow> put_lengths iov (seg_data seg);
       let w = sh_writer (seg_header seg);
       let new = advance (h_line_MASK (fb_header shm)) (commit_offset w) (length iov);
       if head_offset w < new
       then Some (FIPS_BUF_ERROR_CORRUPTED,
              shm\<lparr>fb_segments := (fb_segments shm)[seg_idx := seg\<lparr>seg_data := d\<rparr>]\<rparr>)
       else Some (0, shm\<lparr>fb_segments := (fb_segments shm)[seg_idx :=
              seg\<lparr>seg_data := d, seg_header := (seg_header seg)\<lparr>sh_writer :=
                w\<lparr>commit_offset := new\<rparr>\<rparr>\<rparr>]\<rparr>)
     }"

section \<open>Reading\<close>

definition reader_blocked :: "u32 \<Rightarrow> u32 \<Rightarrow> u32 \<Rightarrow> bool" where
  "reader_blocked cur new commit \<longleftrightarrow>
     cur < new \<and> cur \<le> commit \<and> commit < new \<or>
     new < cur \<and> (cur \<le> commit \<or> commit < new)"

text \<open>One attempt on a segment: \<open>Some None\<close> when there are not enough committed lines.\<close>

definition reader_claim ::
  "u64 \<Rightarrow> nat \<Rightarrow> nat \<Rightarrow> fips_segment \<Rightarrow> (u32 \<times> fips_segment) option option" where
  "reader_claim msk iovcnt r seg =
     do {
       rd \<leftarrow> nth_opt (seg_readers seg) r;
       let cur = head_offset (rd_ptr rd);
       let new = advance msk cur iovcnt;
       Some (if reader_blocked cur new (commit_offset (sh_writer (seg_header seg))) then None
             else Some (cur, seg\<lparr>seg_readers := (seg_readers seg)[r :=
               rd\<lparr>rd_ptr := (rd_ptr rd)\<lparr>head_offset := new\<rparr>\<rparr>]\<rparr>))
     }"

text \<open>The buffers handed to the reader; each length is read from the two bytes before the line.\<close>

fun get_iovecs :: "u32 \<Rightarrow> u64 \<Rightarrow> u32 \<Rightarrow> nat list \<Rightarrow> bytes \<Rightarrow> fips_iovec list option" where
  "get_iovecs line_size msk cur [] d = Some []"
| "get_iovecs line_size msk cur (i # is) d =
     do {
       let pos = line_pos line_size msk cur i;
       l \<leftarrow> mem_read d (pos - 2) 2;
       vs \<leftarrow> get_iovecs line_size msk cur is d;
       Some (\<lparr>fv_pos = pos, fv_len = word_of_nat (le_nat l)\<rparr> # vs)
     }"

section \<open>Returning\<close>

text \<open>The list of returned ranges: entries are addressed by byte offsets from the list structure.\<close>

definition sqe_offset :: "nat \<Rightarrow> nat" where
  "sqe_offset i = sizeof_list + i * sizeof_sqe"

definition sqe_index :: "nat \<Rightarrow> nat" where
  "sqe_index off = (off - sizeof_list) div sizeof_sqe"

definition sqe_at :: "fips_buf_sqe_t list \<Rightarrow> nat \<Rightarrow> fips_buf_sqe_t option" where
  "sqe_at sqes off = (if off < sizeof_list then None else nth_opt sqes (sqe_index off))"

definition set_next :: "nat \<Rightarrow> nat \<Rightarrow> fips_buf_sqe_t list \<Rightarrow> fips_buf_sqe_t list" where
  "set_next off nxt sqes = sqes[sqe_index off := (sqes ! sqe_index off)\<lparr>sqe_next := nxt\<rparr>]"

text \<open>Linking the new entry: the link that led to the current entry is the \<open>next_offset\<close> of the
  previous entry or \<open>first_offset\<close>.\<close>

definition set_link :: "nat option \<Rightarrow> nat \<Rightarrow> nat \<times> fips_buf_sqe_t list \<Rightarrow> nat \<times> fips_buf_sqe_t list" where
  "set_link prev off st =
     (case prev of
        None \<Rightarrow> (off, snd st)
      | Some p \<Rightarrow> (fst st, set_next p off (snd st)))"

partial_function (option) insert_sqe ::
  "nat \<Rightarrow> u32 \<Rightarrow> nat option \<Rightarrow> nat \<Rightarrow> nat \<times> fips_buf_sqe_t list \<Rightarrow> (nat \<times> fips_buf_sqe_t list) option"
  where
  "insert_sqe new start prev cur st =
     do {
       c \<leftarrow> sqe_at (snd st) cur;
       if start < rng_start (sqe_range c)
       then (case set_link prev new st of (first, sqes) \<Rightarrow> Some (first, set_next new cur sqes))
       else if sqe_next c = 0
       then Some (set_link prev new (fst st, set_next cur new (snd st)))
       else insert_sqe new start (Some cur) (sqe_next c) st
     }"

lemmas [code] = insert_sqe.simps

text \<open>The clean-up loop: commits the entries at the front of the list that continue the commit
  offset.\<close>

partial_function (option) drain_sqes ::
  "u32 \<Rightarrow> u32 \<Rightarrow> fips_buf_list_t \<Rightarrow> (u32 \<times> fips_buf_list_t) option" where
  "drain_sqes msk commit l =
     (if list_first_offset l = 0 then Some (commit, l)
      else do {
        c \<leftarrow> sqe_at (list_sqes l) (list_first_offset l);
        if rng_start (sqe_range c) \<noteq> commit then Some (commit, l)
        else drain_sqes msk ((commit + ucast (rng_count (sqe_range c))) AND msk)
          (l\<lparr>list_first_offset := sqe_next c,
             list_sqes := (list_sqes l)[sqe_index (list_first_offset l) :=
               \<lparr>sqe_range = zero_range, sqe_next = 0\<rparr>],
             list_read_index := list_read_index l + 16\<rparr>)
      })"

lemmas [code] = drain_sqes.simps

definition store_sqe :: "fips_buf_range_t \<Rightarrow> fips_buf_list_t \<Rightarrow> (int + fips_buf_list_t) option" where
  "store_sqe tag l =
     (if list_capacity l = 0 then None
      else let new_write_index = (list_write_index l + 1) mod list_capacity l in
      if list_read_index l = new_write_index then Some (Inl FIPS_BUF_ERROR_NO_SPACE)
      else let index = unat (list_write_index l); off = sqe_offset index in
      if length (list_sqes l) \<le> index then None
      else let sqes = (list_sqes l)[index := \<lparr>sqe_range = tag, sqe_next = 0\<rparr>];
               l1 = l\<lparr>list_write_index := new_write_index\<rparr>
        in if list_first_offset l = 0
           then Some (Inr (l1\<lparr>list_first_offset := off, list_sqes := sqes\<rparr>))
           else do {
             (first, sqes') \<leftarrow> insert_sqe off (rng_start tag) None (list_first_offset l)
                               (list_first_offset l, sqes);
             Some (Inr (l1\<lparr>list_first_offset := first, list_sqes := sqes'\<rparr>))
           })"

definition fips_buf_list_add_sqe ::
  "fips_buf_reader \<Rightarrow> fips_buf_range_t \<Rightarrow> u32 \<Rightarrow> (int \<times> fips_buf_reader) option" where
  "fips_buf_list_add_sqe rd tag msk =
     (let p = rd_ptr rd; l = rd_list rd in
      if commit_offset p = rng_start tag
      then do {
        (commit, l') \<leftarrow> drain_sqes msk ((commit_offset p + ucast (rng_count tag)) AND msk) l;
        Some (FIPS_BUF_SUCCESS, rd\<lparr>rd_ptr := p\<lparr>commit_offset := commit\<rparr>, rd_list := l'\<rparr>)
      }
      else do {
        r \<leftarrow> store_sqe tag l;
        (case r of
           Inl err \<Rightarrow> Some (err, rd)
         | Inr l1 \<Rightarrow> do {
             (commit, l') \<leftarrow> drain_sqes msk (commit_offset p) l1;
             Some (FIPS_BUF_SUCCESS, rd\<lparr>rd_ptr := p\<lparr>commit_offset := commit\<rparr>, rd_list := l'\<rparr>)
           })
      })"

definition fips_buf_return :: "fips_buf_range_t \<Rightarrow> fips_shm \<Rightarrow> (int \<times> fips_shm) option" where
  "fips_buf_return tag shm =
     do {
       seg \<leftarrow> nth_opt (fb_segments shm) (unat (rng_segment tag));
       rd \<leftarrow> nth_opt (seg_readers seg) (unat (rng_reader tag));
       (rv, rd') \<leftarrow> fips_buf_list_add_sqe rd tag (ucast (h_line_MASK (fb_header shm)));
       Some (rv, shm\<lparr>fb_segments := (fb_segments shm)[unat (rng_segment tag) :=
         seg\<lparr>seg_readers := (seg_readers seg)[unat (rng_reader tag) := rd']\<rparr>]\<rparr>)
     }"

end
