(* ===== verification/Fips_Ring_Inv.thy ===== *)
theory Fips_Ring_Inv
  imports Fips_Ring
begin

text \<open>
  The ring discipline of a segment: the order of the four kinds of positions (what a reader has
  returned, what it has claimed, what the writer has committed, what the writer has claimed) and
  that the calls keep it. The offsets of the code, \<open>uint32_t\<close> masked with \<open>line_MASK\<close>, are read as
  positions in a ring of \<open>2 ^ line_count_exp\<close> lines.
\<close>

section \<open>Masked offsets as ring positions\<close>

definition lines :: "fips_buf_header_t \<Rightarrow> nat" where
  "lines h = 2 ^ unat (h_line_count_exp h)"

definition geo_ok :: "fips_buf_header_t \<Rightarrow> bool" where
  "geo_ok h \<longleftrightarrow> unat (h_line_count_exp h) < 31
     \<and> h_line_MASK h = push_bit (unat (h_line_count_exp h)) 1 - 1
     \<and> unat (h_line_size h) + 2 < 2 ^ 32
     \<and> lines h * (unat (h_line_size h) + 2) < 2 ^ 32"

lemma lines_pos [simp]: "0 < lines h"
  by (simp add: lines_def)

lemma masked_unat:
  assumes "unat e < 31" and "m = push_bit (unat (e :: u8)) 1 - (1 :: u64)"
  shows "unat (ucast (off + word_of_nat n :: u32) AND m) = (unat off + n) mod 2 ^ unat e"
proof -
  let ?k = "unat e"
  have m: "m = mask ?k" using assms(2) by (simp add: mask_eq_exp_minus_1)
  have "unat (off + word_of_nat n :: u32) = (unat off + n) mod 2 ^ 32"
    by (simp add: unat_word_ariths unat_of_nat mod_simps)
  moreover have "unat (ucast (off + word_of_nat n :: u32) :: u64) = unat (off + word_of_nat n :: u32)"
    by (rule unat_ucast_up) simp
  moreover have "(unat off + n) mod 2 ^ 32 mod 2 ^ ?k = (unat off + n) mod 2 ^ ?k"
    using assms(1) by (intro mod_mod_cancel le_imp_power_dvd) simp
  ultimately show ?thesis unfolding m unat_mask_and by simp
qed

lemma unat_advance:
  assumes "geo_ok h"
  shows "unat (advance (h_line_MASK h) off n) = (unat off + n) mod lines h"
proof -
  let ?x = "ucast (off + word_of_nat n :: u32) AND h_line_MASK h"
  have e: "unat (h_line_count_exp h) < 31" using assms by (simp add: geo_ok_def)
  have x: "unat ?x = (unat off + n) mod lines h"
    unfolding lines_def by (rule masked_unat) (use assms in \<open>simp_all add: geo_ok_def\<close>)
  have "lines h < 2 ^ 32" unfolding lines_def using e by (intro power_strict_increasing) simp_all
  moreover have "(unat off + n) mod lines h < lines h" by simp
  ultimately have "unat ?x < 2 ^ 32" using x by linarith
  then show ?thesis
    using x by (simp add: advance_def unsigned_ucast_eq take_bit_nat_eq_self)
qed

lemma line_pos_eq:
  assumes "geo_ok h"
  shows "line_pos (h_line_size h) (h_line_MASK h) off i
    = (unat (h_line_size h) + 2) * radd (lines h) (unat off) i + 2"
proof -
  have "unat (h_line_size h + 2) = unat (h_line_size h) + 2"
    using assms by (simp add: geo_ok_def unat_word_ariths)
  moreover have "unat (ucast (off + word_of_nat i :: u32) AND h_line_MASK h)
    = (unat off + i) mod 2 ^ unat (h_line_count_exp h)"
    by (rule masked_unat) (use assms in \<open>simp_all add: geo_ok_def\<close>)
  ultimately show ?thesis by (simp add: line_pos_def LINE_WIDTH_SIZE_def radd_def lines_def)
qed

lemma unat_advance_radd:
  "geo_ok h \<Longrightarrow> unat (advance (h_line_MASK h) off n) = radd (lines h) (unat off) n"
  by (simp add: unat_advance radd_def)

section \<open>The two tests\<close>

lemma rdist_trans:
  "a < n \<Longrightarrow> b < n \<Longrightarrow> c < n \<Longrightarrow> rdist n a b + rdist n b c < n \<Longrightarrow>
     rdist n a c = rdist n a b + rdist n b c"
  by (auto simp: rdist_def split: if_splits)

lemma writer_blocked_nat:
  assumes "cur < n" and "c < n" and "0 < k" and "k < n" and "new = radd n cur k"
  shows "(cur < new \<and> cur < c \<and> c \<le> new \<or> new < cur \<and> (cur < c \<or> c \<le> new)) \<longleftrightarrow>
    n \<le> rdist n c cur + k"
  using assms by (auto simp: radd_cases rdist_def split: if_splits)

lemma reader_blocked_nat:
  assumes "cur < n" and "c < n" and "0 < k" and "k < n" and "new = radd n cur k"
  shows "(cur < new \<and> cur \<le> c \<and> c < new \<or> new < cur \<and> (cur \<le> c \<or> c < new)) \<longleftrightarrow>
    rdist n cur c < k"
  using assms by (auto simp: radd_cases rdist_def split: if_splits)

lemma writer_blocked_iff:
  assumes "geo_ok h" and "unat cur < lines h" and "unat c < lines h" and "0 < k" and "k < lines h"
  shows "writer_blocked cur (advance (h_line_MASK h) cur k) c \<longleftrightarrow>
    lines h \<le> rdist (lines h) (unat c) (unat cur) + k"
  using writer_blocked_nat [OF assms(2-5) unat_advance_radd [OF assms(1)]]
  by (simp add: writer_blocked_def word_less_nat_alt word_le_nat_alt)

lemma reader_blocked_iff:
  assumes "geo_ok h" and "unat cur < lines h" and "unat c < lines h" and "0 < k" and "k < lines h"
  shows "reader_blocked cur (advance (h_line_MASK h) cur k) c \<longleftrightarrow>
    rdist (lines h) (unat cur) (unat c) < k"
  using reader_blocked_nat [OF assms(2-5) unat_advance_radd [OF assms(1)]]
  by (simp add: reader_blocked_def word_less_nat_alt word_le_nat_alt)

section \<open>The invariant of a segment\<close>

abbreviation wr_head :: "fips_segment \<Rightarrow> nat" where
  "wr_head seg \<equiv> unat (head_offset (sh_writer (seg_header seg)))"

abbreviation wr_commit :: "fips_segment \<Rightarrow> nat" where
  "wr_commit seg \<equiv> unat (commit_offset (sh_writer (seg_header seg)))"

abbreviation rd_head :: "fips_segment \<Rightarrow> nat \<Rightarrow> nat" where
  "rd_head seg r \<equiv> unat (head_offset (rd_ptr (seg_readers seg ! r)))"

abbreviation rd_commit :: "fips_segment \<Rightarrow> nat \<Rightarrow> nat" where
  "rd_commit seg r \<equiv> unat (commit_offset (rd_ptr (seg_readers seg ! r)))"

text \<open>Returned, claimed by the reader, committed, claimed by the writer: in this order around the
  ring, with at least one line free.\<close>

definition ring_order :: "nat \<Rightarrow> fips_segment \<Rightarrow> nat \<Rightarrow> bool" where
  "ring_order n seg r \<longleftrightarrow> rd_commit seg r < n \<and> rd_head seg r < n
     \<and> rdist n (rd_commit seg r) (rd_head seg r) + rdist n (rd_head seg r) (wr_commit seg)
         + rdist n (wr_commit seg) (wr_head seg) < n"

definition seg_ok :: "fips_buf_header_t \<Rightarrow> fips_segment \<Rightarrow> bool" where
  "seg_ok h seg \<longleftrightarrow> wr_head seg < lines h \<and> wr_commit seg < lines h
     \<and> unat (h_reader_count h) \<le> length (seg_readers seg)
     \<and> length (seg_data seg) = lines h * (unat (h_line_size h) + 2)
     \<and> (\<forall>r < unat (h_reader_count h). ring_order (lines h) seg r)"

definition fips_ok :: "fips_shm \<Rightarrow> bool" where
  "fips_ok shm \<longleftrightarrow> geo_ok (fb_header shm) \<and> (\<forall>seg\<in>set (fb_segments shm). seg_ok (fb_header shm) seg)"

lemmas [wf_simps] = ring_order_def seg_ok_def fips_ok_def

definition put_seg :: "fips_shm \<Rightarrow> nat \<Rightarrow> fips_segment \<Rightarrow> fips_shm" where
  "put_seg shm s seg = shm\<lparr>fb_segments := (fb_segments shm)[s := seg]\<rparr>"

lemma put_seg_simps [simp]:
  "fb_header (put_seg shm s seg) = fb_header shm"
  "length (fb_segments (put_seg shm s seg)) = length (fb_segments shm)"
  "s < length (fb_segments shm) \<Longrightarrow> fb_segments (put_seg shm s seg) ! s = seg"
  "t \<noteq> s \<Longrightarrow> fb_segments (put_seg shm s seg) ! t = fb_segments shm ! t"
  by (simp_all add: put_seg_def)

lemma fips_ok_put_seg:
  "fips_ok shm \<Longrightarrow> seg_ok (fb_header shm) seg \<Longrightarrow> fips_ok (put_seg shm s seg)"
  using set_update_subset_insert [of "fb_segments shm" s seg]
  by (auto simp: fips_ok_def put_seg_def)

lemma fips_ok_seg:
  "fips_ok shm \<Longrightarrow> s < length (fb_segments shm) \<Longrightarrow>
     geo_ok (fb_header shm) \<and> seg_ok (fb_header shm) (fb_segments shm ! s)"
  by (simp add: fips_ok_def)

lemma ring_order_writer:
  assumes "ring_order n seg r" and "wr_commit seg < n" and "wr_head seg < n"
  shows "rdist n (rd_commit seg r) (wr_head seg)
    = rdist n (rd_commit seg r) (rd_head seg r) + rdist n (rd_head seg r) (wr_commit seg)
      + rdist n (wr_commit seg) (wr_head seg)"
proof -
  have o: "rd_commit seg r < n" "rd_head seg r < n" using assms(1) by (simp_all add: ring_order_def)
  have "rdist n (rd_commit seg r) (wr_commit seg)
    = rdist n (rd_commit seg r) (rd_head seg r) + rdist n (rd_head seg r) (wr_commit seg)"
    using o assms by (intro rdist_trans) (simp_all add: ring_order_def)
  moreover from this have "rdist n (rd_commit seg r) (wr_head seg)
    = rdist n (rd_commit seg r) (wr_commit seg) + rdist n (wr_commit seg) (wr_head seg)"
    using o assms by (intro rdist_trans) (simp_all add: ring_order_def)
  ultimately show ?thesis by simp
qed

lemma any_blocked_iff:
  "n \<le> length rs \<Longrightarrow> any_blocked cur new rs n
     = Some (\<exists>r < n. writer_blocked cur new (commit_offset (rd_ptr (rs ! r))))"
proof (induction n arbitrary: rs)
  case 0
  then show ?case by simp
next
  case (Suc n)
  then obtain r rs' where rs: "rs = r # rs'" by (cases rs) auto
  with Suc show ?case by (auto simp: less_Suc_eq_0_disj)
qed

section \<open>The calls\<close>

definition claim_seg :: "fips_buf_header_t \<Rightarrow> nat \<Rightarrow> fips_segment \<Rightarrow> fips_segment" where
  "claim_seg h n seg = seg\<lparr>seg_header := (seg_header seg)\<lparr>sh_writer := (sh_writer (seg_header seg))
     \<lparr>head_offset := advance (h_line_MASK h) (head_offset (sh_writer (seg_header seg))) n\<rparr>\<rparr>\<rparr>"

lemma claim_seg_simps [simp]:
  "seg_readers (claim_seg h n seg) = seg_readers seg" "seg_data (claim_seg h n seg) = seg_data seg"
  "wr_commit (claim_seg h n seg) = wr_commit seg"
  "geo_ok h \<Longrightarrow> wr_head (claim_seg h n seg) = radd (lines h) (wr_head seg) n"
  by (simp_all add: claim_seg_def unat_advance_radd)

text \<open>Room for \<open>n\<close> more lines in front of every reader.\<close>

definition room :: "fips_buf_header_t \<Rightarrow> fips_segment \<Rightarrow> nat \<Rightarrow> bool" where
  "room h seg n \<longleftrightarrow> (\<forall>r < unat (h_reader_count h).
     rdist (lines h) (rd_commit seg r) (wr_head seg) + n < lines h)"

lemma get_write_buffer_result:
  assumes ok: "fips_ok shm" and s: "s < length (fb_segments shm)"
    and mode: "h_flags (fb_header shm) AND FIPS_BUF_FLAG_OVERWRITE = 0"
    and n: "0 < n" "n < lines (fb_header shm)"
  shows "fips_get_write_buffer ls s n shm =
    (if room (fb_header shm) (fb_segments shm ! s) n
     then Some (0, map (\<lambda>i. \<lparr>fv_pos = line_pos ls (h_line_MASK (fb_header shm))
          (head_offset (sh_writer (seg_header (fb_segments shm ! s)))) i, fv_len = ucast ls\<rparr>) [0 ..< n],
        put_seg shm s (claim_seg (fb_header shm) n (fb_segments shm ! s)))
     else Some (FIPS_BUF_ERROR_NO_SPACE, [], shm))"
proof -
  let ?h = "fb_header shm" and ?seg = "fb_segments shm ! s"
  let ?cur = "head_offset (sh_writer (seg_header ?seg))"
  have geo: "geo_ok ?h" and seg: "seg_ok ?h ?seg" using fips_ok_seg [OF ok s] by auto
  have rc: "unat (h_reader_count ?h) \<le> length (seg_readers ?seg)" using seg by (simp add: seg_ok_def)
  have "writer_blocked ?cur (advance (h_line_MASK ?h) ?cur n)
      (commit_offset (rd_ptr (seg_readers ?seg ! r)))
    \<longleftrightarrow> lines ?h \<le> rdist (lines ?h) (rd_commit ?seg r) (wr_head ?seg) + n"
    if "r < unat (h_reader_count ?h)" for r
    using that seg n by (intro writer_blocked_iff [OF geo]) (auto simp: seg_ok_def ring_order_def)
  then have "(\<exists>r < unat (h_reader_count ?h). writer_blocked ?cur (advance (h_line_MASK ?h) ?cur n)
      (commit_offset (rd_ptr (seg_readers ?seg ! r)))) \<longleftrightarrow> \<not> room ?h ?seg n"
    by (auto simp: room_def not_less)
  then show ?thesis
    using s mode any_blocked_iff [OF rc] by (simp add: fips_get_write_buffer_def Let_def put_seg_def claim_seg_def)
qed

lemma seg_ok_claim:
  assumes geo: "geo_ok h" and seg: "seg_ok h seg" and rm: "room h seg n"
  shows "seg_ok h (claim_seg h n seg)"
proof -
  have "ring_order (lines h) (claim_seg h n seg) r" if r: "r < unat (h_reader_count h)" for r
  proof -
    have o: "ring_order (lines h) seg r" "wr_commit seg < lines h" "wr_head seg < lines h"
      using seg r by (simp_all add: seg_ok_def)
    have "rdist (lines h) (wr_commit seg) (wr_head seg) + n < lines h"
      using rm r ring_order_writer [OF o] by (fastforce simp: room_def)
    then have "rdist (lines h) (wr_commit seg) (radd (lines h) (wr_head seg) n)
      = rdist (lines h) (wr_commit seg) (wr_head seg) + n"
      using o by (intro rdist_radd_right) simp_all
    then show ?thesis
      using o(1) rm r ring_order_writer [OF o] geo by (fastforce simp: ring_order_def room_def)
  qed
  then show ?thesis using seg geo by (simp add: seg_ok_def radd_less)
qed

lemma put_lengths_ok:
  assumes "\<forall>v\<in>set iov. 2 \<le> fv_pos v \<and> fv_pos v \<le> length d"
  shows "\<exists>d'. put_lengths iov d = Some d' \<and> length d' = length d"
  using assms
proof (induction iov arbitrary: d)
  case Nil
  then show ?case by simp
next
  case (Cons v iov)
  then have "fv_pos v - 2 + length (le16 (ucast (fv_len v))) \<le> length d" by (auto simp: le16_def)
  then obtain d1 where d1: "mem_write d (fv_pos v - 2) (le16 (ucast (fv_len v))) = Some d1"
    by (simp add: mem_write_def)
  with Cons.IH [of d1] Cons.prems mem_write_length [OF d1] show ?case by auto
qed

definition commit_seg :: "bytes \<Rightarrow> fips_segment \<Rightarrow> fips_segment" where
  "commit_seg d seg = seg\<lparr>seg_data := d, seg_header := (seg_header seg)\<lparr>sh_writer :=
     (sh_writer (seg_header seg))\<lparr>commit_offset := head_offset (sh_writer (seg_header seg))\<rparr>\<rparr>\<rparr>"

text \<open>Committing everything that was claimed.\<close>

lemma buf_write_all:
  assumes ok: "fips_ok shm" and s: "s < length (fb_segments shm)"
    and all: "length iov = rdist (lines (fb_header shm)) (wr_commit (fb_segments shm ! s))
      (wr_head (fb_segments shm ! s))"
    and d: "put_lengths iov (seg_data (fb_segments shm ! s)) = Some d"
  shows "fips_buf_write s iov shm = Some (0, put_seg shm s (commit_seg d (fb_segments shm ! s)))"
proof -
  let ?h = "fb_header shm" and ?w = "sh_writer (seg_header (fb_segments shm ! s))"
  have geo: "geo_ok ?h" and seg: "seg_ok ?h (fb_segments shm ! s)" using fips_ok_seg [OF ok s] by auto
  have "unat (advance (h_line_MASK ?h) (commit_offset ?w) (length iov)) = unat (head_offset ?w)"
    unfolding unat_advance_radd [OF geo] all by (rule radd_rdist) (use seg in \<open>simp_all add: seg_ok_def\<close>)
  then have "advance (h_line_MASK ?h) (commit_offset ?w) (length iov) = head_offset ?w"
    by (simp add: word_unat_eq_iff)
  with s d show ?thesis by (simp add: fips_buf_write_def Let_def put_seg_def commit_seg_def)
qed

lemma seg_ok_commit:
  assumes seg: "seg_ok h seg" and d: "length d = length (seg_data seg)"
  shows "seg_ok h (commit_seg d seg)"
proof -
  have "ring_order (lines h) (commit_seg d seg) r" if r: "r < unat (h_reader_count h)" for r
  proof -
    have o: "ring_order (lines h) seg r" "wr_commit seg < lines h" "wr_head seg < lines h"
      using seg r by (simp_all add: seg_ok_def)
    have "rdist (lines h) (rd_head seg r) (wr_head seg)
      = rdist (lines h) (rd_head seg r) (wr_commit seg) + rdist (lines h) (wr_commit seg) (wr_head seg)"
      using o by (intro rdist_trans) (simp_all add: ring_order_def)
    with o(1) show ?thesis by (simp add: ring_order_def commit_seg_def)
  qed
  then show ?thesis using seg d by (simp add: seg_ok_def) (simp add: commit_seg_def)
qed

definition borrow_seg :: "fips_buf_header_t \<Rightarrow> nat \<Rightarrow> nat \<Rightarrow> fips_segment \<Rightarrow> fips_segment" where
  "borrow_seg h n r seg = seg\<lparr>seg_readers := (seg_readers seg)[r := (seg_readers seg ! r)
     \<lparr>rd_ptr := (rd_ptr (seg_readers seg ! r))
       \<lparr>head_offset := advance (h_line_MASK h) (head_offset (rd_ptr (seg_readers seg ! r))) n\<rparr>\<rparr>]\<rparr>"

lemma reader_claim_result:
  assumes geo: "geo_ok h" and seg: "seg_ok h seg" and r: "r < unat (h_reader_count h)"
    and n: "0 < n" "n < lines h"
  shows "reader_claim (h_line_MASK h) n r seg =
    Some (if n \<le> rdist (lines h) (rd_head seg r) (wr_commit seg)
      then Some (head_offset (rd_ptr (seg_readers seg ! r)), borrow_seg h n r seg) else None)"
proof -
  have rl: "r < length (seg_readers seg)" using seg r by (simp add: seg_ok_def)
  have "reader_blocked (head_offset (rd_ptr (seg_readers seg ! r)))
      (advance (h_line_MASK h) (head_offset (rd_ptr (seg_readers seg ! r))) n)
      (commit_offset (sh_writer (seg_header seg)))
    \<longleftrightarrow> rdist (lines h) (rd_head seg r) (wr_commit seg) < n"
    using seg r n by (intro reader_blocked_iff [OF geo]) (simp_all add: seg_ok_def ring_order_def)
  then show ?thesis using rl by (auto simp: reader_claim_def Let_def borrow_seg_def)
qed

lemma seg_ok_borrow:
  assumes geo: "geo_ok h" and seg: "seg_ok h seg" and r: "r < unat (h_reader_count h)"
    and n: "n \<le> rdist (lines h) (rd_head seg r) (wr_commit seg)"
  shows "seg_ok h (borrow_seg h n r seg)"
proof -
  have rl: "r < length (seg_readers seg)" using seg r by (simp add: seg_ok_def)
  have w: "wr_commit (borrow_seg h n r seg) = wr_commit seg" "wr_head (borrow_seg h n r seg) = wr_head seg"
    by (simp_all add: borrow_seg_def)
  have "ring_order (lines h) (borrow_seg h n r seg) q" if q: "q < unat (h_reader_count h)" for q
  proof (cases "q = r")
    case True
    have o: "ring_order (lines h) seg r" "wr_commit seg < lines h" using seg r by (simp_all add: seg_ok_def)
    let ?hd = "rd_head seg r" and ?cm = "rd_commit seg r"
    have p: "rd_head (borrow_seg h n r seg) r = radd (lines h) ?hd n"
      "rd_commit (borrow_seg h n r seg) r = ?cm"
      using rl unat_advance_radd [OF geo] by (simp_all add: borrow_seg_def)
    have l: "?hd < lines h" "?cm < lines h" using o(1) by (simp_all add: ring_order_def)
    have "rdist (lines h) ?cm (radd (lines h) ?hd n) = rdist (lines h) ?cm ?hd + n"
      using l o n by (intro rdist_radd_right) (auto simp: ring_order_def)
    moreover have "rdist (lines h) (radd (lines h) ?hd n) (wr_commit seg)
      = rdist (lines h) ?hd (wr_commit seg) - n"
      using l o n by (intro rdist_radd_left) simp_all
    ultimately show ?thesis using o(1) n True by (simp add: ring_order_def p w radd_less)
  next
    case False
    then have "seg_readers (borrow_seg h n r seg) ! q = seg_readers seg ! q"
      by (simp add: borrow_seg_def)
    moreover have "ring_order (lines h) seg q" using seg q by (simp add: seg_ok_def)
    ultimately show ?thesis by (simp add: ring_order_def w)
  qed
  then show ?thesis using seg by (simp add: seg_ok_def w) (simp add: borrow_seg_def)
qed

definition return_seg :: "fips_buf_header_t \<Rightarrow> nat \<Rightarrow> u16 \<Rightarrow> fips_segment \<Rightarrow> fips_segment" where
  "return_seg h r c seg = seg\<lparr>seg_readers := (seg_readers seg)[r := (seg_readers seg ! r)
     \<lparr>rd_ptr := (rd_ptr (seg_readers seg ! r))
       \<lparr>commit_offset := (commit_offset (rd_ptr (seg_readers seg ! r)) + ucast c)
          AND ucast (h_line_MASK h)\<rparr>\<rparr>]\<rparr>"

lemma unat_commit_mask:
  assumes "geo_ok h"
  shows "unat ((off + ucast (c :: u16)) AND ucast (h_line_MASK h) :: u32)
    = radd (lines h) (unat off) (unat c)"
proof -
  let ?k = "unat (h_line_count_exp h)"
  have k: "?k < 31" and m: "h_line_MASK h = mask ?k"
    using assms by (simp_all add: geo_ok_def mask_eq_exp_minus_1)
  have "(ucast (h_line_MASK h) :: u32) = mask ?k"
    unfolding m using k by (intro bit_word_eqI) (auto simp: bit_simps)
  then have "unat ((off + ucast c) AND ucast (h_line_MASK h) :: u32)
    = unat (off + ucast c :: u32) mod 2 ^ ?k" by (simp only: unat_mask_and)
  also have "\<dots> = (unat off + unat c) mod 2 ^ 32 mod 2 ^ ?k" by (simp add: unat_word_ariths)
  also have "\<dots> = (unat off + unat c) mod 2 ^ ?k"
    using k by (intro mod_mod_cancel le_imp_power_dvd) simp
  finally show ?thesis by (simp add: radd_def lines_def)
qed

text \<open>A return in order with nothing waiting in the list.\<close>

lemma buf_return_in_order:
  assumes s: "unat (rng_segment tag) < length (fb_segments shm)"
    and seg: "seg = fb_segments shm ! unat (rng_segment tag)"
    and r: "unat (rng_reader tag) < length (seg_readers seg)"
    and rd: "rd = seg_readers seg ! unat (rng_reader tag)"
    and ord: "commit_offset (rd_ptr rd) = rng_start tag" and emp: "list_first_offset (rd_list rd) = 0"
  shows "fips_buf_return tag shm = Some (FIPS_BUF_SUCCESS, put_seg shm (unat (rng_segment tag))
    (return_seg (fb_header shm) (unat (rng_reader tag)) (rng_count tag) seg))"
  using assms
  by (simp add: fips_buf_return_def fips_buf_list_add_sqe_def Let_def drain_sqes.simps put_seg_def
      return_seg_def)

lemma seg_ok_return:
  assumes geo: "geo_ok h" and seg: "seg_ok h seg" and r: "r < unat (h_reader_count h)"
    and c: "unat c \<le> rdist (lines h) (rd_commit seg r) (rd_head seg r)"
  shows "seg_ok h (return_seg h r c seg)"
proof -
  have rl: "r < length (seg_readers seg)" using seg r by (simp add: seg_ok_def)
  have w: "wr_commit (return_seg h r c seg) = wr_commit seg" "wr_head (return_seg h r c seg) = wr_head seg"
    by (simp_all add: return_seg_def)
  have "ring_order (lines h) (return_seg h r c seg) q" if q: "q < unat (h_reader_count h)" for q
  proof (cases "q = r")
    case True
    have o: "ring_order (lines h) seg r" using seg r by (simp add: seg_ok_def)
    let ?hd = "rd_head seg r" and ?cm = "rd_commit seg r"
    have p: "rd_head (return_seg h r c seg) r = ?hd"
      "rd_commit (return_seg h r c seg) r = radd (lines h) ?cm (unat c)"
      using rl unat_commit_mask [OF geo] by (simp_all add: return_seg_def)
    have "rdist (lines h) (radd (lines h) ?cm (unat c)) ?hd = rdist (lines h) ?cm ?hd - unat c"
      using o c by (intro rdist_radd_left) (simp_all add: ring_order_def)
    then show ?thesis using o c True by (simp add: ring_order_def p w radd_less less_imp_diff_less)
  next
    case False
    then have "seg_readers (return_seg h r c seg) ! q = seg_readers seg ! q"
      by (simp add: return_seg_def)
    moreover have "ring_order (lines h) seg q" using seg q by (simp add: seg_ok_def)
    ultimately show ?thesis by (simp add: ring_order_def w)
  qed
  then show ?thesis using seg by (simp add: seg_ok_def w) (simp add: return_seg_def)
qed

section \<open>Sequences of calls\<close>

text \<open>One step of any participant on segment \<open>s\<close>: the writer claims buffers, fills bytes of the
  data area, commits all it has claimed; a reader claims lines; a reader returns its oldest claimed
  lines. The calls are those of the code; a step also covers a call that is refused.\<close>

inductive ring_step :: "fips_shm \<Rightarrow> fips_shm \<Rightarrow> bool" where
  claim: "ring_step shm shm'"
    if "s < length (fb_segments shm)" and "0 < n" and "n < lines (fb_header shm)"
      and "fips_get_write_buffer ls s n shm = Some (rv, iov, shm')"
| fill: "ring_step shm (put_seg shm s ((fb_segments shm ! s)\<lparr>seg_data := d\<rparr>))"
    if "s < length (fb_segments shm)" and "mem_write (seg_data (fb_segments shm ! s)) pos bs = Some d"
| commit: "ring_step shm shm'"
    if "s < length (fb_segments shm)"
      and "length iov = rdist (lines (fb_header shm)) (wr_commit (fb_segments shm ! s))
        (wr_head (fb_segments shm ! s))"
      and "fips_buf_write s iov shm = Some (rv, shm')"
| read: "ring_step shm (put_seg shm s seg')"
    if "s < length (fb_segments shm)" and "r < unat (h_reader_count (fb_header shm))"
      and "0 < n" and "n < lines (fb_header shm)"
      and "reader_claim (h_line_MASK (fb_header shm)) n r (fb_segments shm ! s) = Some (Some (cur, seg'))"
| giveback: "ring_step shm shm'"
    if "unat (rng_segment tag) < length (fb_segments shm)"
      and "unat (rng_reader tag) < unat (h_reader_count (fb_header shm))"
      and "seg = fb_segments shm ! unat (rng_segment tag)"
      and "rd = seg_readers seg ! unat (rng_reader tag)"
      and "commit_offset (rd_ptr rd) = rng_start tag" and "list_first_offset (rd_list rd) = 0"
      and "unat (rng_count tag) \<le> rdist (lines (fb_header shm)) (rd_commit seg (unat (rng_reader tag)))
        (rd_head seg (unat (rng_reader tag)))"
      and "fips_buf_return tag shm = Some (rv, shm')"

lemma put_lengths_length: "put_lengths iov d = Some d' \<Longrightarrow> length d' = length d"
proof (induction iov arbitrary: d)
  case Nil
  then show ?case by simp
next
  case (Cons v iov)
  then obtain d1 where "mem_write d (fv_pos v - 2) (le16 (ucast (fv_len v))) = Some d1"
    "put_lengths iov d1 = Some d'" by (auto split: if_splits bind_splits)
  with Cons.IH mem_write_length show ?case by metis
qed

lemma ring_step_ok:
  assumes "ring_step shm shm'" and "fips_ok shm"
    and "h_flags (fb_header shm) AND FIPS_BUF_FLAG_OVERWRITE = 0"
  shows "fips_ok shm' \<and> fb_header shm' = fb_header shm
    \<and> length (fb_segments shm') = length (fb_segments shm)"
  using assms
proof (induction rule: ring_step.induct)
  case (claim s shm n ls rv iov shm')
  note seg = fips_ok_seg [OF claim.prems(1) claim.hyps(1)]
  show ?case
    using get_write_buffer_result [OF claim.prems(1) claim.hyps(1) claim.prems(2) claim.hyps(2,3)] claim
      fips_ok_put_seg seg_ok_claim seg by (auto split: if_splits)
next
  case (fill s shm pos bs d)
  have "seg_ok (fb_header shm) ((fb_segments shm ! s)\<lparr>seg_data := d\<rparr>)"
    using fips_ok_seg [OF fill.prems(1) fill.hyps(1)] mem_write_length [OF fill.hyps(2)]
    by (simp add: seg_ok_def ring_order_def)
  then show ?case using fill.prems(1) fips_ok_put_seg by simp
next
  case (commit s shm iov rv shm')
  note seg = fips_ok_seg [OF commit.prems(1) commit.hyps(1)]
  from commit.hyps(1,3) obtain d where d: "put_lengths iov (seg_data (fb_segments shm ! s)) = Some d"
    by (auto simp: fips_buf_write_def split: bind_splits)
  show ?case
    using buf_write_all [OF commit.prems(1) commit.hyps(1,2) d] commit.hyps(3) commit.prems(1)
      fips_ok_put_seg seg_ok_commit put_lengths_length [OF d] seg by auto
next
  case (read s shm r n cur seg')
  note seg = fips_ok_seg [OF read.prems(1) read.hyps(1)]
  then have "seg' = borrow_seg (fb_header shm) n r (fb_segments shm ! s)"
    "n \<le> rdist (lines (fb_header shm)) (rd_head (fb_segments shm ! s) r) (wr_commit (fb_segments shm ! s))"
    using reader_claim_result [of "fb_header shm" _ r n] read.hyps by (auto split: if_splits)
  then show ?case using seg read.hyps(2) read.prems(1) seg_ok_borrow fips_ok_put_seg by auto
next
  case (giveback tag shm seg rd rv shm')
  note seg = fips_ok_seg [OF giveback.prems(1) giveback.hyps(1)]
  have "unat (rng_reader tag) < length (seg_readers seg)"
    using seg giveback.hyps(2,3) by (simp add: seg_ok_def)
  from buf_return_in_order [OF giveback.hyps(1,3) this giveback.hyps(4-6)] giveback.hyps(8)
  have "shm' = put_seg shm (unat (rng_segment tag))
    (return_seg (fb_header shm) (unat (rng_reader tag)) (rng_count tag) seg)" by simp
  then show ?case
    using seg giveback.hyps(2,3,7) giveback.prems(1) seg_ok_return fips_ok_put_seg by auto
qed

section \<open>Start of the ring\<close>

lemma setup_fips_ok:
  assumes a: "unat (a_line_count_exp a) < 31"
    "2 ^ unat (a_line_count_exp a) * (unat (a_line_size a) + 2) < 2 ^ 32"
    and rc: "unat rc \<le> unat (a_max_reader_count a)"
    and shm: "shm = snd (setup_shm a zero_shm)"
  shows "fips_ok (shm\<lparr>fb_header := (fb_header shm)\<lparr>h_reader_count := rc\<rparr>\<rparr>)"
proof -
  have small: "unat (a_line_size a) + 2 < 2 ^ 32"
  proof -
    have "1 * (unat (a_line_size a) + 2) \<le> 2 ^ unat (a_line_count_exp a) * (unat (a_line_size a) + 2)"
      by (intro mult_le_mono1) simp
    from le_less_trans [OF this a(2)] show ?thesis by simp
  qed
  let ?h = "(setup_header a (fb_header zero_shm))\<lparr>h_initialized := 1, h_reader_count := rc\<rparr>"
  have shm_eq: "(fb_header shm)\<lparr>h_reader_count := rc\<rparr> = ?h"
    "fb_segments shm = setup_segments a (setup_header a (fb_header zero_shm)) 0 0
       (first_segment_offset (setup_header a (fb_header zero_shm))) (unat (a_max_segment_count a))"
    by (simp_all add: shm setup_shm_def zero_shm_def zero_header_def Let_def)
  have geo: "geo_ok ?h"
    using a small by (simp add: geo_ok_def lines_def) (simp add: setup_header_def Let_def)
  have l: "lines ?h = 2 ^ unat (a_line_count_exp a)" by (simp add: lines_def)
  have "seg_ok ?h seg" if "seg \<in> set (fb_segments shm)" for seg
  proof -
    from that obtain k where k: "k < unat (a_max_segment_count a)" "seg = fb_segments shm ! k"
      by (auto simp: in_set_conv_nth shm_eq(2))
    have first: "first_segment_offset (setup_header a (fb_header zero_shm))
      = FIPS_BUF_GET_SEGMENT_HEADER (setup_header a (fb_header zero_shm)) 0"
      by (simp add: FIPS_BUF_GET_SEGMENT_HEADER_def)
    from setup_segments_nth [OF k(1) first] k(2) have
      "sh_writer (seg_header seg) = zero_pointer"
      "seg_readers seg = replicate (unat (a_max_reader_count a)) (setup_reader a)"
      "length (seg_data seg) = data_area (a_line_count_exp a) (a_line_size a)"
      by (simp_all add: shm_eq(2))
    then show ?thesis
      using rc data_area_eq [OF a(1) small a(2)]
      by (simp add: seg_ok_def ring_order_def l zero_pointer_def setup_reader_def)
  qed
  with geo show ?thesis by (simp add: fips_ok_def shm_eq(1))
qed

end
