(* ===== verification/Fips_Channel.thy ===== *)
theory Fips_Channel
  imports Fips_Ring_Inv Message_Queue
begin

text \<open>
  One segment of the zero-copy buffer as a message queue. The writer claims a buffer, copies a
  message into it and commits it; a reader process claims the oldest committed line, takes the
  message out of the buffer and returns the range. These two compositions of the library calls are
  what a logger thread and a reader thread do for one line, and they implement the contract
  \<open>message_queue\<close>.
\<close>

section \<open>Lines as messages\<close>

definition width :: "fips_buf_header_t \<Rightarrow> nat" where
  "width h = unat (h_line_size h) + 2"

definition line_msg :: "bytes \<Rightarrow> bytes" where
  "line_msg l = take (le_nat (take 2 l)) (drop 2 l)"

definition seg_msg :: "fips_buf_header_t \<Rightarrow> fips_segment \<Rightarrow> nat \<Rightarrow> bytes" where
  "seg_msg h seg k = line_msg (slot (width h) (seg_data seg) k)"

text \<open>What reader process \<open>r\<close> has not claimed yet.\<close>

definition unread :: "fips_buf_header_t \<Rightarrow> nat \<Rightarrow> fips_segment \<Rightarrow> bytes list" where
  "unread h r seg = ring_list (lines h) (seg_msg h seg) (rd_head seg r) (wr_commit seg)"

section \<open>Sending and receiving one line\<close>

fun fips_put :: "fips_shm \<times> nat \<Rightarrow> bytes \<Rightarrow> (fips_shm \<times> nat) option" where
  "fips_put (shm, s) m =
     do {
       (rv, iov, shm1) \<leftarrow> fips_get_write_buffer (h_line_size (fb_header shm)) s 1 shm;
       if rv \<noteq> 0 then None
       else do {
         d \<leftarrow> mem_write (seg_data (fb_segments shm1 ! s)) (fv_pos (hd iov)) m;
         (rv2, shm2) \<leftarrow> fips_buf_write s [(hd iov)\<lparr>fv_len := word_of_nat (length m)\<rparr>]
            (put_seg shm1 s ((fb_segments shm1 ! s)\<lparr>seg_data := d\<rparr>));
         if rv2 \<noteq> 0 then None else Some (shm2, s)
       }
     }"

fun fips_get :: "nat \<Rightarrow> fips_shm \<times> nat \<Rightarrow> (bytes \<times> (fips_shm \<times> nat)) option" where
  "fips_get r (shm, s) =
     do {
       let h = fb_header shm;
       claim \<leftarrow> reader_claim (h_line_MASK h) 1 r (fb_segments shm ! s);
       (cur, seg') \<leftarrow> claim;
       iov \<leftarrow> get_iovecs (h_line_size h) (h_line_MASK h) cur [0] (seg_data seg');
       m \<leftarrow> mem_read (seg_data seg') (fv_pos (hd iov)) (unat (fv_len (hd iov)));
       (rv, shm') \<leftarrow> fips_buf_return \<lparr>rng_start = cur, rng_count = 1, rng_segment = word_of_nat s,
          rng_reader = word_of_nat r\<rparr> (put_seg shm s seg');
       Some (m, (shm', s))
     }"

fun fips_content :: "nat \<Rightarrow> fips_shm \<times> nat \<Rightarrow> bytes list" where
  "fips_content r (shm, s) = unread (fb_header shm) r (fb_segments shm ! s)"

fun fips_readers :: "fips_shm \<times> nat \<Rightarrow> nat" where
  "fips_readers (shm, s) = unat (h_reader_count (fb_header shm))"

fun fips_capacity :: "fips_shm \<times> nat \<Rightarrow> nat" where
  "fips_capacity (shm, s) = lines (fb_header shm) - 1"

text \<open>Between two calls of these compositions nothing is claimed and not returned, every stored
  length is within the line size.\<close>

definition quiet :: "fips_buf_header_t \<Rightarrow> fips_segment \<Rightarrow> bool" where
  "quiet h seg \<longleftrightarrow> commit_offset (sh_writer (seg_header seg)) = head_offset (sh_writer (seg_header seg))
     \<and> (\<forall>r < unat (h_reader_count h).
          commit_offset (rd_ptr (seg_readers seg ! r)) = head_offset (rd_ptr (seg_readers seg ! r))
          \<and> list_first_offset (rd_list (seg_readers seg ! r)) = 0)
     \<and> (\<forall>k < lines h. le_nat (take 2 (slot (width h) (seg_data seg) k)) \<le> unat (h_line_size h))"

fun fips_wf :: "fips_shm \<times> nat \<Rightarrow> bool" where
  "fips_wf (shm, s) \<longleftrightarrow> fips_ok shm \<and> s < length (fb_segments shm) \<and> s < 256
     \<and> h_flags (fb_header shm) AND FIPS_BUF_FLAG_OVERWRITE = 0 \<and> 1 < lines (fb_header shm)
     \<and> quiet (fb_header shm) (fb_segments shm ! s)"

fun fips_msg_ok :: "fips_shm \<times> nat \<Rightarrow> bytes \<Rightarrow> bool" where
  "fips_msg_ok (shm, s) m \<longleftrightarrow> length m \<le> unat (h_line_size (fb_header shm)) \<and> length m < 65536"

section \<open>Bytes of one line\<close>

lemma le_nat_le16: "le_nat (le16 x) = unat x"
proof -
  have "unat (ucast x :: u8) = unat x mod 256"
    by (simp add: unsigned_ucast_eq take_bit_eq_mod)
  moreover have "unat (ucast (drop_bit 8 x) :: u8) = unat x div 256"
  proof -
    have "unat (drop_bit 8 x) = drop_bit 8 (unat x)" by (rule unat_drop_bit_eq)
    then have "unat (drop_bit 8 x) = unat x div 256" by (simp only: drop_bit_eq_div) simp
    moreover have "unat x div 256 < 256" using unat_u16_less [of x] by (simp add: less_mult_imp_div_less)
    ultimately show ?thesis by (simp add: unsigned_ucast_eq take_bit_nat_eq_self)
  qed
  ultimately show ?thesis by (simp add: le16_def)
qed

lemma line_msg_written:
  assumes "length m < 65536" and "length m + 2 \<le> length l"
  shows "line_msg (le16 (word_of_nat (length m)) @ m @ drop (2 + length m) l) = m"
    and "le_nat (take 2 (le16 (word_of_nat (length m)) @ m @ drop (2 + length m) l)) = length m"
proof -
  have "unat (word_of_nat (length m) :: u16) = length m" using assms(1) by (simp add: unat_of_nat)
  moreover have "length (le16 x) = 2" for x by (simp add: le16_def)
  ultimately show "line_msg (le16 (word_of_nat (length m)) @ m @ drop (2 + length m) l) = m"
    and "le_nat (take 2 (le16 (word_of_nat (length m)) @ m @ drop (2 + length m) l)) = length m"
    by (simp_all add: line_msg_def le_nat_le16)
qed

text \<open>Writing the message and then its length into line \<open>k\<close>.\<close>

lemma write_line:
  assumes len: "length d = n * w" and k: "k < n" and m: "length m + 2 \<le> w" "length m < 65536"
  shows "\<exists>d1 d2. mem_write d (w * k + 2) m = Some d1
    \<and> mem_write d1 (w * k) (le16 (word_of_nat (length m))) = Some d2 \<and> length d2 = length d
    \<and> line_msg (slot w d2 k) = m \<and> le_nat (take 2 (slot w d2 k)) = length m
    \<and> (\<forall>j. j \<noteq> k \<longrightarrow> slot w d2 j = slot w d j)"
proof -
  have fits: "(k + 1) * w \<le> length d" using k unfolding len by (intro mult_le_mono1) simp
  have comm: "w * k = k * w" by simp
  obtain d1 where d1: "mem_write d (k * w + 2) m = Some d1"
    using fits m by (simp add: mem_write_def)
  have l1: "length d1 = length d" by (rule mem_write_length [OF d1])
  let ?b = "le16 (word_of_nat (length m))"
  have lb: "length ?b = 2" by (simp add: le16_def)
  obtain d2 where d2: "mem_write d1 (k * w + 0) ?b = Some d2"
    using fits m l1 lb by (simp add: mem_write_def)
  have l2: "length d2 = length d" using mem_write_length [OF d2] l1 by simp
  have s1: "slot w d1 k = take 2 (slot w d k) @ m @ drop (2 + length m) (slot w d k)"
    by (rule slot_write_part_same [OF d1 _ fits]) (use m in simp)
  have ls: "length (slot w d k) = w" by (rule length_slot [OF fits])
  have s2: "slot w d2 k = take 0 (slot w d1 k) @ ?b @ drop (0 + length ?b) (slot w d1 k)"
    by (rule slot_write_part_same [OF d2]) (use m lb fits l1 in simp_all)
  then have s2': "slot w d2 k = ?b @ m @ drop (2 + length m) (slot w d k)"
    using s1 ls m by (simp add: lb)
  have "slot w d2 j = slot w d j" if "j \<noteq> k" for j
  proof -
    have "slot w d2 j = slot w d1 j"
      by (rule slot_write_part_other [OF d2 _ that]) (use m lb in simp)
    also have "\<dots> = slot w d j"
      by (rule slot_write_part_other [OF d1 _ that]) (use m in simp)
    finally show ?thesis .
  qed
  with d1 d2 l2 line_msg_written [of m "slot w d k"] ls m show ?thesis
    unfolding comm by (intro exI [of _ d1] exI [of _ d2] conjI) (simp_all add: s2')
qed

section \<open>The composed calls\<close>

lemma put_seg_twice [simp]: "put_seg (put_seg shm s x) s y = put_seg shm s y"
  by (simp add: put_seg_def)

lemma ucast_of_nat_16: "(ucast (word_of_nat n :: u64) :: u16) = word_of_nat n"
  by (simp add: word_unat_eq_iff unsigned_ucast_eq unat_of_nat take_bit_eq_mod mod_mod_cancel)

lemma length_unread: "length (unread h r seg) = rdist (lines h) (rd_head seg r) (wr_commit seg)"
  by (simp add: unread_def)

lemma quiet_offsets:
  assumes "quiet h seg"
  shows "wr_commit seg = wr_head seg"
    and "r < unat (h_reader_count h) \<Longrightarrow> rd_commit seg r = rd_head seg r"
  using assms by (simp_all add: quiet_def)

lemma room_1_iff:
  assumes "seg_ok h seg" and "quiet h seg"
  shows "room h seg 1 \<longleftrightarrow> \<not> (\<exists>r < unat (h_reader_count h). length (unread h r seg) = lines h - 1)"
proof -
  have "rdist (lines h) (rd_commit seg r) (wr_head seg) + 1 < lines h \<longleftrightarrow>
      length (unread h r seg) \<noteq> lines h - 1" if r: "r < unat (h_reader_count h)" for r
  proof -
    have "rdist (lines h) (rd_head seg r) (wr_commit seg) < lines h"
      using assms(1) r by (intro rdist_less) (simp_all add: seg_ok_def ring_order_def)
    then show ?thesis using quiet_offsets [OF assms(2)] r by (simp add: length_unread) linarith
  qed
  then show ?thesis by (auto simp: room_def)
qed

text \<open>The segment after a message was sent.\<close>

lemma send_line:
  assumes geo: "geo_ok h" and seg: "seg_ok h seg" and q: "quiet h seg" and rm: "room h seg 1"
    and m: "length m \<le> unat (h_line_size h)" "length m < 65536"
    and d1: "mem_write (seg_data seg) (width h * wr_head seg + 2) m = Some d1"
    and d2: "mem_write d1 (width h * wr_head seg) (le16 (word_of_nat (length m))) = Some d2"
    and seg': "seg' = commit_seg d2 ((claim_seg h 1 seg)\<lparr>seg_data := d1\<rparr>)"
  shows "seg_ok h seg'" and "quiet h seg'"
    and "\<forall>r < unat (h_reader_count h). unread h r seg' = unread h r seg @ [m]"
proof -
  let ?k = "wr_head seg"
  have len: "length (seg_data seg) = lines h * width h" and k: "?k < lines h"
    using seg by (simp_all add: seg_ok_def width_def)
  have mw: "length m + 2 \<le> width h" using m(1) by (simp add: width_def)
  from write_line [OF len k mw m(2)] d1 d2 have
    w: "length d2 = length (seg_data seg)" "line_msg (slot (width h) d2 ?k) = m"
      "le_nat (take 2 (slot (width h) d2 ?k)) = length m"
      "\<forall>j. j \<noteq> ?k \<longrightarrow> slot (width h) d2 j = slot (width h) (seg_data seg) j" by auto
  have l1: "length d1 = length (seg_data seg)" by (rule mem_write_length [OF d1])
  have "seg_ok h (claim_seg h 1 seg)" by (rule seg_ok_claim [OF geo seg rm])
  then have "seg_ok h ((claim_seg h 1 seg)\<lparr>seg_data := d1\<rparr>)"
    using l1 by (simp add: seg_ok_def ring_order_def)
  then show "seg_ok h seg'" unfolding seg' by (rule seg_ok_commit) (use w(1) l1 in simp)
  have offs: "wr_commit seg' = radd (lines h) ?k 1" "seg_readers seg' = seg_readers seg"
    "seg_data seg' = d2"
    using geo by (simp_all add: seg' commit_seg_def)
  show "quiet h seg'"
  proof -
    have "le_nat (take 2 (slot (width h) d2 j)) \<le> unat (h_line_size h)" if "j < lines h" for j
      using w(3,4) m(1) q that by (cases "j = ?k") (auto simp: quiet_def)
    then show ?thesis using q offs by (simp add: quiet_def) (simp add: seg' commit_seg_def)
  qed
  show "\<forall>r < unat (h_reader_count h). unread h r seg' = unread h r seg @ [m]"
  proof (intro allI impI)
    fix r assume r: "r < unat (h_reader_count h)"
    have "ring_list (lines h) (seg_msg h seg') (rd_head seg r) (radd (lines h) ?k 1)
      = ring_list (lines h) (seg_msg h seg) (rd_head seg r) ?k @ [m]"
    proof (rule ring_list_snoc)
      show "rd_head seg r < lines h" "?k < lines h" using seg r by (simp_all add: seg_ok_def ring_order_def)
      show "rdist (lines h) (rd_head seg r) ?k + 1 < lines h"
        using rm r quiet_offsets(2) [OF q r] by (auto simp: room_def)
      show "seg_msg h seg' ?k = m" using w(2) by (simp add: seg_msg_def offs)
      show "seg_msg h seg' j = seg_msg h seg j" if "j \<noteq> ?k" for j
        using w(4) that by (simp add: seg_msg_def offs)
    qed
    then show "unread h r seg' = unread h r seg @ [m]"
      using quiet_offsets(1) [OF q] by (simp add: unread_def offs)
  qed
qed

lemma fips_put_cases:
  assumes wf: "fips_wf (shm, s)" and m: "fips_msg_ok (shm, s) m"
  shows "if \<exists>r < fips_readers (shm, s). length (fips_content r (shm, s)) = fips_capacity (shm, s)
    then fips_put (shm, s) m = None
    else \<exists>seg'. fips_put (shm, s) m = Some (put_seg shm s seg', s)
      \<and> seg_ok (fb_header shm) seg' \<and> quiet (fb_header shm) seg'
      \<and> (\<forall>r < fips_readers (shm, s).
          unread (fb_header shm) r seg' = fips_content r (shm, s) @ [m])"
proof -
  let ?h = "fb_header shm" and ?seg = "fb_segments shm ! s"
  have ok: "fips_ok shm" and s: "s < length (fb_segments shm)" and q: "quiet ?h ?seg"
    and mode: "h_flags ?h AND FIPS_BUF_FLAG_OVERWRITE = 0" and n: "0 < (1 :: nat)" "1 < lines ?h"
    and ml: "length m \<le> unat (h_line_size ?h)" "length m < 65536" using wf m by simp_all
  have geo: "geo_ok ?h" and seg: "seg_ok ?h ?seg" using fips_ok_seg [OF ok s] by auto
  note gwb = get_write_buffer_result [OF ok s mode n, of "h_line_size ?h"]
  show ?thesis
  proof (cases "room ?h ?seg 1")
    case False
    then have "fips_put (shm, s) m = None" using gwb by (simp add: fips_codes)
    then show ?thesis using False room_1_iff [OF seg q] by auto
  next
    case rm: True
    let ?k = "wr_head ?seg" and ?seg1 = "claim_seg ?h 1 ?seg"
    have k: "?k < lines ?h" and len: "length (seg_data ?seg) = lines ?h * width ?h"
      using seg by (simp_all add: seg_ok_def width_def)
    have pos: "line_pos (h_line_size ?h) (h_line_MASK ?h)
        (head_offset (sh_writer (seg_header ?seg))) 0 = width ?h * ?k + 2"
      unfolding line_pos_eq [OF geo] using k by (simp add: width_def)
    have mw: "length m + 2 \<le> width ?h" using ml(1) by (simp add: width_def)
    from write_line [OF len k mw ml(2)] obtain d1 d2 where
      d1: "mem_write (seg_data ?seg) (width ?h * ?k + 2) m = Some d1"
      and d2: "mem_write d1 (width ?h * ?k) (le16 (word_of_nat (length m))) = Some d2" by blast
    let ?seg2 = "?seg1\<lparr>seg_data := d1\<rparr>"
    note sl = send_line [OF geo seg q rm ml d1 d2 refl]
    have ok2: "fips_ok (put_seg shm s ?seg2)"
      using seg_ok_claim [OF geo seg rm] mem_write_length [OF d1]
      by (intro fips_ok_put_seg [OF ok]) (simp add: seg_ok_def ring_order_def)
    let ?v = "\<lparr>fv_pos = width ?h * ?k + 2, fv_len = word_of_nat (length m)\<rparr>"
    have "fips_buf_write s [?v] (put_seg shm s ?seg2)
      = Some (0, put_seg (put_seg shm s ?seg2) s (commit_seg d2 (fb_segments (put_seg shm s ?seg2) ! s)))"
    proof (rule buf_write_all [OF ok2])
      show "s < length (fb_segments (put_seg shm s ?seg2))" using s by simp
      have "wr_commit ?seg2 = ?k" "wr_head ?seg2 = radd (lines ?h) ?k 1"
        using quiet_offsets(1) [OF q] geo by (simp_all add: claim_seg_def unat_advance_radd)
      then show "length [?v] = rdist (lines (fb_header (put_seg shm s ?seg2)))
          (wr_commit (fb_segments (put_seg shm s ?seg2) ! s))
          (wr_head (fb_segments (put_seg shm s ?seg2) ! s))"
        using s k n by (simp add: rdist_radd)
      show "put_lengths [?v] (seg_data (fb_segments (put_seg shm s ?seg2) ! s)) = Some d2"
        using s d2 by (simp add: ucast_of_nat_16)
    qed
    then have "fips_put (shm, s) m = Some (put_seg shm s (commit_seg d2 ?seg2), s)"
      using gwb rm pos d1 s by simp
    then show ?thesis using rm room_1_iff [OF seg q] sl by auto
  qed
qed

text \<open>The segment after a message was received.\<close>

lemma receive_line:
  assumes geo: "geo_ok h" and seg: "seg_ok h seg" and q: "quiet h seg" and n: "1 < lines h"
    and r: "r < unat (h_reader_count h)" and ne: "unread h r seg \<noteq> []"
    and seg': "seg' = return_seg h r 1 (borrow_seg h 1 r seg)"
  shows "seg_ok h seg'" and "quiet h seg'"
    and "unread h r seg = seg_msg h seg (rd_head seg r) # unread h r seg'"
    and "\<forall>p < unat (h_reader_count h). p \<noteq> r \<longrightarrow> unread h p seg' = unread h p seg"
proof -
  let ?a = "rd_head seg r" and ?b = "wr_commit seg" and ?rd = "seg_readers seg ! r"
  have rl: "r < length (seg_readers seg)" using seg r by (simp add: seg_ok_def)
  have a: "?a < lines h" and b: "?b < lines h" using seg r by (simp_all add: seg_ok_def ring_order_def)
  have "1 \<le> length (unread h r seg)" using ne by (cases "unread h r seg") auto
  then have one: "1 \<le> rdist (lines h) ?a ?b" by (simp add: length_unread)
  have seg1: "seg_ok h (borrow_seg h 1 r seg)" by (rule seg_ok_borrow [OF geo seg r one])
  have rd1: "seg_readers (borrow_seg h 1 r seg) ! r = ?rd\<lparr>rd_ptr := (rd_ptr ?rd)
      \<lparr>head_offset := advance (h_line_MASK h) (head_offset (rd_ptr ?rd)) 1\<rparr>\<rparr>"
    using rl by (simp add: borrow_seg_def)
  have h1: "rd_head (borrow_seg h 1 r seg) r = radd (lines h) ?a 1"
    "rd_commit (borrow_seg h 1 r seg) r = ?a"
    using rd1 quiet_offsets(2) [OF q r] by (simp_all add: unat_advance_radd [OF geo])
  show "seg_ok h seg'"
    unfolding seg' by (rule seg_ok_return [OF geo seg1 r]) (use h1 a n in \<open>simp add: rdist_radd\<close>)
  have cm: "(head_offset (rd_ptr ?rd) + ucast (1 :: u16)) AND ucast (h_line_MASK h)
      = advance (h_line_MASK h) (head_offset (rd_ptr ?rd)) 1"
    using unat_commit_mask [OF geo, of "head_offset (rd_ptr ?rd)" 1]
    by (simp add: word_unat_eq_iff unat_advance_radd [OF geo])
  have rd': "seg_readers seg' ! p = (if p = r then ?rd\<lparr>rd_ptr := (rd_ptr ?rd)
      \<lparr>head_offset := advance (h_line_MASK h) (head_offset (rd_ptr ?rd)) 1,
       commit_offset := advance (h_line_MASK h) (head_offset (rd_ptr ?rd)) 1\<rparr>\<rparr>
      else seg_readers seg ! p)" for p
    using rl rd1 q r cm by (simp add: seg' return_seg_def borrow_seg_def quiet_def)
  have same: "seg_header seg' = seg_header seg" "seg_data seg' = seg_data seg"
    by (simp_all add: seg' return_seg_def borrow_seg_def)
  show "quiet h seg'" using q rd' by (simp add: quiet_def same)
  have ab: "?a \<noteq> ?b" using one by auto
  have "seg_msg h seg' = seg_msg h seg" by (simp add: seg_msg_def fun_eq_iff same)
  then show "unread h r seg = seg_msg h seg ?a # unread h r seg'"
    using ring_list_Cons [OF a b ab, of "seg_msg h seg"] rd'
    by (simp add: unread_def same unat_advance_radd [OF geo])
  show "\<forall>p < unat (h_reader_count h). p \<noteq> r \<longrightarrow> unread h p seg' = unread h p seg"
    using rd' \<open>seg_msg h seg' = seg_msg h seg\<close> by (simp add: unread_def same)
qed

text \<open>Reading the length and the contents of a line.\<close>

lemma read_line:
  assumes geo: "geo_ok h" and seg: "seg_ok h seg" and q: "quiet h seg" and a: "unat cur < lines h"
  shows "\<exists>v. get_iovecs (h_line_size h) (h_line_MASK h) cur [0] (seg_data seg) = Some [v]
    \<and> mem_read (seg_data seg) (fv_pos v) (unat (fv_len v)) = Some (seg_msg h seg (unat cur))"
proof -
  let ?d = "seg_data seg" and ?a = "unat cur" and ?w = "width h"
  have len: "length ?d = lines h * ?w" using seg by (simp add: seg_ok_def width_def)
  have pos: "line_pos (h_line_size h) (h_line_MASK h) cur 0 = ?w * ?a + 2"
    unfolding line_pos_eq [OF geo] using a by (simp add: width_def)
  have "(?a + 1) * ?w \<le> lines h * ?w" using a by (intro mult_le_mono1) simp
  then have fits: "?w * ?a + ?w \<le> length ?d" by (simp add: len algebra_simps)
  let ?l = "slot ?w ?d ?a" and ?n = "le_nat (take 2 (slot ?w ?d ?a))"
  have l: "?l = take ?w (drop (?w * ?a) ?d)" by (simp add: slot_def mult.commute)
  have "?n \<le> unat (h_line_size h)" using q a by (simp add: quiet_def)
  then have n: "?n + 2 \<le> ?w" by (simp add: width_def)
  have "take 2 (drop (?w * ?a) ?d) = take 2 ?l" using n by (simp add: l min_def)
  moreover have "mem_read ?d (?w * ?a) 2 = Some (take 2 (drop (?w * ?a) ?d))"
    using fits n by (simp add: mem_read_def)
  ultimately have rd: "mem_read ?d (?w * ?a) 2 = Some (take 2 ?l)" by simp
  have "?n < 256 ^ length (take 2 ?l)" by (rule le_nat_less)
  moreover have "(256 :: nat) ^ length (take 2 ?l) \<le> 256 ^ 2" by (intro power_increasing) simp_all
  ultimately have "?n < 65536" by simp
  then have un: "unat (word_of_nat ?n :: u64) = ?n" by (simp add: unat_of_nat)
  have "take k (drop 2 ?l) = take k (drop (?w * ?a + 2) ?d)" if "k + 2 \<le> ?w" for k
    using that by (simp add: l drop_take min_def add.commute)
  from this [OF n] have "take ?n (drop (?w * ?a + 2) ?d) = line_msg ?l" by (simp add: line_msg_def)
  moreover have "mem_read ?d (?w * ?a + 2) ?n = Some (take ?n (drop (?w * ?a + 2) ?d))"
    using fits n by (simp add: mem_read_def)
  ultimately have "mem_read ?d (?w * ?a + 2) ?n = Some (seg_msg h seg ?a)" by (simp add: seg_msg_def)
  then show ?thesis using rd un by (simp add: pos)
qed

lemma fips_get_cases:
  assumes wf: "fips_wf (shm, s)" and rr: "r < fips_readers (shm, s)"
  shows "case fips_content r (shm, s) of
      [] \<Rightarrow> fips_get r (shm, s) = None
    | l # ls \<Rightarrow> \<exists>seg'. fips_get r (shm, s) = Some (l, put_seg shm s seg', s)
      \<and> seg_ok (fb_header shm) seg' \<and> quiet (fb_header shm) seg'
      \<and> unread (fb_header shm) r seg' = ls
      \<and> (\<forall>p < fips_readers (shm, s). p \<noteq> r \<longrightarrow> unread (fb_header shm) p seg' = fips_content p (shm, s))"
proof -
  let ?h = "fb_header shm" and ?seg = "fb_segments shm ! s"
  have ok: "fips_ok shm" and s: "s < length (fb_segments shm)" "s < 256" and q: "quiet ?h ?seg"
    and n: "0 < (1 :: nat)" "1 < lines ?h" and r: "r < unat (h_reader_count ?h)" using wf rr by simp_all
  have geo: "geo_ok ?h" and seg: "seg_ok ?h ?seg" using fips_ok_seg [OF ok s(1)] by auto
  note claim = reader_claim_result [OF geo seg r n]
  show ?thesis
  proof (cases "unread ?h r ?seg")
    case Nil
    then have "\<not> 1 \<le> rdist (lines ?h) (rd_head ?seg r) (wr_commit ?seg)"
      using length_unread [of ?h r ?seg] by simp
    then show ?thesis using Nil claim by simp
  next
    case (Cons l ls)
    then have ne: "unread ?h r ?seg \<noteq> []" by simp
    have one: "1 \<le> rdist (lines ?h) (rd_head ?seg r) (wr_commit ?seg)"
      using Cons length_unread [of ?h r ?seg] by simp
    note rl = receive_line [OF geo seg q n(2) r ne refl]
    let ?cur = "head_offset (rd_ptr (seg_readers ?seg ! r))" and ?seg1 = "borrow_seg ?h 1 r ?seg"
    have a: "unat ?cur < lines ?h" using seg r by (simp add: seg_ok_def ring_order_def)
    have d: "seg_data ?seg1 = seg_data ?seg" by (simp add: borrow_seg_def)
    obtain v where v: "get_iovecs (h_line_size ?h) (h_line_MASK ?h) ?cur [0] (seg_data ?seg) = Some [v]"
      "mem_read (seg_data ?seg) (fv_pos v) (unat (fv_len v)) = Some (seg_msg ?h ?seg (unat ?cur))"
      using read_line [OF geo seg q a] by blast
    let ?tag = "\<lparr>rng_start = ?cur, rng_count = 1, rng_segment = word_of_nat s, rng_reader = word_of_nat r\<rparr>"
    have us: "unat (word_of_nat s :: u8) = s" using s(2) by (simp add: unat_of_nat)
    have ur: "unat (word_of_nat r :: u8) = r" using r unat_u8_less [of "h_reader_count ?h"]
      by (simp add: unat_of_nat)
    have rlen: "r < length (seg_readers ?seg)" using seg r by (simp add: seg_ok_def)
    have "fips_buf_return ?tag (put_seg shm s ?seg1) = Some (FIPS_BUF_SUCCESS,
        put_seg (put_seg shm s ?seg1) (unat (rng_segment ?tag))
          (return_seg (fb_header (put_seg shm s ?seg1)) (unat (rng_reader ?tag)) (rng_count ?tag) ?seg1))"
      by (rule buf_return_in_order [OF _ _ _ refl])
        (use s us ur rlen q r in \<open>simp_all add: quiet_def borrow_seg_def\<close>)
    then have "fips_get r (shm, s) = Some (seg_msg ?h ?seg (unat ?cur),
        put_seg shm s (return_seg ?h r 1 ?seg1), s)"
      using claim one v us ur d by (simp add: Let_def del: get_iovecs.simps)
    moreover have "l = seg_msg ?h ?seg (unat ?cur)" "ls = unread ?h r (return_seg ?h r 1 ?seg1)"
      using rl(3) Cons by simp_all
    ultimately show ?thesis using Cons rl by auto
  qed
qed

lemma fips_put_seg:
  assumes "fips_wf (shm, s)" and "seg_ok (fb_header shm) seg'" and "quiet (fb_header shm) seg'"
  shows "fips_wf (put_seg shm s seg', s)"
    and "fips_content r (put_seg shm s seg', s) = unread (fb_header shm) r seg'"
    and "fips_readers (put_seg shm s seg', s) = fips_readers (shm, s)"
    and "fips_capacity (put_seg shm s seg', s) = fips_capacity (shm, s)"
    and "fips_msg_ok (put_seg shm s seg', s) = fips_msg_ok (shm, s)"
  using assms fips_ok_put_seg by (auto simp: fun_eq_iff)

interpretation fips_chan: message_queue fips_put fips_get fips_content fips_readers fips_capacity
  fips_wf fips_msg_ok
proof
  fix st m st'
  assume a: "fips_wf st" "fips_msg_ok st m" "fips_put st m = Some st'"
  obtain shm s where st: "st = (shm, s)" by (cases st)
  from fips_put_cases [of shm s m] a st obtain seg' where
    "st' = (put_seg shm s seg', s)" "seg_ok (fb_header shm) seg'" "quiet (fb_header shm) seg'"
    "\<forall>r < fips_readers (shm, s). unread (fb_header shm) r seg' = fips_content r (shm, s) @ [m]"
    by (auto split: if_splits simp del: fips_content.simps fips_readers.simps fips_put.simps
        fips_wf.simps fips_msg_ok.simps fips_capacity.simps)
  then show "fips_wf st' \<and> fips_readers st' = fips_readers st \<and> fips_capacity st' = fips_capacity st
      \<and> fips_msg_ok st' = fips_msg_ok st
      \<and> (\<forall>r < fips_readers st. fips_content r st' = fips_content r st @ [m])"
    using a(1) unfolding st by (metis fips_put_seg)
next
  fix st m
  assume a: "fips_wf st" "fips_msg_ok st m"
  obtain shm s where st: "st = (shm, s)" by (cases st)
  from fips_put_cases [of shm s m] a
  show "fips_put st m = None \<longleftrightarrow> (\<exists>r < fips_readers st. length (fips_content r st) = fips_capacity st)"
    unfolding st by (auto split: if_splits simp del: fips_content.simps fips_readers.simps
        fips_put.simps fips_wf.simps fips_msg_ok.simps fips_capacity.simps)
next
  fix st r m st'
  assume a: "fips_wf st" "r < fips_readers st" "fips_get r st = Some (m, st')"
  obtain shm s where st: "st = (shm, s)" by (cases st)
  from fips_get_cases [of shm s r] a st obtain seg' ls where
    seg': "fips_content r (shm, s) = m # ls" "st' = (put_seg shm s seg', s)"
    "seg_ok (fb_header shm) seg'" "quiet (fb_header shm) seg'" "unread (fb_header shm) r seg' = ls"
    "\<forall>p < fips_readers (shm, s). p \<noteq> r \<longrightarrow> unread (fb_header shm) p seg' = fips_content p (shm, s)"
    by (auto split: list.splits simp del: fips_content.simps fips_readers.simps fips_get.simps
        fips_wf.simps)
  from a(1) st have wf: "fips_wf (shm, s)" by simp
  from fips_put_seg [OF wf seg'(3,4)] seg'
  show "fips_wf st' \<and> fips_readers st' = fips_readers st \<and> fips_capacity st' = fips_capacity st
      \<and> fips_msg_ok st' = fips_msg_ok st \<and> fips_content r st = m # fips_content r st'
      \<and> (\<forall>q < fips_readers st. q \<noteq> r \<longrightarrow> fips_content q st' = fips_content q st)"
    unfolding st by metis
next
  fix st r
  assume a: "fips_wf st" "r < fips_readers st"
  obtain shm s where st: "st = (shm, s)" by (cases st)
  from fips_get_cases [of shm s r] a show "fips_get r st = None \<longleftrightarrow> fips_content r st = []"
    unfolding st by (auto split: list.splits simp del: fips_content.simps fips_readers.simps
        fips_get.simps fips_wf.simps)
qed

end
