(* ===== verification/Fips_Assign.thy ===== *)
theory Fips_Assign
  imports Fips_Layout
begin

text \<open>
  The assignment of segments to threads in \<open>src/lib/fips_buf.c\<close>: \<open>get_reader_thread_count\<close>,
  \<open>get_writer_thread_count\<close>, \<open>reassaign_readers\<close>, \<open>fips_buf_attach\<close>,
  \<open>add_flag_affected_readers\<close>, \<open>fips_buf_detach\<close>, \<open>fips_buf_destroy\<close>,
  \<open>update_cached_reader_values\<close> and \<open>remove_cached_entries\<close>. All of them run under the
  assignment lock and are single steps. Array accesses are checked against the arrays of the
  memory layout; an access outside is \<open>None\<close>.
\<close>

section \<open>Counting\<close>

definition slot_in_use :: "fips_buf_assignment_t \<Rightarrow> bool" where
  "slot_in_use s \<longleftrightarrow> a_flags s AND 1 \<noteq> 0"

text \<open>The assignment slots of a reader process.\<close>

definition reader_slots :: "fips_shm \<Rightarrow> nat \<Rightarrow> fips_buf_assignment_t list option" where
  "reader_slots shm i =
     (let mt = unat (h_max_reader_thread_count (fb_header shm)) in
      if (i + 1) * mt \<le> length (reader_assignments shm)
      then Some (take mt (drop (i * mt) (reader_assignments shm))) else None)"

definition put_reader_slots :: "nat \<Rightarrow> fips_buf_assignment_t list \<Rightarrow> fips_shm \<Rightarrow> fips_shm" where
  "put_reader_slots i slots shm =
     (let mt = unat (h_max_reader_thread_count (fb_header shm)) in
      shm\<lparr>reader_assignments := take (i * mt) (reader_assignments shm) @ slots
            @ drop (i * mt + length slots) (reader_assignments shm)\<rparr>)"

definition get_reader_thread_count :: "fips_buf_assignment_t list \<Rightarrow> nat" where
  "get_reader_thread_count slots = length (filter slot_in_use slots)"

definition get_writer_thread_count :: "bytes \<Rightarrow> nat \<Rightarrow> nat" where
  "get_writer_thread_count wa sc = length (filter (\<lambda>b. b = FIPS_BUF_FLAG_IN_USE) (take sc wa))"

section \<open>Distributing segments\<close>

text \<open>The segments with a non-zero assignment byte. The code collects them in an array of as many
  elements as there are bytes equal to \<open>FIPS_BUF_FLAG_IN_USE\<close>.\<close>

definition active_segments :: "bytes \<Rightarrow> nat \<Rightarrow> nat list" where
  "active_segments wa sc = filter (\<lambda>j. wa ! j \<noteq> 0) [0 ..< sc]"

definition set_range :: "nat \<Rightarrow> nat \<Rightarrow> fips_buf_assignment_t \<Rightarrow> fips_buf_assignment_t" where
  "set_range start n s = s\<lparr>start_segment := word_of_nat start, a_count := word_of_nat n\<rparr>"

text \<open>More reader threads than writer threads: one segment per reader thread.\<close>

fun spread_readers :: "nat list \<Rightarrow> nat \<Rightarrow> nat \<Rightarrow> nat \<Rightarrow> int \<Rightarrow> fips_buf_assignment_t list \<Rightarrow>
    fips_buf_assignment_t list option" where
  "spread_readers act nw rpw assigned remainder [] = Some []"
| "spread_readers act nw rpw assigned remainder (s # ss) =
     (if \<not> slot_in_use s then map_option ((#) s) (spread_readers act nw rpw assigned remainder ss)
      else if assigned < nw * rpw then do {
        a \<leftarrow> nth_opt act (assigned div rpw);
        map_option ((#) (set_range a 1 s)) (spread_readers act nw rpw (assigned + 1) remainder ss)
      }
      else if remainder < 1 then None
      else do {
        a \<leftarrow> nth_opt act (nat (remainder - 1));
        map_option ((#) (set_range a 1 s)) (spread_readers act nw rpw (assigned + 1) (remainder - 1) ss)
      })"

text \<open>At least as many writer threads: consecutive blocks of segments, the first \<open>remainder\<close> reader
  threads get one more.\<close>

fun spread_writers :: "nat list \<Rightarrow> nat \<Rightarrow> nat \<Rightarrow> nat \<Rightarrow> fips_buf_assignment_t list \<Rightarrow>
    fips_buf_assignment_t list option" where
  "spread_writers act wpr assigned remainder [] = Some []"
| "spread_writers act wpr assigned remainder (s # ss) =
     (if \<not> slot_in_use s then map_option ((#) s) (spread_writers act wpr assigned remainder ss)
      else do {
        a \<leftarrow> nth_opt act assigned;
        let n = (if 0 < remainder then wpr + 1 else wpr);
        map_option ((#) (set_range a n s))
          (spread_writers act wpr (assigned + n) (remainder - 1) ss)
      })"

definition reassign_slots :: "bytes \<Rightarrow> nat \<Rightarrow> fips_buf_assignment_t list \<Rightarrow>
    fips_buf_assignment_t list option" where
  "reassign_slots wa sc slots =
     (let nw = get_writer_thread_count wa sc; nr = get_reader_thread_count slots in
      if nr < 1 then Some slots
      else if nw < 1
      then Some (map (\<lambda>s. if slot_in_use s then set_range 0 0 s else s) slots)
      else let act = active_segments wa sc in
        if nw < length act then None
        else if nw div nr < 1
        then spread_readers act nw (nr div nw) 0 (int (nr mod nw)) slots
        else spread_writers act (nw div nr) 0 (nw mod nr) slots)"

fun reassign_from :: "nat \<Rightarrow> nat \<Rightarrow> fips_shm \<Rightarrow> fips_shm option" where
  "reassign_from i 0 shm = Some shm"
| "reassign_from i (Suc n) shm =
     do {
       slots \<leftarrow> reader_slots shm i;
       slots' \<leftarrow> reassign_slots (writer_assignments shm) (unat (h_segment_count (fb_header shm))) slots;
       reassign_from (i + 1) n (put_reader_slots i slots' shm)
     }"

definition reassaign_readers :: "fips_shm \<Rightarrow> fips_shm option" where
  "reassaign_readers shm =
     (if length (writer_assignments shm) < unat (h_segment_count (fb_header shm)) then None
      else reassign_from 0 (unat (h_reader_count (fb_header shm))) shm)"

section \<open>Threads\<close>

text \<open>The thread argument. \<open>current_segment\<close> and \<open>assigned_index\<close> of a reader thread are parallel
  arrays; an entry is a segment number together with the reader slot of the own process in it, so
  one list of numbers is kept (\<open>None\<close> is a null pointer). For a writer thread the offset of its
  segment is kept.\<close>

record fips_buf_thread_arg_t =
  t_arg :: fips_buf_arg_t
  t_generation :: u64
  t_thread_index :: u8
  t_segment_offset :: nat
  t_cached :: "nat option list"
  t_assignment :: "nat option"
  t_assigned_reader_count :: u8
  t_trailing_buffers_count :: u8

text \<open>The segment that starts at an offset, and following \<open>next_offset\<close>.\<close>

definition segment_at :: "fips_shm \<Rightarrow> nat \<Rightarrow> fips_segment option" where
  "segment_at shm off =
     map_option ((!) (fb_segments shm))
       (find (\<lambda>k. FIPS_BUF_GET_SEGMENT_HEADER (fb_header shm) k = off) [0 ..< length (fb_segments shm)])"

fun follow_segments :: "fips_shm \<Rightarrow> nat \<Rightarrow> nat \<Rightarrow> nat option" where
  "follow_segments shm off 0 = Some off"
| "follow_segments shm off (Suc n) =
     do {
       seg \<leftarrow> segment_at shm off;
       follow_segments shm (next_offset (seg_header seg)) n
     }"

definition bump_generation :: "fips_shm \<Rightarrow> fips_shm" where
  "bump_generation shm = shm\<lparr>fb_header := (fb_header shm)
     \<lparr>h_assignment_generation := h_assignment_generation (fb_header shm) + 1\<rparr>\<rparr>"

text \<open>The first index below \<open>n\<close> without the property, or \<open>n\<close>.\<close>

definition scan_while :: "(nat \<Rightarrow> bool) \<Rightarrow> nat \<Rightarrow> nat" where
  "scan_while p n = length (takeWhile p [0 ..< n])"

definition attach_writer :: "fips_buf_thread_arg_t \<Rightarrow> fips_shm \<Rightarrow>
    (int \<times> fips_buf_thread_arg_t \<times> fips_shm) option" where
  "attach_writer t shm =
     do {
       let h = fb_header shm;
       let wa = writer_assignments shm;
       let i = scan_while (\<lambda>j. wa ! j \<noteq> FIPS_BUF_FLAG_FREE) (unat (h_segment_count h));
       b \<leftarrow> nth_opt wa i;
       if b \<noteq> FIPS_BUF_FLAG_FREE then Some (FIPS_BUF_ERROR_NO_FREE_SEGMENT, t, shm)
       else do {
         off \<leftarrow> follow_segments shm (first_segment_offset h) i;
         shm' \<leftarrow> reassaign_readers (shm\<lparr>writer_assignments := wa[i := FIPS_BUF_FLAG_IN_USE]\<rparr>);
         Some (0, t\<lparr>t_thread_index := word_of_nat i, t_segment_offset := off\<rparr>, bump_generation shm')
       }
     }"

definition attach_reader :: "fips_buf_thread_arg_t \<Rightarrow> fips_shm \<Rightarrow>
    (int \<times> fips_buf_thread_arg_t \<times> fips_shm) option" where
  "attach_reader t shm =
     do {
       let h = fb_header shm;
       let mt = unat (h_max_reader_thread_count h);
       let base = unat (a_reader_index (t_arg t)) * mt;
       let ra = reader_assignments shm;
       let i = scan_while (\<lambda>j. slot_in_use (ra ! (base + j))) mt;
       s \<leftarrow> nth_opt ra (base + i);
       if s \<noteq> zero_assignment then Some (FIPS_BUF_ERROR_NO_FREE_SEGMENT, t, shm)
       else do {
         shm' \<leftarrow> reassaign_readers (shm\<lparr>reader_assignments :=
                   ra[base + i := s\<lparr>a_flags := ucast FIPS_BUF_FLAG_IN_USE\<rparr>]\<rparr>);
         Some (0, t\<lparr>t_thread_index := word_of_nat i, t_assignment := Some (base + i),
                  t_cached := replicate (unat (h_segment_count h)) None\<rparr>, bump_generation shm')
       }
     }"

definition fips_buf_attach :: "fips_buf_thread_arg_t option \<Rightarrow> fips_shm \<Rightarrow>
    (int \<times> fips_buf_thread_arg_t option \<times> fips_shm) option" where
  "fips_buf_attach targ shm =
     (case targ of
        None \<Rightarrow> Some (FIPS_BUF_ERROR_UNINITIALIZED, None, shm)
      | Some t \<Rightarrow>
          if h_initialized (fb_header shm) = 0
          then Some (FIPS_BUF_ERROR_UNINITIALIZED, Some t, shm)
          else do {
            (rv, t', shm') \<leftarrow> (case a_role (t_arg t) of
                FIPS_WRITER \<Rightarrow> attach_writer t shm
              | FIPS_READER \<Rightarrow> attach_reader t shm);
            Some (rv, Some t', shm')
          })"

section \<open>Detaching\<close>

text \<open>The walk over the range of one reader thread: counts how often \<open>thread\<close> occurs among the
  first \<open>count\<close> segments in use from \<open>start\<close> on; the flag says that the range leaves the segments.\<close>

function range_hits :: "bytes \<Rightarrow> nat \<Rightarrow> nat \<Rightarrow> nat \<Rightarrow> nat \<Rightarrow> nat \<Rightarrow> bool \<times> nat" where
  "range_hits wa sc thread j c hits =
     (if c = 0 then (False, hits)
      else if sc \<le> j then (True, hits)
      else if wa ! j = 1
      then range_hits wa sc thread (j + 1) (c - 1) (if j = thread then hits + 1 else hits)
      else range_hits wa sc thread (j + 1) c hits)"
  by pat_completeness auto
termination by (relation "measure (\<lambda>(wa, sc, thread, j, c, hits). sc - j)") auto

declare range_hits.simps [simp del]

text \<open>The slots of one reader process; the flag says that a corrupted range ended the call. The
  slot whose range is corrupted keeps the flags that were set before.\<close>

fun flag_slots :: "bytes \<Rightarrow> nat \<Rightarrow> nat \<Rightarrow> u16 \<Rightarrow> nat \<Rightarrow> fips_buf_assignment_t list \<Rightarrow>
    bool \<times> nat \<times> fips_buf_assignment_t list" where
  "flag_slots wa sc thread fl affected [] = (False, affected, [])"
| "flag_slots wa sc thread fl affected (s # ss) =
     (if \<not> slot_in_use s
      then (case flag_slots wa sc thread fl affected ss of (c, n, ss') \<Rightarrow> (c, n, s # ss'))
      else case range_hits wa sc thread (unat (start_segment s)) (unat (a_count s)) 0 of
             (corrupted, k) \<Rightarrow>
               let s' = (if 0 < k then s\<lparr>a_flags := a_flags s OR fl\<rparr> else s) in
               if corrupted then (True, affected + k, s' # ss)
               else (case flag_slots wa sc thread fl (affected + k) ss of (c, n, ss') \<Rightarrow> (c, n, s' # ss')))"

fun add_flag_from :: "nat \<Rightarrow> nat \<Rightarrow> u16 \<Rightarrow> nat \<Rightarrow> nat \<Rightarrow> fips_shm \<Rightarrow> (int \<times> fips_shm) option" where
  "add_flag_from i thread fl affected 0 shm = Some (int affected, shm)"
| "add_flag_from i thread fl affected (Suc n) shm =
     do {
       slots \<leftarrow> reader_slots shm i;
       (case flag_slots (writer_assignments shm) (unat (h_segment_count (fb_header shm))) thread fl
               affected slots of
          (corrupted, k, slots') \<Rightarrow>
            if corrupted then Some (FIPS_BUF_ERROR_CORRUPTED, put_reader_slots i slots' shm)
            else add_flag_from (i + 1) thread fl k n (put_reader_slots i slots' shm))
     }"

definition add_flag_affected_readers :: "fips_shm \<Rightarrow> u8 \<Rightarrow> u16 \<Rightarrow> (int \<times> fips_shm) option" where
  "add_flag_affected_readers shm thread_index fl =
     add_flag_from 0 (unat thread_index) fl 0 (unat (h_reader_count (fb_header shm))) shm"

definition detach_writer :: "fips_buf_thread_arg_t \<Rightarrow> fips_shm \<Rightarrow>
    (fips_buf_thread_arg_t \<times> fips_shm) option" where
  "detach_writer t shm =
     do {
       (n, shm1) \<leftarrow> add_flag_affected_readers shm (t_thread_index t) (ucast FIPS_BUF_FLAG_TRAILING);
       if length (writer_assignments shm1) \<le> unat (t_thread_index t) then None
       else Some (t\<lparr>t_segment_offset := 0\<rparr>,
              shm1\<lparr>writer_assignments := (writer_assignments shm1)[unat (t_thread_index t) :=
                (if 0 < n then FIPS_BUF_FLAG_TRAILING else FIPS_BUF_FLAG_FREE)]\<rparr>)
     }"

definition detach_reader :: "fips_buf_thread_arg_t \<Rightarrow> fips_shm \<Rightarrow>
    (fips_buf_thread_arg_t \<times> fips_shm) option" where
  "detach_reader t shm =
     (case t_assignment t of
        None \<Rightarrow> None
      | Some i \<Rightarrow> if length (reader_assignments shm) \<le> i then None
          else Some (t, shm\<lparr>reader_assignments := (reader_assignments shm)[i := zero_assignment]\<rparr>))"

definition fips_buf_detach :: "fips_buf_thread_arg_t option \<Rightarrow> fips_shm \<Rightarrow>
    (int \<times> fips_buf_thread_arg_t option \<times> fips_shm) option" where
  "fips_buf_detach targ shm =
     (case targ of
        None \<Rightarrow> Some (FIPS_BUF_ERROR_UNINITIALIZED, None, shm)
      | Some t \<Rightarrow>
          if h_initialized (fb_header shm) = 0
          then Some (FIPS_BUF_ERROR_UNINITIALIZED, Some t, shm)
          else do {
            (t', shm1) \<leftarrow> (case a_role (t_arg t) of
                FIPS_WRITER \<Rightarrow> detach_writer t shm
              | FIPS_READER \<Rightarrow> detach_reader t shm);
            shm2 \<leftarrow> reassaign_readers shm1;
            Some (0, Some t', bump_generation shm2)
          })"

section \<open>Destroying\<close>

text \<open>The result says whether the object was removed.\<close>

definition destroy_finish :: "u8 \<Rightarrow> fips_shm \<Rightarrow> (int \<times> bool \<times> fips_shm) option" where
  "destroy_finish flags shm =
     do {
       shm' \<leftarrow> reassaign_readers shm;
       let h = fb_header shm';
       if flags AND FIPS_BUF_FLAG_RM_FORCE \<noteq> 0 \<or> (h_writer_count h = 0 \<and> h_reader_count h = 0)
       then Some (0, True, shm'\<lparr>fb_header := h\<lparr>h_initialized := 2\<rparr>\<rparr>)
       else Some (0, False, shm')
     }"

definition fips_buf_destroy :: "fips_buf_arg_t \<Rightarrow> u8 \<Rightarrow> fips_shm \<Rightarrow> (int \<times> bool \<times> fips_shm) option" where
  "fips_buf_destroy a flags shm =
     (let h = fb_header shm; force = flags AND FIPS_BUF_FLAG_FORCE \<noteq> 0 in
      if h_initialized h = 0 then Some (FIPS_BUF_ERROR_UNINITIALIZED, False, shm)
      else case a_role a of
        FIPS_WRITER \<Rightarrow>
          if 1 < get_writer_thread_count (writer_assignments shm) (unat (h_segment_count h)) \<and> \<not> force
          then Some (FIPS_BUF_ERROR_THREADS_STILL_ATTACHED, False, shm)
          else destroy_finish flags (shm\<lparr>fb_header := h\<lparr>h_writer_count := h_writer_count h - 1\<rparr>\<rparr>)
      | FIPS_READER \<Rightarrow> do {
          slots \<leftarrow> reader_slots shm (unat (a_reader_index a));
          if 1 < get_reader_thread_count slots \<and> \<not> force
          then Some (FIPS_BUF_ERROR_THREADS_STILL_ATTACHED, False, shm)
          else if length slots < unat (a_max_reader_thread_count a) then None
          else destroy_finish flags
            ((put_reader_slots (unat (a_reader_index a))
                (replicate (unat (a_max_reader_thread_count a)) zero_assignment
                   @ drop (unat (a_max_reader_thread_count a)) slots) shm)
             \<lparr>fb_header := h\<lparr>h_reader_count := h_reader_count h - 1\<rparr>\<rparr>)
        })"

section \<open>The cache of a reader thread\<close>

text \<open>The segments of an assignment: \<open>n\<close> segments in use from position \<open>j\<close> on. The flag is
  \<open>False\<close> when the search leaves the segments; the segments found before stay in the cache. The
  test comes after the access, so the byte behind the last segment can be looked at.\<close>

function collect_segments :: "bytes \<Rightarrow> nat \<Rightarrow> nat \<Rightarrow> nat \<Rightarrow> (bool \<times> nat list) option" where
  "collect_segments wa sc j n =
     (if n = 0 then Some (True, [])
      else if length wa \<le> j then None
      else if wa ! j = FIPS_BUF_FLAG_IN_USE
      then do {
        (ok, js) \<leftarrow> collect_segments wa sc (j + 1) (n - 1);
        Some (ok, j # js)
      }
      else if sc \<le> j + 1 then Some (False, [])
      else collect_segments wa sc (j + 1) n)"
  by pat_completeness auto
termination by (relation "measure (\<lambda>(wa, sc, j, n). length wa - j)") auto

declare collect_segments.simps [simp del]

text \<open>The trailing segments of the old cache are kept behind the assigned ones.\<close>

definition trailing_cached :: "fips_shm \<Rightarrow> fips_buf_thread_arg_t \<Rightarrow> nat option list option" where
  "trailing_cached shm t =
     (let n = unat (t_assigned_reader_count t) + unat (t_trailing_buffers_count t) in
      if length (t_cached t) < n \<or> None \<in> set (take n (t_cached t))
         \<or> (\<exists>s\<in>set (take n (t_cached t)). length (writer_assignments shm) \<le> the s)
      then None
      else Some (filter (\<lambda>s. writer_assignments shm ! the s = FIPS_BUF_FLAG_TRAILING)
                   (take n (t_cached t))))"

text \<open>The consistency check of the assigned segments: every one is at the offset of some segment.\<close>

fun assert_scan :: "fips_buf_header_t \<Rightarrow> nat \<Rightarrow> nat list \<Rightarrow> bool" where
  "assert_scan h off [] = True"
| "assert_scan h off (j # js) =
     (if off = FIPS_BUF_GET_SEGMENT_HEADER h j then True
      else if off < FIPS_BUF_GET_SEGMENT_HEADER h j then False
      else assert_scan h off js)"

definition assert_segment_headers :: "fips_buf_header_t \<Rightarrow> u8 \<Rightarrow> nat list \<Rightarrow> bool" where
  "assert_segment_headers h max_segment_count js =
     list_all (\<lambda>k. assert_scan h (FIPS_BUF_GET_SEGMENT_HEADER h k) [0 ..< unat max_segment_count]) js"

lemma assert_scan_ok: "i \<le> k \<Longrightarrow> assert_scan h (FIPS_BUF_GET_SEGMENT_HEADER h k) [i ..< n]"
proof (induction "n - i" arbitrary: i)
  case (Suc m)
  then have up: "[i ..< n] = i # [i + 1 ..< n]" by (simp add: upt_conv_Cons)
  have "FIPS_BUF_GET_SEGMENT_HEADER h i \<le> FIPS_BUF_GET_SEGMENT_HEADER h k"
    using Suc.prems by (simp add: FIPS_BUF_GET_SEGMENT_HEADER_def)
  moreover have "i \<noteq> k \<Longrightarrow> assert_scan h (FIPS_BUF_GET_SEGMENT_HEADER h k) [i + 1 ..< n]"
    using Suc by (intro Suc.hyps(1)) simp_all
  ultimately show ?case unfolding up by auto
qed simp

lemma assert_headers_ok: "assert_segment_headers h m js"
  by (simp add: assert_segment_headers_def list_all_iff assert_scan_ok)

definition update_cached_reader_values :: "fips_buf_thread_arg_t \<Rightarrow> fips_shm \<Rightarrow>
    (int \<times> fips_buf_thread_arg_t) option" where
  "update_cached_reader_values t shm =
     (case t_assignment t of
        None \<Rightarrow> Some (-1, t)
      | Some i \<Rightarrow> do {
          s \<leftarrow> nth_opt (reader_assignments shm) i;
          tmp \<leftarrow> trailing_cached shm t;
          let sc = unat (h_segment_count (fb_header shm));
          let t1 = t\<lparr>t_assigned_reader_count := ucast (a_count s)\<rparr>;
          (ok, js) \<leftarrow> collect_segments (writer_assignments shm) sc (unat (start_segment s))
                        (unat (a_count s));
          let cached = map Some js @ (if ok then tmp else []);
          let t2 = t1\<lparr>t_cached := cached @ replicate (sc - length cached) None\<rparr>;
          if sc < length cached then None
          else if \<not> ok then Some (FIPS_BUF_ERROR_CORRUPTED, t2)
          else if \<not> assert_segment_headers (fb_header shm) (a_max_segment_count (t_arg t)) js then None
          else Some (0, t2\<lparr>t_trailing_buffers_count := word_of_nat (length tmp),
                 t_generation := h_assignment_generation (fb_header shm)\<rparr>)
        })"

text \<open>\<open>memmove\<close> of the entries behind \<open>rotation\<close>; the last entry stays where it was. The number of
  entries to move is an \<open>int\<close> that becomes a \<open>size_t\<close>: when \<open>rotation\<close> is not below the number of
  cached entries it is negative and the move leaves the array.\<close>

definition remove_cached_entries :: "fips_buf_thread_arg_t \<Rightarrow> nat \<Rightarrow> fips_buf_thread_arg_t option" where
  "remove_cached_entries t rotation =
     (let n = unat (t_assigned_reader_count t) + unat (t_trailing_buffers_count t) in
      if rotation < unat (t_assigned_reader_count t) then Some t
      else if n \<le> rotation \<or> length (t_cached t) < n then None
      else Some (t\<lparr>t_cached := take rotation (t_cached t)
                 @ take (n - rotation - 1) (drop (rotation + 1) (t_cached t)) @ drop (n - 1) (t_cached t),
               t_trailing_buffers_count := t_trailing_buffers_count t - 1\<rparr>))"

section \<open>What an assignment stands for\<close>

definition in_use :: "bytes \<Rightarrow> nat \<Rightarrow> nat list" where
  "in_use wa sc = filter (\<lambda>j. wa ! j = FIPS_BUF_FLAG_IN_USE) [0 ..< sc]"

text \<open>The segments a reader thread reads: the next \<open>count\<close> segments in use from \<open>start_segment\<close>.\<close>

definition served :: "bytes \<Rightarrow> nat \<Rightarrow> fips_buf_assignment_t \<Rightarrow> nat list" where
  "served wa sc s = take (unat (a_count s))
     (filter (\<lambda>j. wa ! j = FIPS_BUF_FLAG_IN_USE) [unat (start_segment s) ..< sc])"

text \<open>No writer thread has detached with unread lines left behind.\<close>

definition no_trailing :: "bytes \<Rightarrow> nat \<Rightarrow> bool" where
  "no_trailing wa sc \<longleftrightarrow> sc \<le> length wa \<and> (\<forall>j < sc. wa ! j = 0 \<or> wa ! j = FIPS_BUF_FLAG_IN_USE)"

lemma filter_from_nth:
  assumes "xs = filter P [0 ..< n]" and "k < length xs"
  shows "filter P [xs ! k ..< n] = drop k xs"
proof -
  let ?x = "xs ! k"
  have "?x \<in> set xs" using assms(2) by simp
  then have x: "?x < n" "P ?x" using assms(1) by auto
  have split: "xs = filter P [0 ..< ?x] @ filter P [?x ..< n]"
  proof -
    have "[0 ..< n] = [0 ..< ?x] @ [?x ..< n]" using x(1) by (metis le0 less_imp_le_nat upt_add_eq_append le_add_diff_inverse)
    then show ?thesis using assms(1) by (simp add: filter_append [symmetric] del: filter_append)
  qed
  let ?m = "length (filter P [0 ..< ?x])"
  have "filter P [?x ..< n] = ?x # filter P [Suc ?x ..< n]" using x by (simp add: upt_conv_Cons)
  with split have "?m < length xs" "xs ! ?m = ?x"
    by (metis length_append length_Cons less_add_Suc1 add_Suc_right, metis nth_append_length)
  moreover have "distinct xs" using assms(1) by simp
  ultimately have "?m = k" using assms(2) nth_eq_iff_index_eq by blast
  then show ?thesis using split by (metis append_eq_conv_conj)
qed

lemma length_in_use: "sc \<le> length wa \<Longrightarrow> length (in_use wa sc) = get_writer_thread_count wa sc"
proof -
  assume sc: "sc \<le> length wa"
  have "map ((!) wa) [0 ..< sc] = take sc wa" using sc by (intro nth_equalityI) simp_all
  then have "filter (\<lambda>b. b = FIPS_BUF_FLAG_IN_USE) (take sc wa) = map ((!) wa) (in_use wa sc)"
    unfolding in_use_def by (simp add: filter_map comp_def flip: \<open>map ((!) wa) [0 ..< sc] = take sc wa\<close>)
  then show ?thesis by (simp add: get_writer_thread_count_def)
qed

lemma active_eq_in_use: "no_trailing wa sc \<Longrightarrow> active_segments wa sc = in_use wa sc"
  unfolding active_segments_def in_use_def no_trailing_def
  by (intro filter_cong) (auto simp: fips_flags)

lemma served_block:
  assumes "k < length (in_use wa sc)" and "n < 65536" and "sc < 2 ^ 32"
  shows "served wa sc (set_range (in_use wa sc ! k) n s) = take n (drop k (in_use wa sc))"
proof -
  have "in_use wa sc ! k \<in> set (in_use wa sc)" using assms(1) by simp
  then have "in_use wa sc ! k < sc" by (simp add: in_use_def)
  then have "unat (word_of_nat (in_use wa sc ! k) :: u32) = in_use wa sc ! k"
    using assms(3) by (simp add: unat_of_nat)
  moreover have "unat (word_of_nat n :: u16) = n" using assms(2) by (simp add: unat_of_nat)
  ultimately show ?thesis
    using filter_from_nth [OF in_use_def assms(1)] by (simp add: served_def set_range_def)
qed

lemma set_range_in_use [simp]: "slot_in_use (set_range a n s) = slot_in_use s"
  by (simp add: slot_in_use_def set_range_def)

section \<open>Distribution\<close>

lemma spread_writers_blocks:
  assumes "wpr + 1 < 65536" and "sc < 2 ^ 32" and "0 < wpr"
    and "act = in_use wa sc"
    and "m = length (filter slot_in_use slots)" and "rem \<le> m"
    and "assigned + m * wpr + rem = length act"
  shows "\<exists>slots'. spread_writers act wpr assigned rem slots = Some slots'
    \<and> map slot_in_use slots' = map slot_in_use slots
    \<and> concat (map (served wa sc) (filter slot_in_use slots')) = drop assigned act
    \<and> (\<forall>s\<in>set (filter slot_in_use slots'). a_count s = word_of_nat wpr \<or> a_count s = word_of_nat (wpr + 1))"
  using assms(5-7)
proof (induction slots arbitrary: assigned rem m)
  case Nil
  then show ?case by simp
next
  case (Cons s ss)
  show ?case
  proof (cases "slot_in_use s")
    case False
    then have "m = length (filter slot_in_use ss)" using Cons.prems(1) by simp
    with Cons.IH [OF this Cons.prems(2,3)] False show ?thesis by auto
  next
    case True
    define n where "n = (if 0 < rem then wpr + 1 else wpr)"
    define m' where "m' = length (filter slot_in_use ss)"
    have m: "m = Suc m'" using Cons.prems(1) True by (simp add: m'_def)
    have lt: "assigned < length act" using Cons.prems(3) m assms(3) by simp
    have "assigned + n + m' * wpr + (rem - 1) = length act"
      using Cons.prems(2,3) m by (auto simp: n_def)
    moreover have "rem - 1 \<le> m'" using Cons.prems(2) m by simp
    ultimately obtain ss' where ss': "spread_writers act wpr (assigned + n) (rem - 1) ss = Some ss'"
      "map slot_in_use ss' = map slot_in_use ss"
      "concat (map (served wa sc) (filter slot_in_use ss')) = drop (assigned + n) act"
      "\<forall>s\<in>set (filter slot_in_use ss'). a_count s = word_of_nat wpr \<or> a_count s = word_of_nat (wpr + 1)"
      using Cons.IH [OF m'_def] by blast
    have "served wa sc (set_range (act ! assigned) n s) = take n (drop assigned act)"
      using lt assms(1,2) unfolding assms(4) by (intro served_block) (auto simp: n_def)
    moreover have "take n (drop assigned act) @ drop (assigned + n) act = drop assigned act"
      by (metis append_take_drop_id drop_drop add.commute)
    moreover have "a_count (set_range (act ! assigned) n s) = word_of_nat wpr
        \<or> a_count (set_range (act ! assigned) n s) = word_of_nat (wpr + 1)"
      by (simp add: set_range_def n_def)
    ultimately show ?thesis
      using True ss' lt by (auto simp: n_def [symmetric] Let_def)
  qed
qed

definition pick :: "nat \<Rightarrow> nat \<Rightarrow> nat \<Rightarrow> nat" where
  "pick nw nr q = (if q < nw * (nr div nw) then q div (nr div nw) else nr - 1 - q)"

lemma pick_less:
  assumes "0 < nw" and "nw \<le> nr" and "q < nr"
  shows "pick nw nr q < nw"
proof (cases "q < nw * (nr div nw)")
  case True
  then show ?thesis using assms by (simp add: pick_def less_mult_imp_div_less)
next
  case False
  moreover have "nr = nw * (nr div nw) + nr mod nw" by simp
  moreover have "nr mod nw < nw" using assms(1) by simp
  ultimately have "nr - 1 - q < nw" by linarith
  then show ?thesis using False by (simp add: pick_def)
qed

lemma pick_surj:
  assumes "0 < nw" and "nw \<le> nr" and "a < nw"
  shows "\<exists>q < nr. pick nw nr q = a"
proof -
  have r: "0 < nr div nw" using assms by (simp add: div_greater_zero_iff)
  let ?q = "a * (nr div nw)"
  have "?q < nw * (nr div nw)" using assms(3) r by simp
  moreover have "nw * (nr div nw) \<le> nr" by simp
  ultimately have "?q < nr" "pick nw nr ?q = a" using r by (linarith, simp add: pick_def)
  then show ?thesis by blast
qed

lemma spread_readers_picks:
  assumes act: "act = in_use wa sc" and sc: "sc < 2 ^ 32" and nw: "nw = length act" "0 < nw" "nw \<le> nr"
    and "m = length (filter slot_in_use slots)" and "assigned + m = nr"
    and "remainder = int (nr - max assigned (nw * (nr div nw)))"
  shows "\<exists>slots'. spread_readers act nw (nr div nw) assigned remainder slots = Some slots'
    \<and> map slot_in_use slots' = map slot_in_use slots
    \<and> map (served wa sc) (filter slot_in_use slots') = map (\<lambda>q. [act ! pick nw nr q]) [assigned ..< nr]"
  using assms(6-8)
proof (induction slots arbitrary: assigned remainder m)
  case Nil
  then show ?case by simp
next
  case (Cons s ss)
  show ?case
  proof (cases "slot_in_use s")
    case False
    then have "m = length (filter slot_in_use ss)" using Cons.prems(1) by simp
    with Cons.IH [OF this Cons.prems(2,3)] False show ?thesis by auto
  next
    case True
    define m' where "m' = length (filter slot_in_use ss)"
    have m: "m = Suc m'" using Cons.prems(1) True by (simp add: m'_def)
    then have q: "assigned < nr" "assigned + 1 + m' = nr" using Cons.prems(2) by simp_all
    have p: "pick nw nr assigned < nw" by (rule pick_less [OF nw(2,3) q(1)])
    have bl: "served wa sc (set_range (act ! pick nw nr assigned) 1 s) = [act ! pick nw nr assigned]"
      using p nw(1) sc unfolding act
      by (subst served_block) (simp_all add: take_Suc hd_drop_conv_nth)
    have up: "[assigned ..< nr] = assigned # [assigned + 1 ..< nr]" using q(1) by (simp add: upt_conv_Cons)
    show ?thesis
    proof (cases "assigned < nw * (nr div nw)")
      case lt: True
      have "remainder = int (nr - max (assigned + 1) (nw * (nr div nw)))"
        using Cons.prems(3) lt by (simp add: max_def)
      from Cons.IH [OF m'_def q(2) this] obtain ss' where
        "spread_readers act nw (nr div nw) (assigned + 1) remainder ss = Some ss'"
        "map slot_in_use ss' = map slot_in_use ss"
        "map (served wa sc) (filter slot_in_use ss')
          = map (\<lambda>q. [act ! pick nw nr q]) [assigned + 1 ..< nr]" by blast
      moreover have "pick nw nr assigned = assigned div (nr div nw)" using lt by (simp add: pick_def)
      ultimately show ?thesis using True lt p nw(1) bl up by simp
    next
      case ge: False
      have "remainder = int (nr - assigned)" using Cons.prems(3) ge by (simp add: max_def)
      then have rem: "\<not> remainder < 1" "nat (remainder - 1) = pick nw nr assigned"
        "remainder - 1 = int (nr - max (assigned + 1) (nw * (nr div nw)))"
        using q ge by (auto simp: pick_def max_def)
      from Cons.IH [OF m'_def q(2) rem(3)] obtain ss' where
        "spread_readers act nw (nr div nw) (assigned + 1) (remainder - 1) ss = Some ss'"
        "map slot_in_use ss' = map slot_in_use ss"
        "map (served wa sc) (filter slot_in_use ss')
          = map (\<lambda>q. [act ! pick nw nr q]) [assigned + 1 ..< nr]" by blast
      then show ?thesis using True ge rem(1,2) p nw(1) bl up by simp
    qed
  qed
qed

end
