(* ===== verification/Fips_Assign_Props.thy ===== *)
theory Fips_Assign_Props
  imports Fips_Assign
begin

text \<open>
  Properties of the segment assignment: how the segments in use are distributed over the reader
  threads of a process, that a reader thread's cache is exactly its share, what attaching gives a
  thread, and the cases in which the code leaves its arrays.
\<close>

section \<open>Reassignment of one reader process\<close>

lemma reassign_slots_writers:
  assumes nt: "no_trailing wa sc" and sc: "sc < 256"
    and nr: "nr = get_reader_thread_count slots" "1 \<le> nr" and le: "nr \<le> get_writer_thread_count wa sc"
  shows "\<exists>slots'. reassign_slots wa sc slots = Some slots'
    \<and> map slot_in_use slots' = map slot_in_use slots
    \<and> concat (map (served wa sc) (filter slot_in_use slots')) = in_use wa sc
    \<and> (\<forall>s\<in>set (filter slot_in_use slots').
        a_count s = word_of_nat (get_writer_thread_count wa sc div nr)
        \<or> a_count s = word_of_nat (get_writer_thread_count wa sc div nr + 1))"
proof -
  let ?nw = "get_writer_thread_count wa sc"
  have act: "active_segments wa sc = in_use wa sc" by (rule active_eq_in_use [OF nt])
  have len: "length (in_use wa sc) = ?nw" using nt length_in_use by (simp add: no_trailing_def)
  have "?nw \<le> sc" unfolding len [symmetric] in_use_def by (metis length_filter_le length_upt minus_nat.diff_0)
  then have big: "?nw div nr + 1 < 65536" using sc div_le_dividend [of ?nw nr] by linarith
  have wpr: "0 < ?nw div nr" using le nr(2) by (simp add: div_greater_zero_iff)
  have "\<exists>slots'. spread_writers (in_use wa sc) (?nw div nr) 0 (?nw mod nr) slots = Some slots'
    \<and> map slot_in_use slots' = map slot_in_use slots
    \<and> concat (map (served wa sc) (filter slot_in_use slots')) = drop 0 (in_use wa sc)
    \<and> (\<forall>s\<in>set (filter slot_in_use slots'). a_count s = word_of_nat (?nw div nr)
        \<or> a_count s = word_of_nat (?nw div nr + 1))"
  proof (rule spread_writers_blocks [OF big _ wpr refl])
    show "sc < 2 ^ 32" using sc by simp
    show "nr = length (filter slot_in_use slots)" using nr(1) by (simp add: get_reader_thread_count_def)
    show "?nw mod nr \<le> nr" using nr(2) by (simp add: less_imp_le)
    show "0 + nr * (?nw div nr) + ?nw mod nr = length (in_use wa sc)" by (simp add: len)
  qed
  then show ?thesis using nr le len wpr by (simp add: reassign_slots_def Let_def act)
qed

lemma reassign_slots_readers:
  assumes nt: "no_trailing wa sc" and sc: "sc < 256" and nw: "1 \<le> get_writer_thread_count wa sc"
    and nr: "nr = get_reader_thread_count slots" and lt: "get_writer_thread_count wa sc < nr"
  shows "\<exists>slots'. reassign_slots wa sc slots = Some slots'
    \<and> map slot_in_use slots' = map slot_in_use slots
    \<and> map (served wa sc) (filter slot_in_use slots')
      = map (\<lambda>q. [in_use wa sc ! pick (get_writer_thread_count wa sc) nr q]) [0 ..< nr]"
proof -
  let ?nw = "get_writer_thread_count wa sc"
  have act: "active_segments wa sc = in_use wa sc" by (rule active_eq_in_use [OF nt])
  have len: "length (in_use wa sc) = ?nw" using nt length_in_use by (simp add: no_trailing_def)
  have "\<exists>slots'. spread_readers (in_use wa sc) ?nw (nr div ?nw) 0 (int (nr mod ?nw)) slots = Some slots'
    \<and> map slot_in_use slots' = map slot_in_use slots
    \<and> map (served wa sc) (filter slot_in_use slots')
      = map (\<lambda>q. [in_use wa sc ! pick ?nw nr q]) [0 ..< nr]"
  proof (rule spread_readers_picks [OF refl])
    show "sc < 2 ^ 32" using sc by simp
    show "nr = length (filter slot_in_use slots)" using nr by (simp add: get_reader_thread_count_def)
    have "nr - ?nw * (nr div ?nw) = nr mod ?nw" by (rule minus_mult_div_eq_mod)
    then show "int (nr mod ?nw) = int (nr - max 0 (?nw * (nr div ?nw)))" by simp
  qed (use nw lt len in simp_all)
  then show ?thesis using nr nw lt len by (simp add: reassign_slots_def Let_def act)
qed

text \<open>With at least as many writer threads as reader threads, the reader threads of a process
  share the segments in use: the ranges they get, read in order, are exactly the list of the
  segments in use, so every segment has one reader thread and no thread reads a free segment; the
  shares differ by at most one.\<close>

theorem reassign_partitions_segments:
  assumes "no_trailing wa sc" and "sc < 256" and "1 \<le> get_reader_thread_count slots"
    and "get_reader_thread_count slots \<le> get_writer_thread_count wa sc"
  shows "\<exists>slots'. reassign_slots wa sc slots = Some slots'
    \<and> map slot_in_use slots' = map slot_in_use slots
    \<and> concat (map (served wa sc) (filter slot_in_use slots')) = in_use wa sc
    \<and> (\<forall>s\<in>set (filter slot_in_use slots'). \<forall>s'\<in>set (filter slot_in_use slots').
        unat (a_count s) \<le> unat (a_count s') + 1)"
proof -
  let ?k = "get_writer_thread_count wa sc div get_reader_thread_count slots"
  have "get_writer_thread_count wa sc \<le> sc"
    unfolding get_writer_thread_count_def by (metis length_filter_le length_take min.cobounded2 order_trans)
  then have "?k + 1 < 65536"
    using assms(2) div_le_dividend [of "get_writer_thread_count wa sc" "get_reader_thread_count slots"]
    by linarith
  then have u: "unat (word_of_nat ?k :: u16) = ?k" "unat (word_of_nat (?k + 1) :: u16) = ?k + 1"
    by (simp_all add: unat_of_nat del: of_nat_add of_nat_Suc)
  obtain slots' where s': "reassign_slots wa sc slots = Some slots'"
    "map slot_in_use slots' = map slot_in_use slots"
    "concat (map (served wa sc) (filter slot_in_use slots')) = in_use wa sc"
    and n: "\<forall>s\<in>set (filter slot_in_use slots'). a_count s = word_of_nat ?k \<or> a_count s = word_of_nat (?k + 1)"
    using reassign_slots_writers [OF assms(1,2) refl assms(3,4)] by blast
  have "\<forall>s\<in>set (filter slot_in_use slots'). ?k \<le> unat (a_count s) \<and> unat (a_count s) \<le> ?k + 1"
    using n u by (metis le_add1 order_refl)
  then have "\<forall>s\<in>set (filter slot_in_use slots'). \<forall>s'\<in>set (filter slot_in_use slots').
      unat (a_count s) \<le> unat (a_count s') + 1" by (meson add_le_mono1 order_trans)
  with s' show ?thesis by blast
qed

definition demo_slots :: "nat \<Rightarrow> fips_buf_assignment_t list" where
  "demo_slots n = replicate n (zero_assignment\<lparr>a_flags := 1\<rparr>) @ [zero_assignment]"

theorem reassign_partitions_segments_witness:
  "\<exists>slots'. reassign_slots [1, 0, 1, 1, 0, 0, 0, 0] 4 (demo_slots 2) = Some slots'
    \<and> concat (map (served [1, 0, 1, 1, 0, 0, 0, 0] 4) (filter slot_in_use slots')) = [0, 2, 3]"
proof -
  let ?wa = "[1, 0, 1, 1, 0, 0, 0, 0] :: bytes"
  have "\<forall>j < 4. ?wa ! j = 0 \<or> ?wa ! j = FIPS_BUF_FLAG_IN_USE"
    by (simp add: fips_flags less_Suc_eq numeral_eq_Suc)
  then have "no_trailing ?wa 4" by (simp add: no_trailing_def)
  moreover have "in_use ?wa 4 = [0, 2, 3]" "get_reader_thread_count (demo_slots 2) = 2"
    "get_writer_thread_count ?wa 4 = 3" by code_simp+
  ultimately show ?thesis using reassign_partitions_segments [of ?wa 4 "demo_slots 2"] by auto
qed

text \<open>With more reader threads than writer threads every reader thread gets exactly one segment
  in use and every segment in use has at least one reader thread.\<close>

theorem reassign_covers_segments:
  assumes nt: "no_trailing wa sc" and sc: "sc < 256" and nw: "1 \<le> get_writer_thread_count wa sc"
    and lt: "get_writer_thread_count wa sc < get_reader_thread_count slots"
  shows "\<exists>slots'. reassign_slots wa sc slots = Some slots'
    \<and> map slot_in_use slots' = map slot_in_use slots
    \<and> (\<forall>s\<in>set (filter slot_in_use slots'). \<exists>a\<in>set (in_use wa sc). served wa sc s = [a])
    \<and> (\<forall>a\<in>set (in_use wa sc). \<exists>s\<in>set (filter slot_in_use slots'). served wa sc s = [a])"
proof -
  let ?nw = "get_writer_thread_count wa sc" and ?nr = "get_reader_thread_count slots"
  have len: "length (in_use wa sc) = ?nw" using nt length_in_use by (simp add: no_trailing_def)
  have n: "0 < ?nw" "?nw \<le> ?nr" using nw lt by simp_all
  obtain slots' where s': "reassign_slots wa sc slots = Some slots'"
    "map slot_in_use slots' = map slot_in_use slots"
    and served: "map (served wa sc) (filter slot_in_use slots')
      = map (\<lambda>q. [in_use wa sc ! pick ?nw ?nr q]) [0 ..< ?nr]"
    using reassign_slots_readers [OF nt sc nw refl lt] by blast
  have img: "served wa sc ` set (filter slot_in_use slots')
    = (\<lambda>q. [in_use wa sc ! pick ?nw ?nr q]) ` {..< ?nr}"
    using arg_cong [OF served, of set] by (simp only: set_map set_upt atLeast0LessThan)
  have "\<exists>a\<in>set (in_use wa sc). served wa sc s = [a]" if "s \<in> set (filter slot_in_use slots')" for s
  proof -
    from that have "served wa sc s \<in> served wa sc ` set (filter slot_in_use slots')" by (rule imageI)
    then obtain q where "q < ?nr" "served wa sc s = [in_use wa sc ! pick ?nw ?nr q]"
      unfolding img by auto
    then show ?thesis using pick_less [OF n] len by auto
  qed
  moreover have "\<exists>s\<in>set (filter slot_in_use slots'). served wa sc s = [a]" if "a \<in> set (in_use wa sc)" for a
  proof -
    from that obtain i where i: "i < ?nw" "a = in_use wa sc ! i" by (metis in_set_conv_nth len)
    from pick_surj [OF n i(1)] obtain q where "q < ?nr" "pick ?nw ?nr q = i" by blast
    with i(2) have "[a] \<in> (\<lambda>q. [in_use wa sc ! pick ?nw ?nr q]) ` {..< ?nr}" by auto
    then show ?thesis unfolding img [symmetric] by auto
  qed
  ultimately show ?thesis using s' by blast
qed

theorem reassign_covers_segments_witness:
  "\<exists>slots'. reassign_slots [1, 0, 1, 0, 0, 0, 0, 0] 4 (demo_slots 3) = Some slots'
    \<and> (\<exists>s\<in>set (filter slot_in_use slots'). served [1, 0, 1, 0, 0, 0, 0, 0] 4 s = [0])
    \<and> (\<exists>s\<in>set (filter slot_in_use slots'). served [1, 0, 1, 0, 0, 0, 0, 0] 4 s = [2])"
proof -
  let ?wa = "[1, 0, 1, 0, 0, 0, 0, 0] :: bytes"
  have "\<forall>j < 4. ?wa ! j = 0 \<or> ?wa ! j = FIPS_BUF_FLAG_IN_USE"
    by (simp add: fips_flags less_Suc_eq numeral_eq_Suc)
  then have nt: "no_trailing ?wa 4" by (simp add: no_trailing_def)
  have c: "in_use ?wa 4 = [0, 2]" "get_reader_thread_count (demo_slots 3) = 3"
    "get_writer_thread_count ?wa 4 = 2" by code_simp+
  from reassign_covers_segments [OF nt, of "demo_slots 3"] c
  obtain slots' where "reassign_slots ?wa 4 (demo_slots 3) = Some slots'"
    "\<forall>a\<in>set (in_use ?wa 4). \<exists>s\<in>set (filter slot_in_use slots'). served ?wa 4 s = [a]" by auto
  then show ?thesis unfolding c(1) by simp
qed

section \<open>The cache of a reader thread\<close>

lemma collect_segments_served:
  assumes "sc \<le> length wa"
    and "n \<le> length (filter (\<lambda>j. wa ! j = FIPS_BUF_FLAG_IN_USE) [j ..< sc])"
  shows "collect_segments wa sc j n
    = Some (True, take n (filter (\<lambda>j. wa ! j = FIPS_BUF_FLAG_IN_USE) [j ..< sc]))"
  using assms
proof (induction wa sc j n rule: collect_segments.induct)
  case (1 wa sc j n)
  show ?case
  proof (cases "n = 0")
    case True
    then show ?thesis by (subst collect_segments.simps) simp
  next
    case n: False
    then have "[j ..< sc] \<noteq> []" using "1.prems"(2) by (cases "[j ..< sc]") auto
    then have j: "j < sc" by simp
    then have up: "[j ..< sc] = j # [j + 1 ..< sc]" by (simp add: upt_conv_Cons)
    have jl: "\<not> length wa \<le> j" using j "1.prems"(1) by simp
    show ?thesis
    proof (cases "wa ! j = FIPS_BUF_FLAG_IN_USE")
      case True
      have "n - 1 \<le> length (filter (\<lambda>j. wa ! j = FIPS_BUF_FLAG_IN_USE) [j + 1 ..< sc])"
        using "1.prems"(2) True unfolding up by simp
      from "1.IH"(1) [OF n jl True "1.prems"(1) this] show ?thesis
        using n jl True by (subst collect_segments.simps) (simp add: up take_Cons')
    next
      case False
      have le: "n \<le> length (filter (\<lambda>j. wa ! j = FIPS_BUF_FLAG_IN_USE) [j + 1 ..< sc])"
        using "1.prems"(2) False unfolding up by simp
      then have "[j + 1 ..< sc] \<noteq> []" using n by (cases "[j + 1 ..< sc]") auto
      then have js: "\<not> sc \<le> j + 1" by simp
      from "1.IH"(2) [OF n jl False js "1.prems"(1) le] show ?thesis
        using n jl False js by (subst collect_segments.simps) (simp add: up)
    qed
  qed
qed

text \<open>Refreshing the cache of a reader thread that follows no detached writer: when its range is
  served (as after a reassignment), the cache holds exactly the segments of the range, in order,
  and the thread has the current assignment generation.\<close>

theorem update_cached_exact:
  assumes asg: "t_assignment t = Some i" "i < length (reader_assignments shm)"
    and old: "t_assigned_reader_count t = 0" "t_trailing_buffers_count t = 0"
    and sc: "sc = unat (h_segment_count (fb_header shm))" "sc \<le> length (writer_assignments shm)"
    and s: "s = reader_assignments shm ! i"
    and full: "length (served (writer_assignments shm) sc s) = unat (a_count s)"
  shows "\<exists>t'. update_cached_reader_values t shm = Some (0, t')
    \<and> t_generation t' = h_assignment_generation (fb_header shm)
    \<and> unat (t_assigned_reader_count t') = length (served (writer_assignments shm) sc s)
    \<and> t_trailing_buffers_count t' = 0
    \<and> take (length (served (writer_assignments shm) sc s)) (t_cached t')
      = map Some (served (writer_assignments shm) sc s)"
proof -
  let ?wa = "writer_assignments shm" and ?n = "unat (a_count s)"
  let ?from = "filter (\<lambda>j. ?wa ! j = FIPS_BUF_FLAG_IN_USE) [unat (start_segment s) ..< sc]"
  have le: "?n \<le> length ?from" using full by (simp add: served_def min_def split: if_splits)
  have col: "collect_segments ?wa sc (unat (start_segment s)) ?n = Some (True, served ?wa sc s)"
    using collect_segments_served [OF sc(2) le] by (simp add: served_def)
  have "length ?from \<le> sc" by (metis length_filter_le length_upt diff_le_self order_trans)
  then have small: "?n \<le> sc" using le by linarith
  have "sc < 256" using sc(1) unat_u8_less by simp
  with small have "unat (ucast (a_count s) :: u8) = ?n"
    by (simp add: unsigned_ucast_eq take_bit_nat_eq_self)
  moreover have "trailing_cached shm t = Some []" using old by (simp add: trailing_cached_def)
  ultimately show ?thesis
    using asg s col small full sc(1) by (simp add: update_cached_reader_values_def Let_def assert_headers_ok)
qed

definition fresh_thread :: "fips_buf_role \<Rightarrow> fips_buf_thread_arg_t" where
  "fresh_thread role = \<lparr>t_arg = example_arg\<lparr>a_role := role\<rparr>, t_generation = 0, t_thread_index = 0,
     t_segment_offset = 0, t_cached = [], t_assignment = Some 0, t_assigned_reader_count = 0,
     t_trailing_buffers_count = 0\<rparr>"

definition assigned_shm :: fips_shm where
  "assigned_shm = (snd (setup_shm example_arg zero_shm))
     \<lparr>writer_assignments := [1, 1, 0, 0, 0, 0, 0, 0],
      reader_assignments := [\<lparr>start_segment = 0, a_count = 2, a_flags = 1\<rparr>, zero_assignment]\<rparr>"

theorem update_cached_exact_witness:
  "\<exists>t'. update_cached_reader_values (fresh_thread FIPS_READER) assigned_shm = Some (0, t')
    \<and> take 2 (t_cached t') = [Some 0, Some 1]"
proof -
  have h: "t_assignment (fresh_thread FIPS_READER) = Some 0" "0 < length (reader_assignments assigned_shm)"
    "t_assigned_reader_count (fresh_thread FIPS_READER) = 0"
    "t_trailing_buffers_count (fresh_thread FIPS_READER) = 0"
    "2 = unat (h_segment_count (fb_header assigned_shm))" "2 \<le> length (writer_assignments assigned_shm)"
    "length (served (writer_assignments assigned_shm) 2 (reader_assignments assigned_shm ! 0))
      = unat (a_count (reader_assignments assigned_shm ! 0))"
    "served (writer_assignments assigned_shm) 2 (reader_assignments assigned_shm ! 0) = [0, 1]"
    by code_simp+
  from update_cached_exact [OF h(1-6) refl h(7)] h(8) show ?thesis by (auto simp: numeral_2_eq_2)
qed

section \<open>All reader processes\<close>

definition serves_all :: "bytes \<Rightarrow> nat \<Rightarrow> fips_buf_assignment_t list \<Rightarrow> bool" where
  "serves_all wa sc slots \<longleftrightarrow> (0 < get_reader_thread_count slots \<longrightarrow>
     (\<Union>s\<in>set (filter slot_in_use slots). set (served wa sc s)) = set (in_use wa sc))"

lemma reassign_slots_serves:
  assumes nt: "no_trailing wa sc" and sc: "sc < 256"
  shows "\<exists>slots'. reassign_slots wa sc slots = Some slots'
    \<and> map slot_in_use slots' = map slot_in_use slots \<and> serves_all wa sc slots'"
proof -
  let ?nw = "get_writer_thread_count wa sc" and ?nr = "get_reader_thread_count slots"
  have len: "length (in_use wa sc) = ?nw" using nt length_in_use by (simp add: no_trailing_def)
  consider "?nr = 0" | "0 < ?nr" "?nw = 0" | "1 \<le> ?nr" "?nr \<le> ?nw" | "1 \<le> ?nw" "?nw < ?nr" by linarith
  then show ?thesis
  proof cases
    case 1
    then show ?thesis by (simp add: reassign_slots_def serves_all_def)
  next
    case 2
    let ?f = "\<lambda>s. if slot_in_use s then set_range 0 0 s else s"
    have "served wa sc (?f s) = []" if "slot_in_use s" for s
      using that by (simp add: served_def set_range_def)
    moreover have "slot_in_use (?f s) = slot_in_use s" for s by simp
    ultimately show ?thesis
      using 2 len by (auto simp: reassign_slots_def serves_all_def)
  next
    case 3
    from reassign_slots_writers [OF nt sc refl 3] obtain slots' where
      "reassign_slots wa sc slots = Some slots'" "map slot_in_use slots' = map slot_in_use slots"
      "concat (map (served wa sc) (filter slot_in_use slots')) = in_use wa sc" by blast
    moreover from arg_cong [OF this(3), of set]
    have "(\<Union>s\<in>set (filter slot_in_use slots'). set (served wa sc s)) = set (in_use wa sc)" by simp
    ultimately show ?thesis by (auto simp: serves_all_def)
  next
    case 4
    from reassign_slots_readers [OF nt sc 4(1) refl 4(2)] obtain slots' where
      s': "reassign_slots wa sc slots = Some slots'" "map slot_in_use slots' = map slot_in_use slots"
      "map (served wa sc) (filter slot_in_use slots')
        = map (\<lambda>q. [in_use wa sc ! pick ?nw ?nr q]) [0 ..< ?nr]" by blast
    have "(\<Union>s\<in>set (filter slot_in_use slots'). set (served wa sc s))
      = (\<Union>q\<in>{0 ..< ?nr}. {in_use wa sc ! pick ?nw ?nr q})"
      using arg_cong [OF s'(3), of "\<lambda>xs. \<Union> (set (map set xs))"] by (simp add: image_image)
    also have "\<dots> = (!) (in_use wa sc) ` {..< ?nw}"
    proof -
      have "pick ?nw ?nr ` {0 ..< ?nr} = {..< ?nw}"
        using pick_less [of ?nw ?nr] pick_surj [of ?nw ?nr] 4 by (force simp: image_iff)
      then show ?thesis by (metis UNION_singleton_eq_range image_image)
    qed
    also have "\<dots> = set (in_use wa sc)" by (simp add: len [symmetric] nth_image atLeast0LessThan [symmetric])
    finally show ?thesis using s'(1,2) by (auto simp: serves_all_def)
  qed
qed

text \<open>The reader slots of the memory are blocks of one array.\<close>

definition slots_fit :: "fips_shm \<Rightarrow> bool" where
  "slots_fit shm \<longleftrightarrow> unat (h_reader_count (fb_header shm)) * unat (h_max_reader_thread_count (fb_header shm))
     \<le> length (reader_assignments shm)"

lemma reader_slots_slot:
  "mt = unat (h_max_reader_thread_count (fb_header shm)) \<Longrightarrow> (p + 1) * mt \<le> length (reader_assignments shm) \<Longrightarrow>
     reader_slots shm p = Some (slot mt (reader_assignments shm) p)"
  by (simp add: reader_slots_def slot_def Let_def)

lemma reassign_from_ok:
  assumes "no_trailing (writer_assignments shm) sc" and "sc < 256"
    and "sc = unat (h_segment_count (fb_header shm))"
    and "mt = unat (h_max_reader_thread_count (fb_header shm))"
    and "(i + n) * mt \<le> length (reader_assignments shm)"
    and "\<forall>p < i. serves_all (writer_assignments shm) sc (slot mt (reader_assignments shm) p)"
  shows "\<exists>ra. reassign_from i n shm = Some (shm\<lparr>reader_assignments := ra\<rparr>)
    \<and> map slot_in_use ra = map slot_in_use (reader_assignments shm)
    \<and> (\<forall>p < i + n. serves_all (writer_assignments shm) sc (slot mt ra p))"
  using assms
proof (induction n arbitrary: i shm)
  case 0
  then show ?case by (intro exI [of _ "reader_assignments shm"]) simp
next
  case (Suc n)
  let ?ra = "reader_assignments shm" and ?wa = "writer_assignments shm"
  have "(i + 1) * mt \<le> (i + Suc n) * mt" by (intro mult_le_mono1) simp
  with Suc.prems(5) have fit: "(i + 1) * mt \<le> length ?ra" by linarith
  obtain b where b: "reassign_slots ?wa sc (slot mt ?ra i) = Some b"
    "map slot_in_use b = map slot_in_use (slot mt ?ra i)" "serves_all ?wa sc b"
    using reassign_slots_serves [OF Suc.prems(1,2)] by blast
  from arg_cong [OF b(2), of length] have lb: "length b = mt" using length_slot [OF fit] by simp
  define ra' where "ra' = take (i * mt) ?ra @ b @ drop (i * mt + mt) ?ra"
  have w: "mem_write ?ra (i * mt) b = Some ra'" using fit lb by (simp add: ra'_def)
  have len: "length ra' = length ?ra" by (rule mem_write_length [OF w])
  have "map slot_in_use ra' = map slot_in_use ?ra"
    using fit by (simp add: ra'_def b(2) slot_def)
      (metis add.commute append_take_drop_id drop_drop map_append)
  moreover have "put_reader_slots i b shm = shm\<lparr>reader_assignments := ra'\<rparr>"
    using Suc.prems(4) lb by (simp add: put_reader_slots_def Let_def ra'_def)
  moreover have "\<forall>p < i + 1. serves_all ?wa sc (slot mt ra' p)"
    using Suc.prems(6) b(3) slot_write_same [OF w lb] slot_write_other [OF w lb] less_Suc_eq by auto
  ultimately show ?case
    using Suc.IH [of "shm\<lparr>reader_assignments := ra'\<rparr>" "i + 1"] Suc.prems b(1) fit len
      reader_slots_slot [OF Suc.prems(4) fit] by (auto simp: Suc.prems(3))
qed

lemma reassaign_readers_ok:
  assumes "no_trailing (writer_assignments shm) sc" and "sc = unat (h_segment_count (fb_header shm))"
    and "mt = unat (h_max_reader_thread_count (fb_header shm))" and "slots_fit shm"
  shows "\<exists>ra. reassaign_readers shm = Some (shm\<lparr>reader_assignments := ra\<rparr>)
    \<and> map slot_in_use ra = map slot_in_use (reader_assignments shm)
    \<and> (\<forall>p < unat (h_reader_count (fb_header shm)). serves_all (writer_assignments shm) sc (slot mt ra p))"
proof -
  have "sc < 256" using assms(2) unat_u8_less by simp
  from reassign_from_ok [OF assms(1) this assms(2,3), of 0] assms show ?thesis
    by (simp add: reassaign_readers_def slots_fit_def no_trailing_def)
qed


section \<open>Attaching\<close>

definition linked :: "fips_shm \<Rightarrow> bool" where
  "linked shm \<longleftrightarrow> length (fb_segments shm) = unat (h_segment_count (fb_header shm))
     \<and> (\<forall>k < length (fb_segments shm). next_offset (seg_header (fb_segments shm ! k))
         = (if k + 1 = length (fb_segments shm) then 0
            else FIPS_BUF_GET_SEGMENT_HEADER (fb_header shm) (k + 1)))"

lemma setup_linked: "linked (snd (setup_shm a zero_shm))"
proof -
  let ?h = "setup_header a (fb_header zero_shm)"
  have first: "first_segment_offset ?h = FIPS_BUF_GET_SEGMENT_HEADER ?h 0"
    by (simp add: FIPS_BUF_GET_SEGMENT_HEADER_def)
  have "fb_segments (snd (setup_shm a zero_shm))
    = setup_segments a ?h 0 0 (first_segment_offset ?h) (unat (a_max_segment_count a))"
    "fb_header (snd (setup_shm a zero_shm)) = ?h\<lparr>h_initialized := 1\<rparr>"
    by (simp_all add: setup_shm_def Let_def zero_shm_def zero_header_def)
  then show ?thesis using setup_segments_nth [OF _ first] by (simp add: linked_def)
qed

lemma segment_header_inject:
  "FIPS_BUF_GET_SEGMENT_HEADER h j = FIPS_BUF_GET_SEGMENT_HEADER h k \<longleftrightarrow> j = k"
  by (simp add: FIPS_BUF_GET_SEGMENT_HEADER_def fips_sizes)

lemma segment_at_index:
  "k < length (fb_segments shm) \<Longrightarrow>
     segment_at shm (FIPS_BUF_GET_SEGMENT_HEADER (fb_header shm) k) = Some (fb_segments shm ! k)"
proof -
  assume k: "k < length (fb_segments shm)"
  then have "find (\<lambda>j. FIPS_BUF_GET_SEGMENT_HEADER (fb_header shm) j
      = FIPS_BUF_GET_SEGMENT_HEADER (fb_header shm) k) [0 ..< length (fb_segments shm)] = Some k"
    by (simp add: find_Some_iff segment_header_inject) (rule exI [of _ k], simp)
  then show ?thesis by (simp add: segment_at_def)
qed

lemma follow_segments_linked:
  "linked shm \<Longrightarrow> k + n < length (fb_segments shm) \<Longrightarrow>
     follow_segments shm (FIPS_BUF_GET_SEGMENT_HEADER (fb_header shm) k) n
       = Some (FIPS_BUF_GET_SEGMENT_HEADER (fb_header shm) (k + n))"
  by (induction n arbitrary: k) (simp_all add: segment_at_index linked_def)

lemma scan_while_first:
  assumes "j < n" and "\<not> p j"
  shows "scan_while p n < n" and "\<not> p (scan_while p n)" and "\<forall>i < scan_while p n. p i"
proof -
  let ?t = "takeWhile p [0 ..< n]"
  have "length ?t \<noteq> length [0 ..< n]"
  proof
    assume "length ?t = length [0 ..< n]"
    then have "?t = [0 ..< n]" by (metis append_eq_conv_conj takeWhile_dropWhile_id take_all_iff order_refl)
    then have "\<forall>i\<in>set [0 ..< n]. p i" by (simp only: takeWhile_eq_all_conv)
    with assms show False by simp
  qed
  then have lt: "length ?t < length [0 ..< n]" using length_takeWhile_le [of p "[0 ..< n]"] by linarith
  then show "scan_while p n < n" by (simp add: scan_while_def)
  with nth_length_takeWhile [OF lt] show "\<not> p (scan_while p n)" by (simp add: scan_while_def)
  show "\<forall>i < scan_while p n. p i"
  proof (intro allI impI)
    fix i assume i: "i < scan_while p n"
    then have "?t ! i \<in> set ?t" by (simp add: scan_while_def)
    then have "p (?t ! i)" by (metis set_takeWhileD)
    moreover have "?t ! i = i" using i lt by (simp add: scan_while_def takeWhile_nth)
    ultimately show "p i" by simp
  qed
qed

lemma no_trailing_update:
  "no_trailing wa sc \<Longrightarrow> b = 0 \<or> b = FIPS_BUF_FLAG_IN_USE \<Longrightarrow> no_trailing (wa[i := b]) sc"
  unfolding no_trailing_def
  by (metis length_list_update nth_list_update_eq nth_list_update_neq less_le_trans)



lemma follow_all_linked:
  assumes "linked shm" and "0 < length (fb_segments shm)"
  shows "follow_segments shm (FIPS_BUF_GET_SEGMENT_HEADER (fb_header shm) 0) (length (fb_segments shm)) = Some 0"
proof -
  have "follow_segments shm (FIPS_BUF_GET_SEGMENT_HEADER (fb_header shm) k) n = Some 0"
    if "k + n = length (fb_segments shm)" "0 < n" for k n
    using that
  proof (induction n arbitrary: k)
    case (Suc n)
    then have "k < length (fb_segments shm)" by simp
    then show ?case using Suc assms(1) by (cases "n = 0") (simp_all add: segment_at_index linked_def)
  qed simp
  from this [of 0] assms(2) show ?thesis by simp
qed

text \<open>The test whether a segment was found looks at the byte behind the last segment. When every
  segment is in use and the number of segments is not a multiple of eight, this is a padding byte:
  attaching one more writer thread succeeds and gives it segment number \<open>segment_count\<close> at offset
  0, the header of the buffer.\<close>

theorem fips_attach_full_takes_padding:
  assumes nt: "no_trailing wa sc" and lk: "linked shm" and fit: "slots_fit shm"
    and wa: "wa = writer_assignments shm" and sc: "sc = unat (h_segment_count (fb_header shm))" "0 < sc"
    and init: "h_initialized (fb_header shm) \<noteq> 0" and role: "a_role (t_arg t) = FIPS_WRITER"
    and full: "\<forall>j < sc. wa ! j = FIPS_BUF_FLAG_IN_USE"
    and pad: "sc < length wa" "wa ! sc = FIPS_BUF_FLAG_FREE"
  shows "\<exists>t' shm'. fips_buf_attach (Some t) shm = Some (0, Some t', shm')
    \<and> t_thread_index t' = word_of_nat sc \<and> t_segment_offset t' = 0"
proof -
  let ?wa = "wa[sc := FIPS_BUF_FLAG_IN_USE]"
  have "\<forall>j\<in>set [0 ..< sc]. wa ! j \<noteq> FIPS_BUF_FLAG_FREE" using full by (simp add: fips_flags)
  then have "takeWhile (\<lambda>j. wa ! j \<noteq> FIPS_BUF_FLAG_FREE) [0 ..< sc] = [0 ..< sc]"
    by (simp only: takeWhile_eq_all_conv)
  then have i: "scan_while (\<lambda>j. wa ! j \<noteq> FIPS_BUF_FLAG_FREE) sc = sc"
    unfolding scan_while_def by (metis length_upt minus_nat.diff_0)
  have "first_segment_offset (fb_header shm) = FIPS_BUF_GET_SEGMENT_HEADER (fb_header shm) 0"
    by (simp add: FIPS_BUF_GET_SEGMENT_HEADER_def)
  moreover have len: "length (fb_segments shm) = sc" using lk sc(1) by (simp add: linked_def)
  ultimately have off: "follow_segments shm (first_segment_offset (fb_header shm)) sc = Some 0"
    using follow_all_linked [OF lk] sc(2) unfolding len by metis
  have nt': "no_trailing (writer_assignments (shm\<lparr>writer_assignments := ?wa\<rparr>)) sc"
    using no_trailing_update [OF nt] by simp
  have "slots_fit (shm\<lparr>writer_assignments := ?wa\<rparr>)" using fit by (simp add: slots_fit_def)
  from reassaign_readers_ok [OF nt' _ refl this] sc
  obtain ra where ra: "reassaign_readers (shm\<lparr>writer_assignments := ?wa\<rparr>)
      = Some (shm\<lparr>writer_assignments := ?wa, reader_assignments := ra\<rparr>)" by auto
  have "nth_opt wa sc = Some FIPS_BUF_FLAG_FREE" using pad by simp
  with off ra i have "attach_writer t shm = Some (0, t\<lparr>t_thread_index := word_of_nat sc, t_segment_offset := 0\<rparr>,
      bump_generation (shm\<lparr>writer_assignments := ?wa, reader_assignments := ra\<rparr>))"
    unfolding attach_writer_def Let_def wa [symmetric] sc(1) [symmetric] by simp
  with init role show ?thesis by (simp add: fips_buf_attach_def)
qed

definition full_shm :: fips_shm where
  "full_shm = (snd (setup_shm example_arg zero_shm))\<lparr>writer_assignments := [1, 1, 0, 0, 0, 0, 0, 0]\<rparr>"

theorem fips_attach_full_takes_padding_witness:
  "\<exists>t' shm'. fips_buf_attach (Some (fresh_thread FIPS_WRITER)) full_shm = Some (0, Some t', shm')
    \<and> t_thread_index t' = 2 \<and> t_segment_offset t' = 0"
proof -
  have wa: "writer_assignments full_shm = [1, 1, 0, 0, 0, 0, 0, 0]"
    "2 = unat (h_segment_count (fb_header full_shm))" "h_initialized (fb_header full_shm) \<noteq> 0"
    "a_role (t_arg (fresh_thread FIPS_WRITER)) = FIPS_WRITER" "unat (h_reader_count (fb_header full_shm)) = 0"
    by code_simp+
  have "linked full_shm" using setup_linked [of example_arg] by (simp add: full_shm_def linked_def)
  moreover have "no_trailing (writer_assignments full_shm) 2" "slots_fit full_shm" "0 < (2 :: nat)"
    "\<forall>j < 2. writer_assignments full_shm ! j = FIPS_BUF_FLAG_IN_USE"
    "2 < length (writer_assignments full_shm)" "writer_assignments full_shm ! 2 = FIPS_BUF_FLAG_FREE"
    using wa by (auto simp: no_trailing_def slots_fit_def fips_flags less_2_cases_iff)
  ultimately show ?thesis
    using fips_attach_full_takes_padding [OF _ _ _ refl wa(2) _ wa(3,4)] by auto
qed

text \<open>A writer thread that detaches while a reader thread still follows it leaves a byte
  \<open>FIPS_BUF_FLAG_TRAILING\<close>. The array of the active writers is sized by the bytes equal to
  \<open>FIPS_BUF_FLAG_IN_USE\<close> but filled with all non-zero ones: with one writer left and a reader
  thread attached, the reassignment writes behind its array.\<close>

theorem reassign_trailing_overflows:
  assumes "sc \<le> length wa" and "j < sc" and "wa ! j = FIPS_BUF_FLAG_TRAILING"
    and "1 \<le> get_writer_thread_count wa sc" and "1 \<le> get_reader_thread_count slots"
  shows "reassign_slots wa sc slots = None"
proof -
  have "set (in_use wa sc) \<subseteq> set (active_segments wa sc)" "j \<in> set (active_segments wa sc)"
    "j \<notin> set (in_use wa sc)"
    using assms(2,3) by (simp_all add: in_use_def active_segments_def fips_flags subset_iff)
  then have "set (in_use wa sc) \<subset> set (active_segments wa sc)" by blast
  then have "card (set (in_use wa sc)) < card (set (active_segments wa sc))" by (intro psubset_card_mono) simp
  moreover have "distinct (in_use wa sc)" "distinct (active_segments wa sc)"
    by (simp_all add: in_use_def active_segments_def)
  ultimately have "length (in_use wa sc) < length (active_segments wa sc)" by (simp add: distinct_card)
  then show ?thesis
    using assms(4,5) length_in_use [OF assms(1)] by (simp add: reassign_slots_def Let_def)
qed

theorem reassign_trailing_overflows_witness:
  "reassign_slots [2, 1, 0, 0, 0, 0, 0, 0] 2 (demo_slots 1) = None"
proof -
  have "get_writer_thread_count [2, 1, 0, 0, 0, 0, 0, 0] 2 = 1" "get_reader_thread_count (demo_slots 1) = 1"
    by code_simp+
  with reassign_trailing_overflows [of 2 "[2, 1, 0, 0, 0, 0, 0, 0]" 0 "demo_slots 1"] show ?thesis
    by (simp add: fips_flags)
qed

text \<open>The whole call: two writer threads and a reader thread are attached, the first writer leaves.\<close>

lemma detach_first_writer_overflows:
  "fips_buf_detach (Some (fresh_thread FIPS_WRITER))
     (assigned_shm\<lparr>fb_header := (fb_header assigned_shm)\<lparr>h_reader_count := 1\<rparr>\<rparr>) = None"
  by code_simp

end
