(* ===== verification/Fips_Read.thy ===== *)
theory Fips_Read
  imports Fips_Channel Fips_Assign
begin

text \<open>
  \<open>fips_buf_read\<close> of \<open>src/lib/fips_buf.c\<close> as a whole: the refresh of the thread's cache when the
  assignment generation has changed, the rotation over the cached segments and the claim on the
  first segment with enough lines. The thread-local counter \<open>rotation\<close> is passed explicitly. The
  properties: every cached segment is tried once, starting behind the one used last, and the call
  gives up only when none of them has enough lines; and the case in which the removal of empty
  trailing segments leaves the cache.
\<close>

section \<open>The call\<close>

record fips_read_result =
  rr_code :: int
  rr_iov :: "fips_iovec list"
  rr_tag :: "fips_buf_range_t option"
  rr_rotation :: u8
  rr_thread :: fips_buf_thread_arg_t
  rr_shm :: fips_shm

definition next_rotation :: "nat \<Rightarrow> u8 \<Rightarrow> u8" where
  "next_rotation cached_count rotation =
     (if cached_count \<le> unat (rotation + 1) then 0 else rotation + 1)"

text \<open>The loop; the last argument is the number of tries left.\<close>

fun read_tries :: "nat \<Rightarrow> nat \<Rightarrow> u8 \<Rightarrow> fips_buf_thread_arg_t \<Rightarrow> fips_shm \<Rightarrow> nat \<Rightarrow> fips_read_result option"
  where
  "read_tries iovcnt cached_count rotation t shm 0 =
     Some \<lparr>rr_code = FIPS_BUF_ERROR_EMPTY, rr_iov = [], rr_tag = None, rr_rotation = rotation,
       rr_thread = t, rr_shm = shm\<rparr>"
| "read_tries iovcnt cached_count rotation t shm (Suc n) =
     do {
       let rot = next_rotation cached_count rotation;
       cur \<leftarrow> nth_opt (t_cached t) (unat rot);
       s \<leftarrow> cur;
       seg \<leftarrow> nth_opt (fb_segments shm) s;
       let msk = h_line_MASK (fb_header shm);
       c \<leftarrow> reader_claim msk iovcnt (unat (a_reader_index (t_arg t))) seg;
       (case c of
          None \<Rightarrow> do {
            t' \<leftarrow> remove_cached_entries t (unat rot);
            read_tries iovcnt cached_count rot t' shm n
          }
        | Some (start, seg') \<Rightarrow> do {
            iov \<leftarrow> get_iovecs (a_line_size (t_arg t)) msk start [0 ..< iovcnt] (seg_data seg);
            Some \<lparr>rr_code = 0, rr_iov = iov,
              rr_tag = Some \<lparr>rng_start = start, rng_count = word_of_nat iovcnt,
                rng_segment = sh_index (seg_header seg), rng_reader = a_reader_index (t_arg t)\<rparr>,
              rr_rotation = rot, rr_thread = t,
              rr_shm = shm\<lparr>fb_segments := (fb_segments shm)[s := seg']\<rparr>\<rparr>
          })
     }"

definition fips_buf_read ::
  "nat \<Rightarrow> int \<Rightarrow> u8 \<Rightarrow> fips_buf_thread_arg_t \<Rightarrow> fips_shm \<Rightarrow> fips_read_result option" where
  "fips_buf_read iovcnt flags rotation t shm =
     (let result = (\<lambda>code t. \<lparr>rr_code = code, rr_iov = [], rr_tag = None, rr_rotation = rotation,
            rr_thread = t, rr_shm = shm\<rparr>)
      in if flags \<noteq> 0 then Some (result FIPS_BUF_ERROR_NOT_IMPLEMENTED t)
      else do {
        (ret, t') \<leftarrow> (if t_generation t \<noteq> h_assignment_generation (fb_header shm)
                      then update_cached_reader_values t shm else Some (0, t));
        if ret \<noteq> 0 then Some (result ret t')
        else let n = unat (t_assigned_reader_count t') + unat (t_trailing_buffers_count t')
          in read_tries iovcnt n rotation t' shm n
      })"

section \<open>Rotation\<close>

text \<open>A thread whose cache is current, follows no detached writer and names existing segments.\<close>

definition reader_ready :: "fips_buf_thread_arg_t \<Rightarrow> fips_shm \<Rightarrow> bool" where
  "reader_ready t shm \<longleftrightarrow> t_generation t = h_assignment_generation (fb_header shm)
     \<and> t_trailing_buffers_count t = 0 \<and> a_line_size (t_arg t) = h_line_size (fb_header shm)
     \<and> unat (a_reader_index (t_arg t)) < unat (h_reader_count (fb_header shm))
     \<and> unat (t_assigned_reader_count t) \<le> length (t_cached t)
     \<and> (\<forall>k < unat (t_assigned_reader_count t). \<exists>s < length (fb_segments shm). t_cached t ! k = Some s)"

text \<open>Whether the cached segment \<open>k\<close> has \<open>n\<close> unread lines for the thread's process.\<close>

definition has_lines :: "fips_buf_thread_arg_t \<Rightarrow> fips_shm \<Rightarrow> nat \<Rightarrow> nat \<Rightarrow> bool" where
  "has_lines t shm n k \<longleftrightarrow> n \<le> length (unread (fb_header shm) (unat (a_reader_index (t_arg t)))
     (fb_segments shm ! the (t_cached t ! k)))"

text \<open>The position tried after \<open>j\<close> failed tries.\<close>

definition try_pos :: "nat \<Rightarrow> u8 \<Rightarrow> nat \<Rightarrow> nat" where
  "try_pos n rotation j = (unat (next_rotation n rotation) + j) mod n"

lemma unat_next_rotation: "0 < n \<Longrightarrow> n < 256 \<Longrightarrow> unat (next_rotation n rotation) < n"
  by (auto simp: next_rotation_def)

lemma try_pos_0: "0 < n \<Longrightarrow> n < 256 \<Longrightarrow> try_pos n rotation 0 = unat (next_rotation n rotation)"
  using unat_next_rotation by (simp add: try_pos_def)

lemma try_pos_Suc:
  assumes "0 < n" and "n < 256"
  shows "try_pos n (next_rotation n rotation) j = try_pos n rotation (Suc j)"
proof -
  let ?r = "next_rotation n rotation"
  have r: "unat ?r < n" by (rule unat_next_rotation [OF assms])
  then have "unat (?r + 1) = unat ?r + 1" using assms(2) by (simp add: unat_word_ariths)
  then have "unat (next_rotation n ?r) = (if n \<le> unat ?r + 1 then 0 else unat ?r + 1)"
    unfolding next_rotation_def [of n ?r] by (simp only: if_distrib [of unat] unat_0)
  also have "\<dots> = (unat ?r + 1) mod n" using r by (cases "n = unat ?r + 1") simp_all
  finally have "unat (next_rotation n ?r) = (unat ?r + 1) mod n" .
  then show ?thesis by (simp add: try_pos_def mod_simps)
qed

lemma get_iovecs_ok:
  assumes geo: "geo_ok h" and len: "length d = lines h * (unat (h_line_size h) + 2)"
  shows "\<exists>vs. get_iovecs (h_line_size h) (h_line_MASK h) cur is d = Some vs \<and> length vs = length is
    \<and> (\<forall>i < length is. fv_pos (vs ! i) = (unat (h_line_size h) + 2) * radd (lines h) (unat cur) (is ! i) + 2)"
proof (induction "is")
  case Nil
  then show ?case by simp
next
  case (Cons i "is")
  let ?w = "unat (h_line_size h) + 2" and ?k = "radd (lines h) (unat cur) i"
  have pos: "line_pos (h_line_size h) (h_line_MASK h) cur i = ?w * ?k + 2" by (rule line_pos_eq [OF geo])
  have "?k + 1 \<le> lines h" using radd_less [of "lines h"] by (simp add: Suc_leI)
  then have "(?k + 1) * ?w \<le> length d" unfolding len by (rule mult_le_mono1)
  then have inb: "?w * ?k + 2 \<le> length d" by (simp add: algebra_simps)
  from Cons.IH obtain vs where
    vs: "get_iovecs (h_line_size h) (h_line_MASK h) cur is d = Some vs" "length vs = length is"
    "\<forall>i < length is. fv_pos (vs ! i) = ?w * radd (lines h) (unat cur) (is ! i) + 2" by blast
  let ?v = "\<lparr>fv_pos = ?w * ?k + 2, fv_len = word_of_nat (le_nat (take 2 (drop (?w * ?k) d)))\<rparr>"
  have "get_iovecs (h_line_size h) (h_line_MASK h) cur (i # is) d = Some (?v # vs)"
    using vs(1) inb by (simp add: pos)
  then show ?case using vs(2,3) by (auto simp: nth_Cons split: nat.splits)
qed

text \<open>The outcome of the tries: the first position with enough lines, if any.\<close>

lemma read_tries_outcome:
  assumes ok: "fips_ok shm" and rdy: "reader_ready t shm" and iov: "0 < iovcnt" "iovcnt < lines (fb_header shm)"
    and n: "n = unat (t_assigned_reader_count t)" and m: "m \<le> n"
  shows "(if \<forall>j < m. \<not> has_lines t shm iovcnt (try_pos n rotation j)
    then \<exists>rot. read_tries iovcnt n rotation t shm m = Some \<lparr>rr_code = FIPS_BUF_ERROR_EMPTY, rr_iov = [],
      rr_tag = None, rr_rotation = rot, rr_thread = t, rr_shm = shm\<rparr>
    else \<exists>j res. read_tries iovcnt n rotation t shm m = Some res \<and> j < m
      \<and> has_lines t shm iovcnt (try_pos n rotation j)
      \<and> (\<forall>i < j. \<not> has_lines t shm iovcnt (try_pos n rotation i))
      \<and> rr_code res = 0 \<and> rr_thread res = t \<and> unat (rr_rotation res) = try_pos n rotation j
      \<and> length (rr_iov res) = iovcnt
      \<and> rr_shm res = put_seg shm (the (t_cached t ! try_pos n rotation j))
          (borrow_seg (fb_header shm) iovcnt (unat (a_reader_index (t_arg t)))
            (fb_segments shm ! the (t_cached t ! try_pos n rotation j))))"
  using m
proof (induction m arbitrary: rotation)
  case 0
  then show ?case by simp
next
  case (Suc m)
  let ?h = "fb_header shm" and ?r = "unat (a_reader_index (t_arg t))" and ?rot = "next_rotation n rotation"
  have n256: "n < 256" unfolding n by (rule unat_u8_less)
  have n0: "0 < n" using Suc.prems by simp
  have rot: "unat ?rot < n" by (rule unat_next_rotation [OF n0 n256])
  then obtain s where s: "s < length (fb_segments shm)" "t_cached t ! unat ?rot = Some s"
    using rdy by (auto simp: reader_ready_def n)
  have cur: "nth_opt (t_cached t) (unat ?rot) = Some (Some s)"
    using rot s(2) rdy by (simp add: reader_ready_def n)
  let ?seg = "fb_segments shm ! s"
  have geo: "geo_ok ?h" and so: "seg_ok ?h ?seg" using fips_ok_seg [OF ok s(1)] by auto
  have r: "?r < unat (h_reader_count ?h)" using rdy by (simp add: reader_ready_def)
  have p0: "try_pos n rotation 0 = unat ?rot" by (rule try_pos_0 [OF n0 n256])
  have hl: "has_lines t shm iovcnt (unat ?rot) \<longleftrightarrow> iovcnt \<le> rdist (lines ?h) (rd_head ?seg ?r) (wr_commit ?seg)"
    by (simp add: has_lines_def s(2) length_unread)
  note claim = reader_claim_result [OF geo so r iov]
  show ?case
  proof (cases "has_lines t shm iovcnt (unat ?rot)")
    case True
    let ?st = "head_offset (rd_ptr (seg_readers ?seg ! ?r))"
    have c: "reader_claim (h_line_MASK ?h) iovcnt ?r ?seg = Some (Some (?st, borrow_seg ?h iovcnt ?r ?seg))"
      using claim True hl by simp
    obtain vs where vs: "get_iovecs (h_line_size ?h) (h_line_MASK ?h) ?st [0 ..< iovcnt] (seg_data ?seg) = Some vs"
      "length vs = iovcnt"
      using get_iovecs_ok [OF geo, of "seg_data ?seg" ?st "[0 ..< iovcnt]"] so by (auto simp: seg_ok_def)
    have "a_line_size (t_arg t) = h_line_size ?h" using rdy by (simp add: reader_ready_def)
    then have "\<exists>res. read_tries iovcnt n rotation t shm (Suc m) = Some res \<and> rr_code res = 0
      \<and> rr_thread res = t \<and> rr_rotation res = ?rot \<and> length (rr_iov res) = iovcnt
      \<and> rr_shm res = put_seg shm s (borrow_seg ?h iovcnt ?r ?seg)"
      using cur s(1) c vs by (simp add: put_seg_def Let_def)
    then show ?thesis using True p0 s(2) by (auto intro!: exI [of _ "0 :: nat"])
  next
    case False
    have c: "reader_claim (h_line_MASK ?h) iovcnt ?r ?seg = Some None" using claim False hl by simp
    have "remove_cached_entries t (unat ?rot) = Some t" using rot n by (simp add: remove_cached_entries_def)
    then have step: "read_tries iovcnt n rotation t shm (Suc m) = read_tries iovcnt n ?rot t shm m"
      using cur s(1) c by (simp add: Let_def)
    have sh: "try_pos n ?rot j = try_pos n rotation (Suc j)" for j by (rule try_pos_Suc [OF n0 n256])
    have all: "(\<forall>j < Suc m. \<not> has_lines t shm iovcnt (try_pos n rotation j)) \<longleftrightarrow>
        (\<forall>j < m. \<not> has_lines t shm iovcnt (try_pos n rotation (Suc j)))"
      using False p0 less_Suc_eq_0_disj by auto
    have ext: "(\<forall>i < Suc j. \<not> has_lines t shm iovcnt (try_pos n rotation i)) \<longleftrightarrow>
        (\<forall>i < j. \<not> has_lines t shm iovcnt (try_pos n rotation (Suc i)))" for j
      using False p0 less_Suc_eq_0_disj by auto
    have "m \<le> n" using Suc.prems by simp
    note IH = Suc.IH [OF this, of ?rot, unfolded sh]
    show ?thesis
    proof (cases "\<forall>j < m. \<not> has_lines t shm iovcnt (try_pos n rotation (Suc j))")
      case True
      with IH all step show ?thesis by simp
    next
      case some: False
      with IH obtain j res where "read_tries iovcnt n ?rot t shm m = Some res" "j < m"
        and rest: "has_lines t shm iovcnt (try_pos n rotation (Suc j))"
        "\<forall>i < j. \<not> has_lines t shm iovcnt (try_pos n rotation (Suc i))"
        "rr_code res = 0" "rr_thread res = t" "unat (rr_rotation res) = try_pos n rotation (Suc j)"
        "length (rr_iov res) = iovcnt"
        "rr_shm res = put_seg shm (the (t_cached t ! try_pos n rotation (Suc j)))
          (borrow_seg ?h iovcnt ?r (fb_segments shm ! the (t_cached t ! try_pos n rotation (Suc j))))"
        by (simp only: if_False) blast
      then show ?thesis
        using some all ext step by (simp only: if_False) (intro exI [of _ "Suc j"] exI [of _ res], simp)
    qed
  qed
qed

lemma try_pos_all:
  assumes "n < 256"
  shows "(\<forall>j < n. P (try_pos n rotation j)) \<longleftrightarrow> (\<forall>k < n. P k)"
proof (cases "n = 0")
  case False
  then have r: "unat (next_rotation n rotation) < n" using assms by (intro unat_next_rotation) simp_all
  let ?r = "unat (next_rotation n rotation)"
  have eq: "try_pos n rotation j = radd n ?r j" for j by (simp add: try_pos_def radd_def)
  have "P k" if "\<forall>j < n. P (radd n ?r j)" and k: "k < n" for k
    using that radd_rdist [OF r k] rdist_less [OF r k] by metis
  then show ?thesis using radd_less [of n ?r] False by (auto simp: eq)
qed simp


definition read_thread :: "nat option list \<Rightarrow> u8 \<Rightarrow> u8 \<Rightarrow> fips_buf_thread_arg_t" where
  "read_thread cached assigned trailing = \<lparr>t_arg = example_arg\<lparr>a_role := FIPS_READER\<rparr>, t_generation = 0,
     t_thread_index = 0, t_segment_offset = 0, t_cached = cached, t_assignment = Some 0,
     t_assigned_reader_count = assigned, t_trailing_buffers_count = trailing\<rparr>"

definition read_shm :: fips_shm where
  "read_shm = (let shm = snd (setup_shm example_arg zero_shm)
     in shm\<lparr>fb_header := (fb_header shm)\<lparr>h_reader_count := 1\<rparr>\<rparr>)"


text \<open>Two detached writers whose segments are read empty: the cached number of entries is not
  updated when an empty trailing segment is removed, so the second removal moves a negative number
  of entries.\<close>

theorem fips_read_trailing_overflows:
  "fips_buf_read 1 0 1 (read_thread [Some 0, Some 1] 0 2) read_shm = None"
  by code_simp

end
