(* ===== verification/Fips_Init.thy ===== *)
theory Fips_Init
  imports Fips_Layout
begin

text \<open>
  \<open>read_config_file\<close> and \<open>fips_buf_init\<close> of \<open>src/lib/fips_buf.c\<close>. The results of libconfig and of
  the system calls are an environment; the System V object (its contents, or its absence), the
  number of attachments and the value of the semaphore that guards initialisation are the state.
\<close>

section \<open>Configuration\<close>

text \<open>What libconfig finds in the file: whether it can be read and parsed, and the values by name.\<close>

record config =
  cfg_readable :: bool
  cfg_string :: "string \<Rightarrow> bytes option"
  cfg_int :: "string \<Rightarrow> int option"

text \<open>The integer settings in the order of the lookups, with the field each one sets; \<open>value\<close> is
  converted to the type of the field.\<close>

definition config_ints :: "(string \<times> (int \<Rightarrow> fips_buf_arg_t \<Rightarrow> fips_buf_arg_t)) list" where
  "config_ints =
     [(''flags'', \<lambda>v a. a\<lparr>a_arg_flags := word_of_int v\<rparr>),
      (''line_count_exp'', \<lambda>v a. a\<lparr>a_line_count_exp := word_of_int v\<rparr>),
      (''max_reader_count'', \<lambda>v a. a\<lparr>a_max_reader_count := word_of_int v\<rparr>),
      (''max_reader_thread_count'', \<lambda>v a. a\<lparr>a_max_reader_thread_count := word_of_int v\<rparr>),
      (''max_segment_count'', \<lambda>v a. a\<lparr>a_max_segment_count := word_of_int v\<rparr>),
      (''line_size'', \<lambda>v a. a\<lparr>a_line_size := word_of_int v\<rparr>),
      (''max_sqe_count'', \<lambda>v a. a\<lparr>a_max_sqe_count := word_of_int v\<rparr>)]"

fun lookup_ints :: "config \<Rightarrow> (string \<times> (int \<Rightarrow> fips_buf_arg_t \<Rightarrow> fips_buf_arg_t)) list \<Rightarrow>
    fips_buf_arg_t \<Rightarrow> int \<times> fips_buf_arg_t" where
  "lookup_ints cfg [] a = (FIPS_BUF_SUCCESS, a)"
| "lookup_ints cfg ((name, set_field) # rest) a =
     (case cfg_int cfg name of
        None \<Rightarrow> (FIPS_BUF_ERROR_CONFIG_FILE, a)
      | Some v \<Rightarrow> lookup_ints cfg rest (set_field v a))"

text \<open>After a failed read the configuration is destroyed and then used.\<close>

definition read_config_file :: "config \<Rightarrow> fips_buf_arg_t \<Rightarrow> (int \<times> fips_buf_arg_t) option" where
  "read_config_file cfg a =
     (if \<not> cfg_readable cfg then None
      else case cfg_string cfg ''shm_name'' of
        None \<Rightarrow> Some (FIPS_BUF_ERROR_CONFIG_FILE, a)
      | Some name \<Rightarrow> Some (lookup_ints cfg config_ints (a\<lparr>a_shm_name := name\<rparr>)))"

section \<open>Initialisation\<close>

text \<open>Which system calls fail. \<open>env_shmget\<close> are the results of the two attempts, with and without
  huge pages.\<close>

record fips_env =
  env_access_ok :: bool
  env_stat_ok :: bool
  env_creat_ok :: bool
  env_sem_open_ok :: bool
  env_sem_wait_ok :: bool
  env_ftok_ok :: bool
  env_shmget :: "int \<times> int"
  env_shmat_ok :: bool

record fips_sys =
  sys_object :: "fips_shm option"
  sys_attached :: nat
  sys_sem :: int

datatype fips_init_result = Exited | Returned int fips_buf_arg_t

definition NAME_MAX :: nat where "NAME_MAX = 255"

text \<open>The part after the object has been attached: set-up, checksum and registration.\<close>

definition init_register :: "fips_buf_arg_t \<Rightarrow> fips_shm \<Rightarrow> int \<times> fips_buf_arg_t \<times> fips_shm" where
  "init_register a shm0 =
     (case setup_shm a shm0 of
        (rv, shm) \<Rightarrow>
          let h = fb_header shm in
          if rv \<noteq> 0 then (FIPS_BUF_ERROR_SHM, a, shm)
          else if checksum a shm \<noteq> 0 then (FIPS_BUF_ERROR_CHECKSUM, a, shm)
          else case a_role a of
            FIPS_WRITER \<Rightarrow>
              if 0 < h_writer_count h then (FIPS_BUF_ERROR_WRITER_ALREADY_ATTACHED, a, shm)
              else (FIPS_BUF_SUCCESS, a, shm\<lparr>fb_header := h\<lparr>h_writer_count := h_writer_count h + 1\<rparr>\<rparr>)
          | FIPS_READER \<Rightarrow>
              (FIPS_BUF_SUCCESS, a\<lparr>a_reader_index := h_reader_count h\<rparr>,
               shm\<lparr>fb_header := h\<lparr>h_reader_count := h_reader_count h + 1\<rparr>\<rparr>))"

text \<open>The part under the semaphore; every return posts it.\<close>

definition init_locked :: "fips_env \<Rightarrow> fips_buf_arg_t \<Rightarrow> fips_sys \<Rightarrow> fips_init_result \<times> fips_sys" where
  "init_locked env a sys =
     (let post = (\<lambda>s. s\<lparr>sys_sem := sys_sem s + 1\<rparr>);
          id1 = fst (env_shmget env);
          shm_id = (if id1 = -1 then snd (env_shmget env) else id1);
          a1 = a\<lparr>a_shm_id := shm_id\<rparr>;
          object = (case sys_object sys of None \<Rightarrow> zero_shm | Some shm \<Rightarrow> shm);
          sys1 = sys\<lparr>sys_object := Some object\<rparr>
      in if \<not> env_ftok_ok env then (Returned FIPS_BUF_ERROR_INVALID_SHM_NAME a, post sys)
      else if shm_id = -1 then (Returned FIPS_BUF_ERROR_SHM a1, post sys)
      else if \<not> env_shmat_ok env then (Returned FIPS_BUF_ERROR_SHM a1, post sys1)
      else case init_register a1 object of
        (rv, a2, shm) \<Rightarrow>
          (Returned rv a2, post (sys1\<lparr>sys_object := Some shm, sys_attached := sys_attached sys + 1\<rparr>)))"

definition fips_buf_init :: "fips_env \<Rightarrow> config option \<Rightarrow> fips_buf_arg_t \<Rightarrow> fips_sys \<Rightarrow>
    (fips_init_result \<times> fips_sys) option" where
  "fips_buf_init env config_file a sys =
     do {
       (rv, a1) \<leftarrow> (case config_file of
           None \<Rightarrow> Some (FIPS_BUF_SUCCESS, a)
         | Some cfg \<Rightarrow> if \<not> env_access_ok env then Some (FIPS_BUF_ERROR_CONFIG_FILE, a)
             else read_config_file cfg a);
       if rv \<noteq> FIPS_BUF_SUCCESS then Some (Returned FIPS_BUF_ERROR_CONFIG_FILE a1, sys)
       else if \<not> env_stat_ok env \<and> \<not> env_creat_ok env then Some (Exited, sys)
       else if NAME_MAX - 4 - 10 < length (a_shm_name a1)
       then Some (Returned FIPS_BUF_ERROR_INVALID_SHM_NAME a1, sys)
       else if \<not> env_sem_open_ok env \<or> \<not> env_sem_wait_ok env
       then Some (Returned FIPS_BUF_ERROR_MUTEX a1, sys)
       else Some (init_locked env a1 (sys\<lparr>sys_sem := sys_sem sys - 1\<rparr>))
     }"

section \<open>Properties\<close>

text \<open>What the header says about a registered writer and the readers.\<close>

abbreviation object_header :: "fips_sys \<Rightarrow> fips_buf_header_t" where
  "object_header sys \<equiv> fb_header (case sys_object sys of None \<Rightarrow> zero_shm | Some shm \<Rightarrow> shm)"

lemma setup_shm_counts:
  assumes "setup_shm a shm = (rv, shm')"
  shows "rv = 0" and "h_writer_count (fb_header shm') = h_writer_count (fb_header shm)"
    and "h_reader_count (fb_header shm') = h_reader_count (fb_header shm)"
    and "h_initialized (fb_header shm') \<noteq> 0"
    and "h_initialized (fb_header shm) \<noteq> 0 \<Longrightarrow> shm' = shm"
    and "h_initialized (fb_header shm) = 0 \<Longrightarrow> checksum a shm' = 0"
  using assms by (auto simp: setup_shm_def Let_def checksum_def split: if_splits)

lemma checksum_reader_index: "calc_checksum (b\<lparr>a_reader_index := i\<rparr>) = calc_checksum b"
  by (simp add: calc_checksum_def Let_def)

lemma init_register_success:
  assumes "init_register b object = (FIPS_BUF_SUCCESS, b', shm')"
  shows "h_initialized (fb_header shm') \<noteq> 0 \<and> calc_checksum b' = h_checksum (fb_header shm')
    \<and> a_role b' = a_role b
    \<and> (case a_role b of
         FIPS_WRITER \<Rightarrow> h_writer_count (fb_header object) = 0 \<and> h_writer_count (fb_header shm') = 1
           \<and> h_reader_count (fb_header shm') = h_reader_count (fb_header object)
       | FIPS_READER \<Rightarrow> a_reader_index b' = h_reader_count (fb_header object)
           \<and> h_reader_count (fb_header shm') = h_reader_count (fb_header object) + 1
           \<and> h_writer_count (fb_header shm') = h_writer_count (fb_header object))"
proof -
  obtain rv shm where s: "setup_shm b object = (rv, shm)" by (metis surj_pair)
  note c = setup_shm_counts(1-4) [OF s]
  have cs: "checksum b shm = 0"
    using assms c(1) by (auto simp: init_register_def s Let_def fips_codes split: if_splits)
  then have cc: "calc_checksum b = h_checksum (fb_header shm)" by (simp add: checksum_def split: if_splits)
  show ?thesis
  proof (cases "a_role b")
    case FIPS_WRITER
    then have "\<not> 0 < h_writer_count (fb_header shm)" "b' = b"
      "shm' = shm\<lparr>fb_header := (fb_header shm)\<lparr>h_writer_count := h_writer_count (fb_header shm) + 1\<rparr>\<rparr>"
      using assms c(1) cs by (auto simp: init_register_def s Let_def fips_codes split: if_splits)
    then show ?thesis using FIPS_WRITER c cc by (simp add: word_greater_zero_iff)
  next
    case FIPS_READER
    then have "b' = b\<lparr>a_reader_index := h_reader_count (fb_header shm)\<rparr>"
      "shm' = shm\<lparr>fb_header := (fb_header shm)\<lparr>h_reader_count := h_reader_count (fb_header shm) + 1\<rparr>\<rparr>"
      using assms c(1) cs by (auto simp: init_register_def s Let_def fips_codes split: if_splits)
    then show ?thesis using FIPS_READER c cc by (simp add: checksum_reader_index)
  qed
qed

lemma fips_buf_init_cases:
  assumes "fips_buf_init env cf a sys = Some (res, sys')"
  obtains "sys' = sys" and "\<forall>a'. res \<noteq> Returned FIPS_BUF_SUCCESS a'"
  | a1 where "(res, sys') = init_locked env a1 (sys\<lparr>sys_sem := sys_sem sys - 1\<rparr>)"
proof -
  from assms obtain rv a1 where
    "(if rv \<noteq> FIPS_BUF_SUCCESS then Some (Returned FIPS_BUF_ERROR_CONFIG_FILE a1, sys)
      else if \<not> env_stat_ok env \<and> \<not> env_creat_ok env then Some (Exited, sys)
      else if NAME_MAX - 4 - 10 < length (a_shm_name a1)
      then Some (Returned FIPS_BUF_ERROR_INVALID_SHM_NAME a1, sys)
      else if \<not> env_sem_open_ok env \<or> \<not> env_sem_wait_ok env
      then Some (Returned FIPS_BUF_ERROR_MUTEX a1, sys)
      else Some (init_locked env a1 (sys\<lparr>sys_sem := sys_sem sys - 1\<rparr>))) = Some (res, sys')"
    by (auto simp: fips_buf_init_def split: bind_splits)
  then show ?thesis using that(1) that(2) [OF sym] by (auto simp: fips_codes split: if_splits)
qed

text \<open>Initialisation takes the semaphore and gives it back on every path that returns, and a
  successful call registers the process exactly once: a writer only when no writer was registered,
  a reader under the number of readers registered before; the other counter and an existing set-up
  are left alone.\<close>

theorem fips_buf_init_registers:
  assumes init: "fips_buf_init env cf a sys = Some (res, sys')"
  shows "sys_sem sys' = sys_sem sys
    \<and> (\<forall>a'. res = Returned FIPS_BUF_SUCCESS a' \<longrightarrow>
        sys_attached sys' = sys_attached sys + 1 \<and> h_initialized (object_header sys') \<noteq> 0
        \<and> calc_checksum a' = h_checksum (object_header sys')
        \<and> (case a_role a' of
             FIPS_WRITER \<Rightarrow> h_writer_count (object_header sys) = 0 \<and> h_writer_count (object_header sys') = 1
               \<and> h_reader_count (object_header sys') = h_reader_count (object_header sys)
           | FIPS_READER \<Rightarrow> a_reader_index a' = h_reader_count (object_header sys)
               \<and> h_reader_count (object_header sys') = h_reader_count (object_header sys) + 1
               \<and> h_writer_count (object_header sys') = h_writer_count (object_header sys)))"
proof -
  define object where "object = (case sys_object sys of None \<Rightarrow> zero_shm | Some shm \<Rightarrow> shm)"
  from init show ?thesis
  proof (cases rule: fips_buf_init_cases)
    case 1
    then show ?thesis by simp
  next
    case l: (2 a1)
    define sid where "sid = (if fst (env_shmget env) = -1 then snd (env_shmget env) else fst (env_shmget env))"
    define a2 where "a2 = a1\<lparr>a_shm_id := sid\<rparr>"
    obtain rv b shm' where r: "init_register a2 object = (rv, b, shm')" by (metis surj_pair)
    let ?S = "sys\<lparr>sys_sem := sys_sem sys - 1\<rparr>"
    have "init_locked env a1 ?S =
      (if \<not> env_ftok_ok env then (Returned FIPS_BUF_ERROR_INVALID_SHM_NAME a1, sys)
       else if sid = -1 then (Returned FIPS_BUF_ERROR_SHM a2, sys)
       else if \<not> env_shmat_ok env then (Returned FIPS_BUF_ERROR_SHM a2, sys\<lparr>sys_object := Some object\<rparr>)
       else (Returned rv b, sys\<lparr>sys_object := Some shm', sys_attached := sys_attached sys + 1\<rparr>))"
      unfolding init_locked_def Let_def sid_def [symmetric] a2_def [symmetric]
      using r by (simp add: object_def [symmetric])
    with l have c: "sys_sem sys' = sys_sem sys" "(\<forall>a'. res = Returned FIPS_BUF_SUCCESS a' \<longrightarrow>
        rv = FIPS_BUF_SUCCESS \<and> a' = b \<and> sys_object sys' = Some shm' \<and> sys_attached sys' = sys_attached sys + 1)"
      by (auto simp: fips_codes split: if_splits)
    show ?thesis
      unfolding object_def [symmetric]
    proof (rule conjI [OF c(1)], intro allI impI)
      fix a' assume "res = Returned FIPS_BUF_SUCCESS a'"
      with c(2) have eq: "rv = FIPS_BUF_SUCCESS" "a' = b" "sys_object sys' = Some shm'"
        "sys_attached sys' = sys_attached sys + 1" by simp_all
      have "a_role b = a_role a2" using init_register_success [OF r [unfolded eq(1)]] by blast
      with init_register_success [OF r [unfolded eq(1)]] show "sys_attached sys' = sys_attached sys + 1 \<and> h_initialized (object_header sys') \<noteq> 0
        \<and> calc_checksum a' = h_checksum (object_header sys')
        \<and> (case a_role a' of
             FIPS_WRITER \<Rightarrow> h_writer_count (fb_header object) = 0 \<and> h_writer_count (object_header sys') = 1
               \<and> h_reader_count (object_header sys') = h_reader_count (fb_header object)
           | FIPS_READER \<Rightarrow> a_reader_index a' = h_reader_count (fb_header object)
               \<and> h_reader_count (object_header sys') = h_reader_count (fb_header object) + 1
               \<and> h_writer_count (object_header sys') = h_writer_count (fb_header object))"
        unfolding eq(2-4) option.case by (simp only: simp_thms)
    qed
  qed
qed

definition fips_good_env :: fips_env where
  "fips_good_env = \<lparr>env_access_ok = True, env_stat_ok = True, env_creat_ok = True, env_sem_open_ok = True,
     env_sem_wait_ok = True, env_ftok_ok = True, env_shmget = (-1, 5), env_shmat_ok = True\<rparr>"

definition no_object :: fips_sys where
  "no_object = \<lparr>sys_object = None, sys_attached = 0, sys_sem = 1\<rparr>"

theorem fips_buf_init_registers_witness:
  "\<exists>a' sys'. fips_buf_init fips_good_env None example_arg no_object = Some (Returned 0 a', sys')
    \<and> sys_sem sys' = 1 \<and> h_writer_count (object_header sys') = 1"
proof -
  have "\<exists>a' sys'. fips_buf_init fips_good_env None example_arg no_object = Some (Returned 0 a', sys')
      \<and> a_role a' = FIPS_WRITER"
    by (simp add: fips_buf_init_def init_locked_def init_register_def Let_def fips_good_env_def no_object_def
        example_arg_def fips_codes NAME_MAX_def setup_shm_def zero_shm_def zero_header_def checksum_def)
  then obtain a' sys' where r: "fips_buf_init fips_good_env None example_arg no_object = Some (Returned 0 a', sys')"
    "a_role a' = FIPS_WRITER" by blast
  from fips_buf_init_registers [OF r(1)] r show ?thesis
    by (simp add: fips_codes no_object_def)
qed

text \<open>The number of readers is not limited by \<open>max_reader_count\<close>: with all reader slots taken another
  reader still gets the next index, whose slot lies in the data area of the segment.\<close>

lemma init_reader_beyond_maximum:
  assumes "h_initialized (fb_header shm) \<noteq> 0" and "calc_checksum a = h_checksum (fb_header shm)"
    and "a_role a = FIPS_READER" and "h_reader_count (fb_header shm) = a_max_reader_count a"
  shows "\<exists>shm'. init_register a shm
    = (FIPS_BUF_SUCCESS, a\<lparr>a_reader_index := a_max_reader_count a\<rparr>, shm')"
  using assms by (simp add: init_register_def setup_shm_def checksum_def Let_def)

end
