(* ===== verification/Xdp_Blacklist.thy ===== *)
theory Xdp_Blacklist
  imports Prelude
begin

text \<open>
  The packet filter \<open>src/lib/ip_blacklist.bpf.c\<close>, compiled without \<open>DEBUG\<close>, \<open>SUBNET\<close> and
  \<open>LONGTERM\<close>: \<open>parse_eth\<close>, \<open>parse_port\<close>, \<open>parse_ipv4\<close>, \<open>parse_ipv6\<close>, \<open>handle_eth_protocol\<close>,
  \<open>stats_action_verdict\<close> and the entry point \<open>xdp_prog\<close>. A packet is the byte list between \<open>data\<close>
  and \<open>data_end\<close>; pointers are offsets into it and a read outside is \<open>None\<close>. The maps are what the
  program sees on one CPU: hash maps from the key bytes to the 64-bit value, array maps as total
  functions on the valid indices.
\<close>

section \<open>Constants and maps\<close>

definition XDP_ABORTED :: nat where "XDP_ABORTED = 0"
definition XDP_DROP :: nat where "XDP_DROP = 1"
definition XDP_PASS :: nat where "XDP_PASS = 2"
definition XDP_TX :: nat where "XDP_TX = 3"
definition XDP_ACTION_MAX :: nat where "XDP_ACTION_MAX = XDP_TX + 2"

lemmas xdp_actions = XDP_ABORTED_def XDP_DROP_def XDP_PASS_def XDP_TX_def XDP_ACTION_MAX_def

definition DDOS_FILTER_TCP :: nat where "DDOS_FILTER_TCP = 0"
definition DDOS_FILTER_UDP :: nat where "DDOS_FILTER_UDP = 1"

definition ETH_P_802_3_MIN :: nat where "ETH_P_802_3_MIN = 0x600"
definition ETH_P_8021Q :: nat where "ETH_P_8021Q = 0x8100"
definition ETH_P_8021AD :: nat where "ETH_P_8021AD = 0x88A8"
definition ETH_P_IP :: nat where "ETH_P_IP = 0x800"
definition ETH_P_IPV6 :: nat where "ETH_P_IPV6 = 0x86DD"

lemmas eth_types =
  ETH_P_802_3_MIN_def ETH_P_8021Q_def ETH_P_8021AD_def ETH_P_IP_def ETH_P_IPV6_def

record xdp_maps =
  blacklistv4 :: "bytes \<rightharpoonup> u64"
  blacklistv6 :: "bytes \<rightharpoonup> u64"
  verdict_cnt :: "nat \<Rightarrow> u64"
  port_blacklist :: "nat \<Rightarrow> u64"
  port_blacklist_drop_count_tcp :: "nat \<Rightarrow> u64"
  port_blacklist_drop_count_udp :: "nat \<Rightarrow> u64"

text \<open>A byte and a big-endian 16-bit number of the packet.\<close>

definition byte_at :: "bytes \<Rightarrow> nat \<Rightarrow> nat option" where
  "byte_at pkt off = map_option unat (nth_opt pkt off)"

definition be16_at :: "bytes \<Rightarrow> nat \<Rightarrow> nat option" where
  "be16_at pkt off =
     do {
       hi \<leftarrow> byte_at pkt off;
       lo \<leftarrow> byte_at pkt (off + 1);
       Some (256 * hi + lo)
     }"

section \<open>Statistics\<close>

definition stats_action_verdict :: "nat \<Rightarrow> xdp_maps \<Rightarrow> xdp_maps" where
  "stats_action_verdict action m =
     (if XDP_ACTION_MAX \<le> action then m
      else m\<lparr>verdict_cnt := (verdict_cnt m)(action := verdict_cnt m action + 1)\<rparr>)"

text \<open>The counter of dropped packets for a protocol.\<close>

definition drop_count_by_fproto :: "nat \<Rightarrow> nat \<Rightarrow> xdp_maps \<Rightarrow> xdp_maps" where
  "drop_count_by_fproto fproto i m =
     (if fproto = DDOS_FILTER_UDP
      then m\<lparr>port_blacklist_drop_count_udp :=
               (port_blacklist_drop_count_udp m)(i := port_blacklist_drop_count_udp m i + 1)\<rparr>
      else if fproto = DDOS_FILTER_TCP
      then m\<lparr>port_blacklist_drop_count_tcp :=
               (port_blacklist_drop_count_tcp m)(i := port_blacklist_drop_count_tcp m i + 1)\<rparr>
      else m)"

section \<open>Ethernet\<close>

text \<open>One VLAN tag, when the type says so: \<open>Inl\<close> is a verdict.\<close>

definition parse_vlan :: "bytes \<Rightarrow> nat \<times> nat \<Rightarrow> (nat + nat \<times> nat) option" where
  "parse_vlan pkt st =
     (case st of (eth_type, offset) \<Rightarrow>
        if eth_type = ETH_P_8021Q \<or> eth_type = ETH_P_8021AD
        then if length pkt < offset + 4 then Some (Inl XDP_ABORTED)
             else do {
               t \<leftarrow> be16_at pkt (offset + 2);
               Some (Inr (t, offset + 4))
             }
        else Some (Inr (eth_type, offset)))"

definition parse_eth :: "bytes \<Rightarrow> (nat + nat \<times> nat) option" where
  "parse_eth pkt =
     (if length pkt < 14 then Some (Inl XDP_ABORTED)
      else do {
        eth_type \<leftarrow> be16_at pkt 12;
        if eth_type < ETH_P_802_3_MIN then Some (Inl XDP_PASS)
        else do {
          r \<leftarrow> parse_vlan pkt (eth_type, 14);
          (case r of Inl action \<Rightarrow> Some (Inl action) | Inr st \<Rightarrow> parse_vlan pkt st)
        }
      })"

section \<open>Ports and IP\<close>

definition IPPROTO_TCP :: nat where "IPPROTO_TCP = 6"
definition IPPROTO_UDP :: nat where "IPPROTO_UDP = 17"

text \<open>The value of the port map is read as 32 bits.\<close>

definition port_verdict :: "nat \<Rightarrow> nat \<Rightarrow> xdp_maps \<Rightarrow> nat \<times> xdp_maps" where
  "port_verdict fproto dport m =
     (if (ucast (port_blacklist m dport) :: u32) AND push_bit fproto 1 \<noteq> 0
      then (XDP_DROP, drop_count_by_fproto fproto dport m)
      else (XDP_PASS, m))"

definition parse_port :: "bytes \<Rightarrow> nat \<Rightarrow> nat \<Rightarrow> xdp_maps \<Rightarrow> (nat \<times> xdp_maps) option" where
  "parse_port pkt proto hdr m =
     (if proto = IPPROTO_UDP
      then if length pkt < hdr + 8 then Some (XDP_ABORTED, m)
           else map_option (\<lambda>dport. port_verdict DDOS_FILTER_UDP dport m) (be16_at pkt (hdr + 2))
      else if proto = IPPROTO_TCP
      then if length pkt < hdr + 20 then Some (XDP_ABORTED, m)
           else map_option (\<lambda>dport. port_verdict DDOS_FILTER_TCP dport m) (be16_at pkt (hdr + 2))
      else Some (XDP_PASS, m))"

text \<open>Packets from 10.3.30.0/24 are counted under the last index.\<close>

definition count_testbed :: "bytes \<Rightarrow> xdp_maps \<Rightarrow> xdp_maps" where
  "count_testbed ip_src m =
     (if take 3 ip_src = [0x0A, 0x03, 0x1E]
      then m\<lparr>verdict_cnt := (verdict_cnt m)(XDP_ACTION_MAX - 1 := verdict_cnt m (XDP_ACTION_MAX - 1) + 1)\<rparr>
      else m)"

text \<open>The call of \<open>parse_port\<close> at the end of the function comes after an unconditional return.\<close>

definition parse_ipv4 :: "bytes \<Rightarrow> nat \<Rightarrow> xdp_maps \<Rightarrow> (nat \<times> xdp_maps) option" where
  "parse_ipv4 pkt l3_offset m =
     (if length pkt < l3_offset + 20 then Some (XDP_ABORTED, m)
      else do {
        ip_src \<leftarrow> mem_read pkt (l3_offset + 12) 4;
        let m1 = count_testbed ip_src m;
        (case blacklistv4 m1 ip_src of
           Some v \<Rightarrow> Some (XDP_DROP, m1\<lparr>blacklistv4 := (blacklistv4 m1)(ip_src \<mapsto> v + 1)\<rparr>)
         | None \<Rightarrow> Some (XDP_PASS, m1))
      })"

definition is_ext_header :: "nat \<Rightarrow> bool" where
  "is_ext_header protocol \<longleftrightarrow> protocol \<in> {0, 43, 51, 60, 135, 139, 140}"

text \<open>The loop over the extension headers; the first argument is the number of rounds left. The
  bound that is checked for an extension header is \<open>sizeof\<close> of an \<open>int\<close> expression.\<close>

fun ext_headers :: "nat \<Rightarrow> bytes \<Rightarrow> nat \<Rightarrow> nat \<Rightarrow> xdp_maps \<Rightarrow> (nat \<times> xdp_maps) option" where
  "ext_headers 0 pkt protocol l4_offset m = Some (XDP_DROP, m)"
| "ext_headers (Suc n) pkt protocol l4_offset m =
     (if 143 < protocol then Some (XDP_DROP, m)
      else if protocol = 44
      then if length pkt < l4_offset + 8 then Some (XDP_ABORTED, m)
           else do {
             nexthdr \<leftarrow> byte_at pkt l4_offset;
             ext_headers n pkt nexthdr (l4_offset + 8) m
           }
      else if is_ext_header protocol
      then if length pkt < l4_offset + 4 then Some (XDP_ABORTED, m)
           else do {
             nexthdr \<leftarrow> byte_at pkt l4_offset;
             hdrlen \<leftarrow> byte_at pkt (l4_offset + 1);
             ext_headers n pkt nexthdr (l4_offset + hdrlen * 8 + 8) m
           }
      else parse_port pkt protocol l4_offset m)"

definition parse_ipv6 :: "bytes \<Rightarrow> nat \<Rightarrow> xdp_maps \<Rightarrow> (nat \<times> xdp_maps) option" where
  "parse_ipv6 pkt l3_offset m =
     (if length pkt < l3_offset + 40 then Some (XDP_ABORTED, m)
      else do {
        ip_src \<leftarrow> mem_read pkt (l3_offset + 8) 16;
        (case blacklistv6 m ip_src of
           Some v \<Rightarrow> Some (XDP_DROP, m\<lparr>blacklistv6 := (blacklistv6 m)(ip_src \<mapsto> v + 1)\<rparr>)
         | None \<Rightarrow> do {
             protocol \<leftarrow> byte_at pkt (l3_offset + 6);
             ext_headers 10 pkt protocol (l3_offset + 40) m
           })
      })"

definition handle_eth_protocol :: "bytes \<Rightarrow> nat \<Rightarrow> nat \<Rightarrow> xdp_maps \<Rightarrow> (nat \<times> xdp_maps) option" where
  "handle_eth_protocol pkt eth_proto l3_offset m =
     (if eth_proto = ETH_P_IP then parse_ipv4 pkt l3_offset m
      else if eth_proto = ETH_P_IPV6 then parse_ipv6 pkt l3_offset m
      else Some (XDP_PASS, m))"

definition xdp_prog :: "bytes \<Rightarrow> xdp_maps \<Rightarrow> (nat \<times> xdp_maps) option" where
  "xdp_prog pkt m =
     do {
       r \<leftarrow> parse_eth pkt;
       (action, m') \<leftarrow> (case r of
           Inl action \<Rightarrow> Some (action, m)
         | Inr (eth_proto, l3_offset) \<Rightarrow> handle_eth_protocol pkt eth_proto l3_offset m);
       Some (action, stats_action_verdict action m')
     }"

section \<open>Safety\<close>

lemma byte_at_ok: "off < length pkt \<Longrightarrow> \<exists>b < 256. byte_at pkt off = Some b"
  by (simp add: byte_at_def unat_u8_less)

lemma be16_at_ok: "off + 1 < length pkt \<Longrightarrow> \<exists>x < 65536. be16_at pkt off = Some x"
proof -
  assume "off + 1 < length pkt"
  then obtain hi lo where "hi < 256" "lo < 256" "byte_at pkt off = Some hi" "byte_at pkt (off + 1) = Some lo"
    using byte_at_ok [of off pkt] byte_at_ok [of "off + 1" pkt] by auto
  then show ?thesis by (simp add: be16_at_def)
qed

lemma parse_vlan_ok: "\<exists>r. parse_vlan pkt st = Some r \<and> (\<forall>a. r = Inl a \<longrightarrow> a \<le> XDP_PASS)"
proof -
  obtain eth_type offset where "st = (eth_type, offset)" by (cases st)
  then show ?thesis
    using be16_at_ok [of "offset + 2" pkt] by (auto simp: parse_vlan_def xdp_actions)
qed

lemma parse_eth_ok: "\<exists>r. parse_eth pkt = Some r \<and> (\<forall>a. r = Inl a \<longrightarrow> a \<le> XDP_PASS)"
proof (cases "length pkt < 14")
  case True
  then show ?thesis by (simp add: parse_eth_def xdp_actions)
next
  case False
  then obtain x where x: "be16_at pkt 12 = Some x" using be16_at_ok [of 12 pkt] by auto
  obtain r where r: "parse_vlan pkt (x, 14) = Some r" "\<forall>a. r = Inl a \<longrightarrow> a \<le> XDP_PASS"
    using parse_vlan_ok by blast
  show ?thesis
  proof (cases r)
    case (Inl a)
    then show ?thesis using False x r by (simp add: parse_eth_def xdp_actions)
  next
    case (Inr st)
    then show ?thesis using False x r parse_vlan_ok [of pkt st] by (auto simp: parse_eth_def xdp_actions)
  qed
qed

lemma port_verdict_ok: "fst (port_verdict fproto dport m) \<in> {XDP_DROP, XDP_PASS}"
  by (simp add: port_verdict_def)

lemma parse_port_ok: "\<exists>a m'. parse_port pkt proto hdr m = Some (a, m') \<and> a \<le> XDP_PASS"
proof -
  have "\<exists>a m'. port_verdict f d m = (a, m') \<and> a \<le> XDP_PASS" for f d
    using port_verdict_ok [of f d m] by (cases "port_verdict f d m") (auto simp: xdp_actions)
  then show ?thesis using be16_at_ok [of "hdr + 2" pkt]
    by (auto simp: parse_port_def xdp_actions)
qed

lemma ext_headers_ok: "\<exists>a m'. ext_headers n pkt protocol off m = Some (a, m') \<and> a \<le> XDP_PASS"
proof (induction n arbitrary: protocol off)
  case 0
  then show ?case by (simp add: xdp_actions)
next
  case (Suc n)
  have "off + 8 \<le> length pkt \<Longrightarrow> \<exists>b. byte_at pkt off = Some b" using byte_at_ok [of off pkt] by auto
  moreover have "off + 4 \<le> length pkt \<Longrightarrow> \<exists>b c. byte_at pkt off = Some b \<and> byte_at pkt (off + 1) = Some c"
    using byte_at_ok [of off pkt] byte_at_ok [of "off + 1" pkt] by auto
  ultimately show ?case
    using Suc.IH parse_port_ok [of pkt protocol off m] by (auto simp: xdp_actions not_less)
qed

lemma handle_eth_protocol_ok:
  "\<exists>a m'. handle_eth_protocol pkt eth_proto off m = Some (a, m') \<and> a \<le> XDP_PASS"
proof -
  have "\<exists>a m'. parse_ipv4 pkt off m = Some (a, m') \<and> a \<le> XDP_PASS"
    by (auto simp: parse_ipv4_def Let_def xdp_actions split: option.splits)
  moreover have "\<exists>a m'. parse_ipv6 pkt off m = Some (a, m') \<and> a \<le> XDP_PASS"
  proof (cases "length pkt < off + 40")
    case True
    then show ?thesis by (simp add: parse_ipv6_def xdp_actions)
  next
    case False
    then obtain b where "byte_at pkt (off + 6) = Some b" using byte_at_ok [of "off + 6" pkt] by auto
    with False ext_headers_ok [of 10 pkt b "off + 40" m] show ?thesis
      by (auto simp: parse_ipv6_def xdp_actions split: option.splits)
  qed
  ultimately show ?thesis by (simp add: handle_eth_protocol_def xdp_actions)
qed

text \<open>The parsers leave the verdict counters alone, apart from the testbed counter, and the sets of
  blacklisted addresses.\<close>

definition same_verdicts :: "xdp_maps \<Rightarrow> xdp_maps \<Rightarrow> bool" where
  "same_verdicts m m' \<longleftrightarrow> (\<forall>i < XDP_ACTION_MAX - 1. verdict_cnt m' i = verdict_cnt m i)
     \<and> dom (blacklistv4 m') = dom (blacklistv4 m) \<and> dom (blacklistv6 m') = dom (blacklistv6 m)"

lemma port_verdict_frame: "port_verdict fproto dport m = (a, m') \<Longrightarrow> same_verdicts m m'"
  by (auto simp: port_verdict_def drop_count_by_fproto_def same_verdicts_def split: if_splits)

lemma parse_port_frame: "parse_port pkt proto hdr m = Some (a, m') \<Longrightarrow> same_verdicts m m'"
  by (auto simp: parse_port_def dest!: port_verdict_frame split: if_splits)
    (simp_all add: same_verdicts_def)

lemma ext_headers_frame: "ext_headers n pkt protocol off m = Some (a, m') \<Longrightarrow> same_verdicts m m'"
proof (induction n arbitrary: protocol off)
  case 0
  then show ?case by (simp add: same_verdicts_def)
next
  case (Suc n)
  have "same_verdicts m m" by (simp add: same_verdicts_def)
  with Suc show ?case by (auto dest: parse_port_frame split: if_splits bind_splits)
qed

lemma same_verdicts_bump:
  "same_verdicts m m1 \<Longrightarrow> blacklistv4 m1 k = Some v \<Longrightarrow> same_verdicts m (m1\<lparr>blacklistv4 := (blacklistv4 m1)(k \<mapsto> v')\<rparr>)"
  "same_verdicts m m1 \<Longrightarrow> blacklistv6 m1 k = Some v \<Longrightarrow> same_verdicts m (m1\<lparr>blacklistv6 := (blacklistv6 m1)(k \<mapsto> v')\<rparr>)"
  by (auto simp: same_verdicts_def)

lemma handle_eth_protocol_frame:
  "handle_eth_protocol pkt eth_proto off m = Some (a, m') \<Longrightarrow> same_verdicts m m'"
proof -
  have refl: "same_verdicts m m" by (simp add: same_verdicts_def)
  have tb: "same_verdicts m (count_testbed ip m)" for ip by (simp add: count_testbed_def same_verdicts_def)
  have "parse_ipv4 pkt off m = Some (a, m') \<Longrightarrow> same_verdicts m m'"
    using refl tb
    by (auto simp: parse_ipv4_def Let_def intro: same_verdicts_bump split: if_splits option.splits bind_splits)
  moreover have "parse_ipv6 pkt off m = Some (a, m') \<Longrightarrow> same_verdicts m m'"
    using refl by (auto simp: parse_ipv6_def intro: same_verdicts_bump dest: ext_headers_frame
        split: if_splits option.splits bind_splits)
  moreover assume "handle_eth_protocol pkt eth_proto off m = Some (a, m')"
  ultimately show ?thesis using refl by (auto simp: handle_eth_protocol_def split: if_splits)
qed

lemma xdp_prog_total:
  "\<exists>action m1. xdp_prog pkt m = Some (action, stats_action_verdict action m1) \<and> action \<le> XDP_PASS
    \<and> same_verdicts m m1"
proof -
  obtain r where r: "parse_eth pkt = Some r" "\<forall>a. r = Inl a \<longrightarrow> a \<le> XDP_PASS" using parse_eth_ok by blast
  have "\<exists>a m1. (case r of Inl action \<Rightarrow> Some (action, m)
      | Inr (eth_proto, l3_offset) \<Rightarrow> handle_eth_protocol pkt eth_proto l3_offset m) = Some (a, m1)
      \<and> a \<le> XDP_PASS \<and> same_verdicts m m1"
  proof (cases r)
    case (Inl a)
    then show ?thesis using r(2) by (simp add: same_verdicts_def)
  next
    case (Inr st)
    then show ?thesis
      using handle_eth_protocol_ok [of pkt "fst st" "snd st" m] handle_eth_protocol_frame
      by (cases st) fastforce
  qed
  then show ?thesis using r(1) by (auto simp: xdp_prog_def)
qed

lemma xdp_prog_keeps_blacklists:
  assumes "xdp_prog pkt m = Some (action, m')"
  shows "dom (blacklistv4 m') = dom (blacklistv4 m) \<and> dom (blacklistv6 m') = dom (blacklistv6 m)"
proof -
  obtain m1 where "m' = stats_action_verdict action m1" "same_verdicts m m1"
    using xdp_prog_total [of pkt m] assms by auto
  then show ?thesis by (simp add: same_verdicts_def stats_action_verdict_def)
qed

text \<open>C11. For every packet and every content of the maps the filter stays inside the packet, ends with
  one of the verdicts ABORTED, DROP and PASS, and counts the packet under its verdict and under no
  other one. It neither adds nor removes a blacklisted address.\<close>

theorem xdp_prog_safe:
  "\<exists>action m'. xdp_prog pkt m = Some (action, m') \<and> action \<in> {XDP_ABORTED, XDP_DROP, XDP_PASS}
    \<and> map (verdict_cnt m') [0 ..< XDP_ACTION_MAX - 1]
      = (map (verdict_cnt m) [0 ..< XDP_ACTION_MAX - 1])[action := verdict_cnt m action + 1]
    \<and> dom (blacklistv4 m') = dom (blacklistv4 m) \<and> dom (blacklistv6 m') = dom (blacklistv6 m)"
proof -
  obtain a m1 where h: "xdp_prog pkt m = Some (a, stats_action_verdict a m1)" "a \<le> XDP_PASS" "same_verdicts m m1"
    using xdp_prog_total by blast
  have "map (verdict_cnt (stats_action_verdict a m1)) [0 ..< XDP_ACTION_MAX - 1]
      = (map (verdict_cnt m) [0 ..< XDP_ACTION_MAX - 1])[a := verdict_cnt m a + 1]"
    using h(2,3) by (intro nth_equalityI)
      (auto simp: stats_action_verdict_def same_verdicts_def xdp_actions nth_list_update)
  moreover have "a \<in> {XDP_ABORTED, XDP_DROP, XDP_PASS}" using h(2) by (auto simp: xdp_actions)
  ultimately show ?thesis using h(1) xdp_prog_keeps_blacklists [OF h(1)] by blast
qed

section \<open>Frames\<close>

text \<open>An Ethernet frame: twelve address bytes, up to two VLAN tags, the type and the payload.\<close>

definition be16 :: "nat \<Rightarrow> bytes" where
  "be16 x = [word_of_nat (x div 256), word_of_nat x]"

definition vlan_bytes :: "(nat \<times> bytes) list \<Rightarrow> bytes" where
  "vlan_bytes tags = concat (map (\<lambda>(tpid, tci). be16 tpid @ tci) tags)"

definition eth_frame :: "bytes \<Rightarrow> (nat \<times> bytes) list \<Rightarrow> nat \<Rightarrow> bytes \<Rightarrow> bytes" where
  "eth_frame macs tags eth_type body = macs @ vlan_bytes tags @ be16 eth_type @ body"

definition frame_ok :: "bytes \<Rightarrow> (nat \<times> bytes) list \<Rightarrow> bool" where
  "frame_ok macs tags \<longleftrightarrow> length macs = 12 \<and> length tags \<le> 2
     \<and> (\<forall>t\<in>set tags. (fst t = ETH_P_8021Q \<or> fst t = ETH_P_8021AD) \<and> length (snd t) = 2)"

lemma length_be16 [simp]: "length (be16 x) = 2"
  by (simp add: be16_def)

lemma byte_at_append: "byte_at (xs @ y # ys) (length xs) = Some (unat y)"
  by (simp add: byte_at_def nth_append)

lemma be16_at_be16: "x < 65536 \<Longrightarrow> be16_at (xs @ be16 x @ ys) (length xs) = Some x"
proof -
  assume x: "x < 65536"
  have "byte_at (xs @ be16 x @ ys) (length xs) = Some (x div 256)"
    using byte_at_append [of xs "word_of_nat (x div 256)"] x by (simp add: be16_def unat_of_nat)
  moreover have "byte_at (xs @ be16 x @ ys) (length xs + 1) = Some (x mod 256)"
    using byte_at_append [of "xs @ [word_of_nat (x div 256)]" "word_of_nat x" ys]
    by (simp add: be16_def unat_of_nat)
  ultimately show ?thesis by (simp add: be16_at_def)
qed

lemma parse_vlan_tag:
  assumes "pkt = xs @ be16 tpid @ tci @ be16 t @ ys" and "tpid = ETH_P_8021Q \<or> tpid = ETH_P_8021AD"
    and "length tci = 2" and "t < 65536"
  shows "parse_vlan pkt (tpid, length xs + 2) = Some (Inr (t, length xs + 6))"
proof -
  have "be16_at pkt (length xs + 4) = Some t"
    using be16_at_be16 [OF assms(4), of "xs @ be16 tpid @ tci" ys] assms(1,3) by simp
  moreover have "length xs + 2 + 2 = length xs + 4" "length xs + 2 + 4 = length xs + 6" by simp_all
  moreover have "\<not> length pkt < length xs + 6" using assms(1,3) by simp
  ultimately show ?thesis using assms(2) unfolding parse_vlan_def prod.case by (simp only: if_False if_True) simp
qed

lemma parse_eth_frame:
  assumes ok: "frame_ok macs tags" and t: "t < 65536" "ETH_P_802_3_MIN \<le> t" "t \<noteq> ETH_P_8021Q" "t \<noteq> ETH_P_8021AD"
    and pkt: "pkt = eth_frame macs tags t body"
  shows "parse_eth pkt = Some (Inr (t, 14 + 4 * length tags))"
proof -
  have macs: "length macs = 12" using ok by (simp add: frame_ok_def)
  have stop: "parse_vlan pkt (t, off) = Some (Inr (t, off))" for off using t by (simp add: parse_vlan_def)
  consider "tags = []" | p c where "tags = [(p, c)]" | p c q d where "tags = [(p, c), (q, d)]"
    using ok by (cases tags; cases "tl tags"; cases "tl (tl tags)") (auto simp: frame_ok_def)
  then show ?thesis
  proof cases
    case 1
    then have "be16_at pkt 12 = Some t" using be16_at_be16 [OF t(1), of macs body] macs pkt
      by (simp add: eth_frame_def vlan_bytes_def)
    then show ?thesis using 1 pkt macs t(2) stop by (simp add: parse_eth_def eth_frame_def vlan_bytes_def)
  next
    case (2 p c)
    then have p: "p = ETH_P_8021Q \<or> p = ETH_P_8021AD" "length c = 2" using ok by (auto simp: frame_ok_def)
    have eq: "pkt = macs @ be16 p @ c @ be16 t @ body" using pkt 2 by (simp add: eth_frame_def vlan_bytes_def)
    have "p < 65536" "ETH_P_802_3_MIN \<le> p" using p(1) by (auto simp: eth_types)
    then have "be16_at pkt 12 = Some p" using be16_at_be16 [of p macs "c @ be16 t @ body"] macs eq by simp
    moreover have "parse_vlan pkt (p, 14) = Some (Inr (t, 18))"
      using parse_vlan_tag [OF eq p t(1)] macs by simp
    ultimately show ?thesis using 2 eq macs \<open>ETH_P_802_3_MIN \<le> p\<close> stop by (simp add: parse_eth_def)
  next
    case (3 p c q d)
    then have p: "p = ETH_P_8021Q \<or> p = ETH_P_8021AD" "length c = 2"
      and q: "q = ETH_P_8021Q \<or> q = ETH_P_8021AD" "length d = 2" using ok by (auto simp: frame_ok_def)
    have eq: "pkt = macs @ be16 p @ c @ be16 q @ d @ be16 t @ body"
      "pkt = (macs @ be16 p @ c) @ be16 q @ d @ be16 t @ body"
      using pkt 3 by (simp_all add: eth_frame_def vlan_bytes_def)
    have "p < 65536" "q < 65536" "ETH_P_802_3_MIN \<le> p" using p(1) q(1) by (auto simp: eth_types)
    then have "be16_at pkt 12 = Some p" using be16_at_be16 [of p macs] macs eq(1) by simp
    moreover have "parse_vlan pkt (p, 14) = Some (Inr (q, 18))"
      using parse_vlan_tag [OF eq(1) p \<open>q < 65536\<close>] macs by simp
    moreover have "parse_vlan pkt (q, 18) = Some (Inr (t, 22))"
      using parse_vlan_tag [OF eq(2) q t(1)] macs p(2) by simp
    ultimately show ?thesis using 3 eq(1) macs \<open>ETH_P_802_3_MIN \<le> p\<close> by (simp add: parse_eth_def)
  qed
qed

lemma frame_body:
  assumes "frame_ok macs tags"
  shows "drop (14 + 4 * length tags) (eth_frame macs tags t body) = body"
proof -
  have "length (vlan_bytes ts) = 4 * length ts" if "\<forall>t\<in>set ts. length (snd t) = 2" for ts
    using that by (induction ts) (auto simp: vlan_bytes_def)
  then have "length (macs @ vlan_bytes tags @ be16 t) = 14 + 4 * length tags"
    using assms by (simp add: frame_ok_def)
  moreover have "eth_frame macs tags t body = (macs @ vlan_bytes tags @ be16 t) @ body"
    by (simp add: eth_frame_def)
  ultimately show ?thesis by (metis append_eq_conv_conj)
qed

lemma mem_read_drop: "mem_read pkt (off + k) n = mem_read (drop off pkt) k n" if "off \<le> length pkt"
  using that by (auto simp: mem_read_def add.commute)

lemma xdp_ipv4_verdict:
  assumes ok: "frame_ok macs tags" and len: "20 \<le> length body" and src: "src = take 4 (drop 12 body)"
  shows "\<exists>m'. xdp_prog (eth_frame macs tags ETH_P_IP body) m
      = Some (if src \<in> dom (blacklistv4 m) then XDP_DROP else XDP_PASS, m')
    \<and> blacklistv4 m' = (case blacklistv4 m src of None \<Rightarrow> blacklistv4 m | Some v \<Rightarrow> (blacklistv4 m)(src \<mapsto> v + 1))
    \<and> blacklistv6 m' = blacklistv6 m
    \<and> port_blacklist_drop_count_tcp m' = port_blacklist_drop_count_tcp m
    \<and> port_blacklist_drop_count_udp m' = port_blacklist_drop_count_udp m"
proof -
  let ?pkt = "eth_frame macs tags ETH_P_IP body" and ?off = "14 + 4 * length tags"
  have eth: "parse_eth ?pkt = Some (Inr (ETH_P_IP, ?off))"
    by (rule parse_eth_frame [OF ok _ _ _ _ refl]) (simp_all add: eth_types)
  have lp: "?off + length body = length ?pkt"
    using arg_cong [OF frame_body [OF ok, of ETH_P_IP body], of length] len by simp
  then have "mem_read ?pkt (?off + 12) 4 = Some src"
    using mem_read_drop [of ?off ?pkt 12 4] frame_body [OF ok] len src by simp
  moreover have "\<not> length ?pkt < ?off + 20" using lp len by linarith
  ultimately have "parse_ipv4 ?pkt ?off m = (case blacklistv4 (count_testbed src m) src of
      Some v \<Rightarrow> Some (XDP_DROP, (count_testbed src m)
        \<lparr>blacklistv4 := (blacklistv4 (count_testbed src m))(src \<mapsto> v + 1)\<rparr>)
    | None \<Rightarrow> Some (XDP_PASS, count_testbed src m))"
    unfolding parse_ipv4_def by (simp only: if_False Option.bind.bind_lunit Let_def)
  moreover have "handle_eth_protocol ?pkt ETH_P_IP ?off m = parse_ipv4 ?pkt ?off m"
    by (simp add: handle_eth_protocol_def)
  moreover have "blacklistv4 (count_testbed src m) = blacklistv4 m" "blacklistv6 (count_testbed src m) = blacklistv6 m"
    "port_blacklist_drop_count_tcp (count_testbed src m) = port_blacklist_drop_count_tcp m"
    "port_blacklist_drop_count_udp (count_testbed src m) = port_blacklist_drop_count_udp m"
    by (simp_all add: count_testbed_def)
  ultimately show ?thesis
    using eth by (cases "blacklistv4 m src") (auto simp: xdp_prog_def stats_action_verdict_def)
qed

text \<open>C8. The IPv4 blacklist is enforced on every well-formed frame, with up to two VLAN tags: the
  packet is dropped exactly when its source address is in the map, then its counter goes up by one
  and no other entry changes; all other packets pass. The port maps are neither consulted nor
  changed.\<close>

theorem xdp_ipv4_enforced:
  assumes ok: "frame_ok macs tags" and len: "20 \<le> length body" and src: "src = take 4 (drop 12 body)"
  shows "\<exists>m'. xdp_prog (eth_frame macs tags ETH_P_IP body) m
      = Some (if src \<in> dom (blacklistv4 m) then XDP_DROP else XDP_PASS, m')
    \<and> blacklistv4 m' = (case blacklistv4 m src of None \<Rightarrow> blacklistv4 m | Some v \<Rightarrow> (blacklistv4 m)(src \<mapsto> v + 1))
    \<and> blacklistv6 m' = blacklistv6 m
    \<and> port_blacklist_drop_count_tcp m' = port_blacklist_drop_count_tcp m
    \<and> port_blacklist_drop_count_udp m' = port_blacklist_drop_count_udp m"
  by (rule xdp_ipv4_verdict [OF assms])

definition no_maps :: xdp_maps where
  "no_maps = \<lparr>blacklistv4 = Map.empty, blacklistv6 = Map.empty, verdict_cnt = (\<lambda>_. 0),
     port_blacklist = (\<lambda>_. 0), port_blacklist_drop_count_tcp = (\<lambda>_. 0),
     port_blacklist_drop_count_udp = (\<lambda>_. 0)\<rparr>"

theorem xdp_ipv4_enforced_witness:
  "\<exists>m'. xdp_prog (eth_frame (replicate 12 0) [(0x8100, [0, 7])] 0x800 (replicate 12 0 @ [192, 0, 2, 1] @ [10, 0, 0, 1]))
      (no_maps\<lparr>blacklistv4 := [[192, 0, 2, 1] \<mapsto> 4]\<rparr>) = Some (1, m')
    \<and> blacklistv4 m' [192, 0, 2, 1] = Some 5"
proof -
  have "frame_ok (replicate 12 0) [(0x8100, [0, 7])]" by (simp add: frame_ok_def eth_types)
  from xdp_ipv4_enforced [OF this, of "replicate 12 0 @ [192, 0, 2, 1] @ [10, 0, 0, 1]" _
      "no_maps\<lparr>blacklistv4 := [[192, 0, 2, 1] \<mapsto> 4]\<rparr>", OF _ refl]
  show ?thesis by (auto simp: xdp_actions eth_types)
qed

section \<open>IPv6 extension headers\<close>

text \<open>A chain of extension headers: the kind of each and the bytes behind its first byte, which
  names the kind of the next one.\<close>

definition ext_ok :: "nat \<times> bytes \<Rightarrow> bool" where
  "ext_ok e \<longleftrightarrow> (if fst e = 44 then length (snd e) = 7
     else is_ext_header (fst e) \<and> snd e \<noteq> [] \<and> length (snd e) = unat (hd (snd e)) * 8 + 7)"

fun first_header :: "(nat \<times> bytes) list \<Rightarrow> nat \<Rightarrow> nat" where
  "first_header [] f = f"
| "first_header (e # es) f = fst e"

fun ext_bytes :: "(nat \<times> bytes) list \<Rightarrow> nat \<Rightarrow> bytes" where
  "ext_bytes [] f = []"
| "ext_bytes (e # es) f = word_of_nat (first_header es f) # snd e @ ext_bytes es f"

lemma byte_at_drop: "byte_at pkt (off + k) = byte_at (drop off pkt) k"
  by (auto simp: byte_at_def nth_opt_def)

lemma is_ext_less: "is_ext_header k \<Longrightarrow> k \<le> 143 \<and> k \<noteq> 44"
  by (auto simp: is_ext_header_def)

lemma first_header_less: "\<forall>e\<in>set es. ext_ok e \<Longrightarrow> f \<le> 143 \<Longrightarrow> first_header es f < 256"
  by (cases es) (auto simp: ext_ok_def dest: is_ext_less split: if_splits)

lemma ext_headers_chain:
  assumes "\<forall>e\<in>set es. ext_ok e" and "length es < n" and f: "f \<le> 143" "f \<noteq> 44" "\<not> is_ext_header f"
    and "drop off pkt = ext_bytes es f @ rest"
  shows "ext_headers n pkt (first_header es f) off m = parse_port pkt f (off + length (ext_bytes es f)) m"
  using assms(1,2,6)
proof (induction es arbitrary: n off)
  case Nil
  then obtain k where "n = Suc k" by (cases n) auto
  then show ?case using f by simp
next
  case (Cons e es)
  then obtain k where n: "n = Suc k" "length es < k" by (cases n) auto
  have e: "ext_ok e" and es: "\<forall>e\<in>set es. ext_ok e" using Cons.prems(1) by simp_all
  let ?nx = "first_header es f"
  have nx: "unat (word_of_nat ?nx :: u8) = ?nx"
    using first_header_less [OF es f(1)] by (simp add: unat_of_nat)
  have d: "drop off pkt = word_of_nat ?nx # snd e @ ext_bytes es f @ rest" using Cons.prems(3) by simp
  have b0: "byte_at pkt off = Some ?nx" using byte_at_drop [of pkt off 0] d nx by (simp add: byte_at_def)
  have "drop (off + (1 + length (snd e))) pkt = ext_bytes es f @ rest"
  proof -
    have "drop (off + (1 + length (snd e))) pkt = drop (1 + length (snd e)) (drop off pkt)"
      by (simp only: drop_drop add.commute)
    then show ?thesis by (simp add: d)
  qed
  note IH = Cons.IH [OF es n(2) this]
  have len: "off + 1 + length (snd e) \<le> length pkt"
    using arg_cong [OF d, of length] by simp
  show ?case
  proof (cases "fst e = 44")
    case True
    then have "length (snd e) = 7" using e by (simp add: ext_ok_def)
    then show ?thesis using True n(1) b0 IH len by (simp add: add.assoc)
  next
    case False
    then have k: "is_ext_header (fst e)" "snd e \<noteq> []" "length (snd e) = unat (hd (snd e)) * 8 + 7"
      using e by (simp_all add: ext_ok_def)
    have b1: "byte_at pkt (off + 1) = Some (unat (hd (snd e)))"
      using byte_at_drop [of pkt off 1] d k(2) by (cases "snd e") (simp_all add: byte_at_def)
    have "\<not> length pkt < off + 4" "\<not> 143 < fst e" using len k(3) is_ext_less [OF k(1)] by simp_all
    then have "ext_headers n pkt (first_header (e # es) f) off m
        = ext_headers k pkt ?nx (off + unat (hd (snd e)) * 8 + 8) m"
      using False k(1) n(1) b0 b1 by simp
    also have "off + unat (hd (snd e)) * 8 + 8 = off + (1 + length (snd e))" using k(3) by simp
    finally show ?thesis using IH by (simp add: add.assoc)
  qed
qed

lemma xdp_ipv6_verdict:
  assumes ok: "frame_ok macs tags" and hdr: "length hdr = 40" "unat (hdr ! 6) = first_header es f"
    and es: "\<forall>e\<in>set es. ext_ok e" "length es < 10" and f: "f \<le> 143" "f \<noteq> 44" "\<not> is_ext_header f"
    and src: "src = take 16 (drop 8 hdr)"
    and pkt: "pkt = eth_frame macs tags ETH_P_IPV6 (hdr @ ext_bytes es f @ rest)"
  shows "xdp_prog pkt m =
    (case blacklistv6 m src of
       Some v \<Rightarrow> Some (XDP_DROP, stats_action_verdict XDP_DROP (m\<lparr>blacklistv6 := (blacklistv6 m)(src \<mapsto> v + 1)\<rparr>))
     | None \<Rightarrow> map_option (\<lambda>(a, m'). (a, stats_action_verdict a m'))
         (parse_port pkt f (length pkt - length rest) m))"
proof -
  let ?body = "hdr @ ext_bytes es f @ rest" and ?off = "14 + 4 * length tags"
  have eth: "parse_eth pkt = Some (Inr (ETH_P_IPV6, ?off))"
    by (rule parse_eth_frame [OF ok _ _ _ _ pkt]) (simp_all add: eth_types)
  have body: "drop ?off pkt = ?body" unfolding pkt by (rule frame_body [OF ok])
  have lp: "?off + length ?body = length pkt"
    using arg_cong [OF body, of length] hdr(1) by simp
  have sr: "mem_read pkt (?off + 8) 16 = Some src"
    using mem_read_drop [of ?off pkt 8 16] body hdr(1) lp src by simp
  have pr: "byte_at pkt (?off + 6) = Some (first_header es f)"
    using byte_at_drop [of pkt ?off 6] body hdr by (simp add: byte_at_def nth_append)
  have "drop (?off + 40) pkt = ext_bytes es f @ rest"
  proof -
    have "drop (?off + 40) pkt = drop 40 (drop ?off pkt)" by (simp only: drop_drop add.commute)
    then show ?thesis using hdr(1) by (simp add: body)
  qed
  from ext_headers_chain [OF es f this]
  have ch: "ext_headers 10 pkt (first_header es f) (?off + 40) m = parse_port pkt f (length pkt - length rest) m"
  proof -
    have "?off + 40 + length (ext_bytes es f) = length pkt - length rest" using lp hdr(1) by simp
    with \<open>\<And>m. ext_headers 10 pkt (first_header es f) (?off + 40) m = _ m\<close> show ?thesis by metis
  qed
  have "\<not> length pkt < ?off + 40" using lp hdr(1) by simp
  then have "parse_ipv6 pkt ?off m = (case blacklistv6 m src of
      Some v \<Rightarrow> Some (XDP_DROP, m\<lparr>blacklistv6 := (blacklistv6 m)(src \<mapsto> v + 1)\<rparr>)
    | None \<Rightarrow> parse_port pkt f (length pkt - length rest) m)"
    unfolding parse_ipv6_def using sr pr ch by (simp only: if_False Option.bind.bind_lunit Let_def)
  moreover have "handle_eth_protocol pkt ETH_P_IPV6 ?off m = parse_ipv6 pkt ?off m"
    by (simp add: handle_eth_protocol_def eth_types)
  ultimately have "xdp_prog pkt m = do {
      (action, m') \<leftarrow> (case blacklistv6 m src of
          Some v \<Rightarrow> Some (XDP_DROP, m\<lparr>blacklistv6 := (blacklistv6 m)(src \<mapsto> v + 1)\<rparr>)
        | None \<Rightarrow> parse_port pkt f (length pkt - length rest) m);
      Some (action, stats_action_verdict action m')
    }"
    unfolding xdp_prog_def eth by (simp only: Option.bind.bind_lunit sum.case prod.case)
  then show ?thesis
    by (cases "blacklistv6 m src"; cases "parse_port pkt f (length pkt - length rest) m") (simp_all add: split_beta)
qed

text \<open>C12. The IPv6 blacklist and the port filter on every well-formed frame with a chain of at most
  nine extension headers: a packet from a blacklisted address is dropped and counted; any other
  packet is judged by the port filter at the position behind the last extension header.\<close>

theorem xdp_ipv6_enforced:
  assumes ok: "frame_ok macs tags" and hdr: "length hdr = 40" "unat (hdr ! 6) = first_header es f"
    and es: "\<forall>e\<in>set es. ext_ok e" "length es < 10" and f: "f \<le> 143" "f \<noteq> 44" "\<not> is_ext_header f"
    and src: "src = take 16 (drop 8 hdr)"
    and pkt: "pkt = eth_frame macs tags ETH_P_IPV6 (hdr @ ext_bytes es f @ rest)"
  shows "xdp_prog pkt m =
    (case blacklistv6 m src of
       Some v \<Rightarrow> Some (XDP_DROP, stats_action_verdict XDP_DROP (m\<lparr>blacklistv6 := (blacklistv6 m)(src \<mapsto> v + 1)\<rparr>))
     | None \<Rightarrow> map_option (\<lambda>(a, m'). (a, stats_action_verdict a m'))
         (parse_port pkt f (length pkt - length rest) m))"
  by (rule xdp_ipv6_verdict [OF assms])

text \<open>A UDP packet to port 53 behind a hop-by-hop and a fragment header, with port 53 blocked.\<close>

definition udp6_header :: bytes where
  "udp6_header = [96, 0, 0, 0, 0, 0, 0, 64] @ replicate 32 1"

theorem xdp_ipv6_enforced_witness:
  "\<exists>m'. xdp_prog (eth_frame (replicate 12 0) [] 0x86DD (udp6_header
        @ ext_bytes [(0, 0 # replicate 6 0), (44, replicate 7 0)] 17 @ [0, 9, 0, 53, 0, 8, 0, 0]))
      (no_maps\<lparr>port_blacklist := (\<lambda>p. if p = 53 then 2 else 0)\<rparr>) = Some (1, m')"
proof -
  let ?es = "[(0, 0 # replicate 6 0), (44, replicate 7 0)] :: (nat \<times> bytes) list"
  let ?rest = "[0, 9, 0, 53, 0, 8, 0, 0] :: bytes"
  let ?pkt = "eth_frame (replicate 12 0) [] ETH_P_IPV6 (udp6_header @ ext_bytes ?es 17 @ ?rest)"
  let ?m = "no_maps\<lparr>port_blacklist := (\<lambda>p. if p = 53 then 2 else 0)\<rparr>"
  have h: "frame_ok (replicate 12 0) []" "length udp6_header = 40" "unat (udp6_header ! 6) = first_header ?es 17"
    "\<forall>e\<in>set ?es. ext_ok e" "length ?es < 10" "(17 :: nat) \<le> 143" "(17 :: nat) \<noteq> 44" "\<not> is_ext_header 17"
    by (simp_all add: frame_ok_def udp6_header_def ext_ok_def is_ext_header_def)
  let ?pre = "replicate 12 0 @ be16 ETH_P_IPV6 @ udp6_header @ ext_bytes ?es 17 @ [0, 9]"
  have pkt: "?pkt = ?pre @ be16 53 @ [0, 8, 0, 0]" by (simp add: eth_frame_def vlan_bytes_def be16_def)
  have len: "length ?pkt = 78" "length ?pre = 72" by (simp_all add: eth_frame_def vlan_bytes_def udp6_header_def)
  have "be16_at ?pkt 72 = Some 53" using be16_at_be16 [of 53 ?pre "[0, 8, 0, 0]"] unfolding pkt len(2) by simp
  moreover have "length P = 78 \<Longrightarrow> be16_at P 72 = Some 53 \<Longrightarrow>
      parse_port P 17 (78 - length ?rest) ?m = Some (port_verdict DDOS_FILTER_UDP 53 ?m)" for P
    by (simp add: parse_port_def IPPROTO_UDP_def)
  ultimately have "parse_port ?pkt 17 (length ?pkt - length ?rest) ?m = Some (port_verdict DDOS_FILTER_UDP 53 ?m)"
    unfolding len(1) using len(1) by blast
  moreover have "fst (port_verdict DDOS_FILTER_UDP 53 ?m) = 1"
    by (simp add: port_verdict_def DDOS_FILTER_UDP_def xdp_actions)
  ultimately obtain m1 where "parse_port ?pkt 17 (length ?pkt - length ?rest) ?m = Some (1, m1)" by (metis prod.collapse)
  moreover have "blacklistv6 ?m = Map.empty" by (simp add: no_maps_def)
  ultimately have "xdp_prog ?pkt ?m = Some (1, stats_action_verdict 1 m1)"
    using xdp_ipv6_enforced [OF h refl refl, of ?rest ?m] by (simp only: option.case option.map prod.case)
  then show ?thesis unfolding eth_types by blast
qed

end
