(* ===== verification/Ip_To_Str.thy ===== *)
theory Ip_To_Str
  imports Prelude
begin

text \<open>
  Rendering of addresses, \<open>src/lib/ip_to_str.c\<close>: \<open>ipv4_to_str\<close>, \<open>ipv6_to_str\<close> and
  \<open>ipv6_to_str_fancy\<close>. A call gives the characters it stores from the start of the destination and
  returns their number as a \<open>uint8_t\<close>; no terminator is written. The address is its bytes in memory
  order. The properties: reading the text back gives the address, and the text fits into the buffers
  the callers use.
\<close>

section \<open>Tables\<close>

text \<open>The tables \<open>dec_map\<close> and \<open>hex_map\<close> hold the decimal and the two-digit hexadecimal numerals.\<close>

definition hex_digit :: "nat \<Rightarrow> char" where
  "hex_digit d = ''0123456789abcdef'' ! d"

definition dec_map :: "nat \<Rightarrow> string" where
  "dec_map c =
     (if c < 10 then [hex_digit c]
      else if c < 100 then [hex_digit (c div 10), hex_digit (c mod 10)]
      else [hex_digit (c div 100), hex_digit (c div 10 mod 10), hex_digit (c mod 10)])"

definition hex_map :: "nat \<Rightarrow> string" where
  "hex_map c = [hex_digit (c div 16), hex_digit (c mod 16)]"

section \<open>IPv4\<close>

definition v4_octet :: "u8 \<Rightarrow> string" where
  "v4_octet c =
     (let str = dec_map (unat c) in
      if 99 < c then [str ! 0, str ! 1, str ! 2]
      else if 9 < c then [str ! 0, str ! 1]
      else [str ! 0])"

fun v4_loop :: "nat \<Rightarrow> bytes \<Rightarrow> string" where
  "v4_loop i [] = []"
| "v4_loop i (c # cs) = v4_octet c @ (if i < 3 then ''.'' else []) @ v4_loop (i + 1) cs"

definition ipv4_to_str :: "bytes \<Rightarrow> u8 \<times> string" where
  "ipv4_to_str src = (let dst = v4_loop 0 src in (word_of_nat (length dst), dst))"

section \<open>IPv6\<close>

fun v6_loop :: "nat \<Rightarrow> bytes \<Rightarrow> string" where
  "v6_loop i (a # b # cs) = (let str = hex_map (unat a); str' = hex_map (unat b) in
     [str ! 0, str ! 1, str' ! 0, str' ! 1] @ (if i < 14 then '':'' else []) @ v6_loop (i + 2) cs)"
| "v6_loop i _ = []"

definition ipv6_to_str :: "bytes \<Rightarrow> u8 \<times> string" where
  "ipv6_to_str src = (let dst = v6_loop 0 src in (word_of_nat (length dst), dst))"

section \<open>Compressed IPv6\<close>

text \<open>The search for the longest run of zero bytes. The variables \<open>start_zero\<close> and \<open>end_zero\<close> are not
  initialised: \<open>None\<close>.\<close>

record zero_scan =
  zs_count :: nat
  zs_max :: nat
  zs_offset :: nat
  zs_run :: "(nat \<times> nat) option"

fun scan_zeros :: "nat \<Rightarrow> bytes \<Rightarrow> zero_scan \<Rightarrow> zero_scan" where
  "scan_zeros i [] z = z"
| "scan_zeros i (b # bs) z =
     scan_zeros (i + 1) bs
       (if b = 0
        then z\<lparr>zs_offset := (if zs_count z = 0 then i else zs_offset z), zs_count := zs_count z + 1\<rparr>
        else if 0 < zs_count z
        then (if zs_max z < zs_count z
              then z\<lparr>zs_max := zs_count z, zs_run := Some (zs_offset z, i), zs_count := 0\<rparr>
              else z\<lparr>zs_count := 0\<rparr>)
        else z)"

definition zero_run :: "bytes \<Rightarrow> (nat \<times> nat) option" where
  "zero_run src =
     (let z = scan_zeros 0 src \<lparr>zs_count = 0, zs_max = 0, zs_offset = 0, zs_run = None\<rparr>
      in if zs_max z < zs_count z then Some (zs_offset z, 15) else zs_run z)"

text \<open>One group of two bytes; the flag \<open>max\<close> says that a leading zero byte was left out, and is
  handed on to the next group when it was not consumed.\<close>

definition fancy_group :: "u8 \<Rightarrow> u8 \<Rightarrow> bool \<Rightarrow> string \<times> bool" where
  "fancy_group a b mx =
     (let sa = hex_map (unat a); sb = hex_map (unat b);
          mx1 = (if a = 0 then True else mx);
          oa = (if a = 0 then [] else if sa ! 0 = CHR ''0'' then [sa ! 1] else [sa ! 0, sa ! 1])
      in if b = 0 \<and> mx1 then (oa @ ''0'', False)
         else if sb ! 0 = CHR ''0'' \<and> mx1 then (oa @ [sb ! 1], False)
         else (oa @ [sb ! 0, sb ! 1], mx1))"

text \<open>The printing loop; the first argument bounds the number of rounds: \<open>i\<close> grows by at least two
  in every round, so eight rounds are enough for sixteen bytes.\<close>

fun fancy_loop :: "nat \<Rightarrow> bytes \<Rightarrow> nat \<Rightarrow> nat \<Rightarrow> nat \<Rightarrow> bool \<Rightarrow> string option" where
  "fancy_loop 0 src start end_zero i mx = (if 16 \<le> i then Some [] else None)"
| "fancy_loop (Suc n) src start end_zero i mx =
     (if 16 \<le> i then Some []
      else if i = start
      then let colons = (if i = 0 then ''::'' else '':'') in
        if end_zero mod 2 \<noteq> 0
        then do {
          b \<leftarrow> nth_opt src end_zero;
          let str = hex_map (unat b);
          let out = (if str ! 0 = CHR ''0'' then [str ! 1] else [str ! 0, str ! 1]);
          rest \<leftarrow> fancy_loop n src start end_zero (end_zero + 1 + 2) mx;
          Some (colons @ out @ rest)
        }
        else map_option ((@) colons) (fancy_loop n src start end_zero (end_zero + 2) mx)
      else do {
        a \<leftarrow> nth_opt src i;
        b \<leftarrow> nth_opt src (i + 1);
        let (out, mx') = fancy_group a b mx;
        rest \<leftarrow> fancy_loop n src start end_zero (i + 2) mx';
        Some (out @ (if i < 14 then '':'' else []) @ rest)
      })"

definition ipv6_to_str_fancy :: "bytes \<Rightarrow> (u8 \<times> string) option" where
  "ipv6_to_str_fancy src =
     do {
       (start, end_zero) \<leftarrow> zero_run src;
       dst \<leftarrow> fancy_loop 8 src start end_zero 0 False;
       Some (word_of_nat (length dst), dst)
     }"

section \<open>Reading the text back\<close>

fun split_on :: "char \<Rightarrow> string \<Rightarrow> string list" where
  "split_on d [] = [[]]"
| "split_on d (c # cs) =
     (if c = d then [] # split_on d cs
      else case split_on d cs of [] \<Rightarrow> [[c]] | w # ws \<Rightarrow> (c # w) # ws)"

definition digit_value :: "char \<Rightarrow> nat" where
  "digit_value c = (if of_char c < (58 :: nat) then of_char c - 48 else of_char c - 87)"

definition read_number :: "nat \<Rightarrow> string \<Rightarrow> nat" where
  "read_number base cs = foldl (\<lambda>n c. base * n + digit_value c) 0 cs"

lemma split_on_single: "d \<notin> set w \<Longrightarrow> split_on d w = [w]"
  by (induction w) auto

lemma split_on_append: "d \<notin> set w \<Longrightarrow> split_on d (w @ d # rest) = w # split_on d rest"
  by (induction w) auto

lemma v4_octet_dec: "v4_octet b = dec_map (unat b)"
  by (simp add: v4_octet_def dec_map_def Let_def word_less_nat_alt)

lemma hex_digit_list:
  "list_all (\<lambda>d. digit_value (hex_digit d) = d \<and> hex_digit d \<noteq> CHR ''.'' \<and> hex_digit d \<noteq> CHR '':'') [0 ..< 16]"
  by code_simp

lemma hex_digit_props:
  "d < 16 \<Longrightarrow> digit_value (hex_digit d) = d" "d < 16 \<Longrightarrow> hex_digit d \<noteq> CHR ''.''"
  "d < 16 \<Longrightarrow> hex_digit d \<noteq> CHR '':''"
  using hex_digit_list by (simp_all add: list_all_iff)

lemma dec_map_props:
  assumes "c < 256"
  shows "read_number 10 (dec_map c) = c \<and> CHR ''.'' \<notin> set (dec_map c)
    \<and> 1 \<le> length (dec_map c) \<and> length (dec_map c) \<le> 3"
proof -
  have d: "c div 100 < 16" "c div 10 mod 10 < 16" "c mod 10 < 16" using assms by simp_all
  have "c div 100 = c div 10 div 10" by (simp add: div_mult2_eq [symmetric])
  then have "10 * (c div 100) + c div 10 mod 10 = c div 10" by simp
  then have sum: "10 * (10 * (c div 100) + c div 10 mod 10) + c mod 10 = c" by (simp only:) simp
  note p = hex_digit_props(1) hex_digit_props(2) [THEN not_sym]
  consider "c < 10" | "\<not> c < 10" "c < 100" | "\<not> c < 10" "\<not> c < 100" by blast
  then show ?thesis
  proof cases
    case 1
    then show ?thesis by (simp add: dec_map_def read_number_def p)
  next
    case 2
    then have "c div 10 < 16" "10 * (c div 10) + c mod 10 = c" by simp_all
    then show ?thesis using 2 d(3) by (simp add: dec_map_def read_number_def p)
  next
    case 3
    then show ?thesis using d sum by (simp add: dec_map_def read_number_def p)
  qed
qed

lemma hex_map_props:
  assumes "c < 256"
  shows "digit_value (hex_map c ! 0) = c div 16" "digit_value (hex_map c ! 1) = c mod 16"
    "CHR '':'' \<notin> set (hex_map c)"
  using assms by (simp_all add: hex_map_def hex_digit_props(1) hex_digit_props(3) [THEN not_sym])

lemmas octet_props = dec_map_props [OF unat_u8_less]

lemma ipv4_to_str_octets:
  assumes "length src = 4" and "ipv4_to_str src = (n, dst)"
  shows "map (read_number 10) (split_on CHR ''.'' dst) = map unat src
    \<and> unat n = length dst \<and> 7 \<le> length dst \<and> length dst \<le> 15"
proof -
  from assms(1) obtain a b c d where src: "src = [a, b, c, d]"
    by (auto simp: eval_nat_numeral length_Suc_conv)
  have dst: "dst = dec_map (unat a) @ CHR ''.'' # dec_map (unat b) @ CHR ''.'' # dec_map (unat c)
      @ CHR ''.'' # dec_map (unat d)"
    using assms(2) src by (simp add: ipv4_to_str_def Let_def v4_octet_dec)
  have len: "7 \<le> length dst" "length dst \<le> 15"
    using octet_props [of a] octet_props [of b] octet_props [of c] octet_props [of d] by (simp_all add: dst)
  moreover have "n = word_of_nat (length dst)" using assms(2) by (auto simp: ipv4_to_str_def Let_def)
  then have "unat n = length dst" using len by (simp add: unat_of_nat)
  moreover have "split_on CHR ''.'' dst = map dec_map (map unat src)"
    using octet_props [of a] octet_props [of b] octet_props [of c] octet_props [of d]
    by (simp add: dst split_on_append split_on_single src)
  ultimately show ?thesis using octet_props by (simp add: src)
qed

text \<open>The IPv4 text is the dotted decimal form: split at the dots it has four parts and their
  values are the four address bytes, and it has 7 to 15 characters, so that with a terminator it
  fits into \<open>INET_ADDRSTRLEN\<close> bytes.\<close>

theorem ipv4_to_str_roundtrip:
  assumes "length src = 4" and "ipv4_to_str src = (n, dst)"
  shows "map (read_number 10) (split_on CHR ''.'' dst) = map unat src
    \<and> unat n = length dst \<and> 7 \<le> length dst \<and> length dst \<le> 15"
  by (rule ipv4_to_str_octets [OF assms])

theorem ipv4_to_str_roundtrip_witness:
  "map (read_number 10) (split_on CHR ''.'' (snd (ipv4_to_str [192, 0, 2, 17]))) = [192, 0, 2, 17]"
  using ipv4_to_str_roundtrip [of "[192, 0, 2, 17]" "fst (ipv4_to_str [192, 0, 2, 17])"
      "snd (ipv4_to_str [192, 0, 2, 17])"] by simp

lemma hex_group:
  "read_number 16 (hex_map (unat a) @ hex_map (unat b)) = 256 * unat (a :: u8) + unat (b :: u8)"
  "CHR '':'' \<notin> set (hex_map (unat a) @ hex_map (unat b))"
  using hex_map_props [OF unat_u8_less [of a]] hex_map_props [OF unat_u8_less [of b]]
  by (simp_all add: read_number_def hex_map_def)

fun groups :: "bytes \<Rightarrow> nat list" where
  "groups (a # b # cs) = (256 * unat a + unat b) # groups cs"
| "groups _ = []"

lemma v6_loop_split:
  assumes "length cs = 2 * k" and "i + 2 * k = 16" and "0 < k"
  shows "map (read_number 16) (split_on CHR '':'' (v6_loop i cs)) = groups cs
    \<and> length (v6_loop i cs) = 5 * k - 1"
  using assms
proof (induction i cs arbitrary: k rule: v6_loop.induct)
  case (1 i a b cs)
  let ?w = "hex_map (unat a) @ hex_map (unat b)"
  have w: "[hex_map (unat a) ! 0, hex_map (unat a) ! 1, hex_map (unat b) ! 0, hex_map (unat b) ! 1] = ?w"
    by (simp add: hex_map_def)
  show ?case
  proof (cases "k = 1")
    case True
    then have "v6_loop i (a # b # cs) = ?w" using "1.prems" w by (simp add: Let_def)
    moreover have "groups (a # b # cs) = [256 * unat a + unat b]" "length ?w = 5 * k - 1"
      using True "1.prems" by (simp_all add: hex_map_def)
    ultimately show ?thesis using hex_group(1) [of a b] split_on_single [OF hex_group(2)] by simp
  next
    case False
    then have IH: "map (read_number 16) (split_on CHR '':'' (v6_loop (i + 2) cs)) = groups cs"
      "length (v6_loop (i + 2) cs) = 5 * (k - 1) - 1"
      using "1.IH" [OF refl refl, of "k - 1"] "1.prems" by auto
    have "i < 14" using False "1.prems" by simp
    then have eq: "v6_loop i (a # b # cs) = ?w @ CHR '':'' # v6_loop (i + 2) cs"
      using w by (simp add: Let_def)
    show ?thesis
      unfolding eq split_on_append [OF hex_group(2)] using IH hex_group(1) [of a b] False "1.prems"
      by (auto simp: hex_map_def)
  qed
qed simp_all

lemma ipv6_to_str_groups:
  assumes "length src = 16" and "ipv6_to_str src = (n, dst)"
  shows "map (read_number 16) (split_on CHR '':'' dst) = groups src \<and> n = 39 \<and> length dst = 39"
proof -
  have "dst = v6_loop 0 src" "n = word_of_nat (length (v6_loop 0 src))"
    using assms(2) by (auto simp: ipv6_to_str_def Let_def)
  with v6_loop_split [of src 8 0] assms(1) show ?thesis by simp
qed

text \<open>The compressed form of an IPv6 address is wrong: for \<open>2001:db8::1234\<close> the group behind the run
  of zeros is left out, and a zero byte in one group changes a later one: \<open>12:1205::1\<close> is printed as
  \<open>12:125::1\<close>. For an address without a zero byte the uninitialised bounds of the run are read.\<close>

theorem ipv6_to_str_fancy_wrong:
  "map_option snd (ipv6_to_str_fancy ([0x20, 0x01, 0x0d, 0xb8] @ replicate 10 0 @ [0x12, 0x34]))
      = Some ''2001:db8::''
    \<and> map_option snd (ipv6_to_str_fancy ([0x00, 0x12, 0x12, 0x05] @ replicate 11 0 @ [0x01]))
      = Some ''12:125::1''
    \<and> ipv6_to_str_fancy (replicate 16 1) = None"
  by (intro conjI; code_simp)

end
