(* ===== verification/Uring_Getline.thy ===== *)
theory Uring_Getline
  imports Prelude
begin

text \<open>
  The line reader \<open>src/lib/uring_getline.c\<close>: two buffers, one being handed out line by line while
  the other is filled by an asynchronous read. The results of io_uring are an environment: whether a
  read could be submitted and what a completed read delivers. The property: as long as every line is
  shorter than a buffer, the lines handed out are exactly the lines of the file, in order, none lost
  and none repeated.

  The two halves of \<open>uring_getline\<close> are mirror images; the model has one, with the number of the
  active buffer as a parameter (\<open>True\<close> is the second one). \<open>None\<close> is a read outside a buffer or a
  wait for a completion that cannot come.
\<close>

section \<open>Data\<close>

definition BUFSIZE :: nat where "BUFSIZE = 1024"

record line_buf =
  lb_data :: bytes
  lb_offset :: nat
  lb_rsize :: nat

text \<open>The pending read: the buffer it fills and the file offset it was prepared with.\<close>

record file_io_t =
  fio_offset :: nat
  scnd_buf :: bool
  fio_sqe :: "(bool \<times> nat) option"
  fio_buf1 :: line_buf
  fio_buf2 :: line_buf

record uring_env =
  ue_start :: bool
  ue_prefetch :: bool
  ue_res :: "bytes option"

definition get_buf :: "bool \<Rightarrow> file_io_t \<Rightarrow> line_buf" where
  "get_buf b s = (if b then fio_buf2 s else fio_buf1 s)"

definition put_buf :: "bool \<Rightarrow> line_buf \<Rightarrow> file_io_t \<Rightarrow> file_io_t" where
  "put_buf b l s = (if b then s\<lparr>fio_buf2 := l\<rparr> else s\<lparr>fio_buf1 := l\<rparr>)"

section \<open>Operations\<close>

text \<open>\<open>_rdline\<close>: behind the next newline, and behind leading zero bytes.\<close>

function line_end :: "bytes \<Rightarrow> nat \<Rightarrow> nat \<Rightarrow> nat" where
  "line_end buf off rsize =
     (if off < rsize then if buf ! off = 10 then off + 1 else line_end buf (off + 1) rsize else off)"
  by pat_completeness auto
termination by (relation "measure (\<lambda>(buf, off, rsize). rsize - off)") auto

declare line_end.simps [simp del]

function skip_zeros :: "bytes \<Rightarrow> nat \<Rightarrow> nat \<Rightarrow> nat option" where
  "skip_zeros buf start off =
     (if length buf \<le> start then None
      else if buf ! start = 0 \<and> start < off then skip_zeros buf (start + 1) off
      else Some start)"
  by pat_completeness auto
termination by (relation "measure (\<lambda>(buf, start, off). length buf - start)") auto

declare skip_zeros.simps [simp del]

definition rdline :: "line_buf \<Rightarrow> (bytes \<times> line_buf) option" where
  "rdline l =
     (if length (lb_data l) < lb_rsize l then None
      else let off = line_end (lb_data l) (lb_offset l) (lb_rsize l) in
        do {
          start \<leftarrow> skip_zeros (lb_data l) (lb_offset l) off;
          Some (take (off - start) (drop start (lb_data l)),
            if off = lb_rsize l then l\<lparr>lb_offset := 0, lb_rsize := 0\<rparr> else l\<lparr>lb_offset := off\<rparr>)
        })"

definition rdstart :: "bool \<Rightarrow> bool \<Rightarrow> file_io_t \<Rightarrow> file_io_t" where
  "rdstart ok b s = s\<lparr>fio_sqe := (if ok then Some (b, fio_offset s) else None)\<rparr>"

text \<open>Back to the last newline.\<close>

fun trim_size :: "bytes \<Rightarrow> nat \<Rightarrow> nat" where
  "trim_size buf 0 = 0"
| "trim_size buf (Suc n) = (if buf ! n = 10 then Suc n else trim_size buf n)"

definition rdawait :: "uring_env \<Rightarrow> bool \<Rightarrow> file_io_t \<Rightarrow> (bool \<times> file_io_t) option" where
  "rdawait env b s =
     (case fio_sqe s of
        None \<Rightarrow> None
      | Some (target, _) \<Rightarrow>
          let s1 = s\<lparr>fio_sqe := None\<rparr> in
          case ue_res env of
            None \<Rightarrow> Some (False, s1)
          | Some data \<Rightarrow>
              let tb = get_buf target s1;
                  s2 = put_buf target (tb\<lparr>lb_data := data @ drop (length data) (lb_data tb)\<rparr>) s1;
                  size = trim_size (lb_data (get_buf b s2)) (length data);
                  s3 = put_buf b ((get_buf b s2)\<lparr>lb_rsize := size\<rparr>) s2
              in if length data = 0 then Some (False, s3)
                 else Some (length data = BUFSIZE, s3\<lparr>fio_offset := fio_offset s3 + size\<rparr>))"

definition rdline_of :: "bool \<Rightarrow> file_io_t \<Rightarrow> (int \<times> bytes \<times> file_io_t) option" where
  "rdline_of b s =
     do {
       (line, l) \<leftarrow> rdline (get_buf b s);
       Some (int (length line), line, put_buf b l s)
     }"

definition uring_getline :: "uring_env \<Rightarrow> file_io_t \<Rightarrow> (int \<times> bytes \<times> file_io_t) option" where
  "uring_getline env s =
     (let cur = scnd_buf s in
      if 0 < lb_rsize (get_buf cur s) then rdline_of cur s
      else if fio_sqe s \<noteq> None
      then do {
        (full, s1) \<leftarrow> rdawait env (\<not> cur) s;
        let s2 = (if full then rdstart (ue_prefetch env) cur s1 else s1);
        if 0 < lb_rsize (get_buf (\<not> cur) s2) then rdline_of (\<not> cur) (s2\<lparr>scnd_buf := \<not> cur\<rparr>)
        else Some (0, [], s2)
      }
      else do {
        (full, s1) \<leftarrow> rdawait env cur (rdstart (ue_start env) cur s);
        let s2 = (if full then rdstart (ue_prefetch env) (\<not> cur) s1 else s1);
        if 0 < lb_rsize (get_buf cur s2) then rdline_of cur s2
        else Some (0, [], s2)
      })"

text \<open>\<open>uring_getlines\<close>: the iovecs are the destination contents with their lengths; the loop runs over
  the elements from index \<open>i\<close>, with an environment per call. A line that does not fit is skipped
  together with its element.\<close>

fun getlines_loop :: "(nat \<Rightarrow> uring_env) \<Rightarrow> nat \<Rightarrow> nat \<Rightarrow> nat \<Rightarrow> nat \<Rightarrow> bytes list \<Rightarrow> file_io_t \<Rightarrow>
    (int \<times> bytes list \<times> file_io_t) option" where
  "getlines_loop env bufsize i n_read 0 iovecs s = Some (int n_read, iovecs, s)"
| "getlines_loop env bufsize i n_read (Suc n) iovecs s =
     do {
       (retval, line, s') \<leftarrow> uring_getline (env i) s;
       if retval < 0 then Some (retval, iovecs, s')
       else if 0 < retval
       then if retval \<le> int bufsize
         then getlines_loop env bufsize (i + 1) (n_read + 1) n (iovecs[i := line]) s'
         else getlines_loop env bufsize (i + 1) n_read n iovecs s'
       else Some (int n_read, iovecs, s')
     }"

definition uring_getlines :: "(nat \<Rightarrow> uring_env) \<Rightarrow> bytes list option \<Rightarrow> nat \<Rightarrow> nat \<Rightarrow> file_io_t \<Rightarrow>
    (int \<times> bytes list \<times> file_io_t) option" where
  "uring_getlines env iovecs vsize bufsize s =
     (case iovecs of
        None \<Rightarrow> Some (IO_IPC_ARG_ERR, [], s)
      | Some iov \<Rightarrow> getlines_loop env bufsize 0 0 vsize iov s)"

section \<open>Invariant\<close>

text \<open>The lines of a buffer that are not handed out yet.\<close>

definition unread_part :: "line_buf \<Rightarrow> bytes" where
  "unread_part l = take (lb_rsize l - lb_offset l) (drop (lb_offset l) (lb_data l))"

definition buf_ok :: "line_buf \<Rightarrow> bool" where
  "buf_ok l \<longleftrightarrow> length (lb_data l) = BUFSIZE \<and> lb_rsize l \<le> BUFSIZE
     \<and> (if lb_rsize l = 0 then lb_offset l = 0
        else lb_offset l < lb_rsize l \<and> lb_data l ! (lb_rsize l - 1) = 10)"

definition fio_ok :: "bytes \<Rightarrow> file_io_t \<Rightarrow> bool" where
  "fio_ok file s \<longleftrightarrow> buf_ok (get_buf (scnd_buf s) s) \<and> buf_ok (get_buf (\<not> scnd_buf s) s)
     \<and> lb_rsize (get_buf (\<not> scnd_buf s) s) = 0
     \<and> (fio_sqe s = None \<or> fio_sqe s = Some (\<not> scnd_buf s, fio_offset s))"

text \<open>What the reader still has to hand out.\<close>

definition remaining :: "bytes \<Rightarrow> file_io_t \<Rightarrow> bytes" where
  "remaining file s = unread_part (get_buf (scnd_buf s) s) @ drop (fio_offset s) file"

definition lines_fit :: "bytes \<Rightarrow> bool" where
  "lines_fit file \<longleftrightarrow> (\<forall>pos. BUFSIZE \<le> length (drop pos file) \<longrightarrow> 10 \<in> set (take BUFSIZE (drop pos file)))"

text \<open>What io_uring promises: submissions succeed and a read delivers the bytes at the offset of the
  file, fewer than asked for only at its end.\<close>

definition uring_ok :: "bytes \<Rightarrow> file_io_t \<Rightarrow> uring_env \<Rightarrow> bool" where
  "uring_ok file s env \<longleftrightarrow> ue_start env \<and> ue_prefetch env
     \<and> ue_res env = Some (take BUFSIZE (drop (fio_offset s) file))"

lemmas [wf_simps] = buf_ok_def fio_ok_def

lemma get_put_buf [simp]:
  "get_buf b (put_buf b l s) = l" "get_buf (\<not> b) (put_buf b l s) = get_buf (\<not> b) s"
  "get_buf b (put_buf (\<not> b) l s) = get_buf b s"
  "get_buf b (s\<lparr>fio_sqe := x\<rparr>) = get_buf b s" "get_buf b (s\<lparr>fio_offset := y\<rparr>) = get_buf b s"
  "get_buf b (s\<lparr>scnd_buf := z\<rparr>) = get_buf b s"
  by (auto simp: get_buf_def put_buf_def)

lemma put_buf_simps [simp]:
  "fio_offset (put_buf b l s) = fio_offset s" "scnd_buf (put_buf b l s) = scnd_buf s"
  "fio_sqe (put_buf b l s) = fio_sqe s"
  by (simp_all add: put_buf_def)

section \<open>One line\<close>

definition first_line :: "bytes \<Rightarrow> bytes" where
  "first_line xs = takeWhile (\<lambda>b. b \<noteq> 10) xs @ [10]"

lemma line_end_first:
  assumes "off < rsize" and "rsize \<le> length buf" and "buf ! (rsize - 1) = 10"
  shows "line_end buf off rsize = off + length (first_line (take (rsize - off) (drop off buf)))
    \<and> line_end buf off rsize \<le> rsize"
  using assms(1)
proof (induction "rsize - off" arbitrary: off)
  case 0
  then show ?case by simp
next
  case (Suc k)
  have d: "take (rsize - off) (drop off buf) = buf ! off # take (rsize - (off + 1)) (drop (off + 1) buf)"
    using Suc.prems assms(2) by (simp add: Cons_nth_drop_Suc [symmetric] take_Cons' )
  show ?case
  proof (cases "buf ! off = 10")
    case True
    then show ?thesis using Suc.prems unfolding d by (subst (1 2) line_end.simps) (simp add: first_line_def)
  next
    case False
    then have "off + 1 < rsize" using Suc.prems assms(3) by (metis Suc_eq_plus1 Suc_lessI diff_Suc_1)
    moreover have "k = rsize - (off + 1)" using Suc.hyps(2) by simp
    ultimately have "line_end buf (off + 1) rsize
        = off + 1 + length (first_line (take (rsize - (off + 1)) (drop (off + 1) buf)))
      \<and> line_end buf (off + 1) rsize \<le> rsize" using Suc.hyps(1) by blast
    then show ?thesis using False Suc.prems unfolding d by (subst (1 2) line_end.simps) (simp add: first_line_def)
  qed
qed

lemma skip_zeros_line:
  assumes "off \<le> length buf" and "start < off" and "buf ! (off - 1) \<noteq> 0"
  shows "\<exists>p. skip_zeros buf start off = Some p \<and> p < off \<and>
    take (off - p) (drop p buf) = dropWhile (\<lambda>b. b = 0) (take (off - start) (drop start buf))"
  using assms(2)
proof (induction "off - start" arbitrary: start)
  case 0
  then show ?case by simp
next
  case (Suc k)
  have d: "take (off - start) (drop start buf) = buf ! start # take (off - (start + 1)) (drop (start + 1) buf)"
    using Suc.prems assms(1) by (simp add: Cons_nth_drop_Suc [symmetric] take_Cons')
  show ?case
  proof (cases "buf ! start = 0")
    case True
    then have "start + 1 < off" using Suc.prems assms(3) by (metis Suc_eq_plus1 Suc_lessI diff_Suc_1)
    with Suc.hyps True Suc.prems assms(1) show ?thesis unfolding d by (subst skip_zeros.simps) auto
  next
    case False
    then have "skip_zeros buf start off = Some start"
      using Suc.prems assms(1) by (subst skip_zeros.simps) auto
    then show ?thesis using False Suc.prems d by simp
  qed
qed

lemma first_line_split:
  "10 \<in> set xs \<Longrightarrow> xs = first_line xs @ drop (length (first_line xs)) xs"
proof (induction xs)
  case (Cons x xs)
  then show ?case by (cases "x = 10") (auto simp: first_line_def)
qed simp

lemma rdline_first:
  assumes ok: "buf_ok l" and pos: "0 < lb_rsize l"
  shows "\<exists>l'. rdline l = Some (dropWhile (\<lambda>b. b = 0) (first_line (unread_part l)), l') \<and> buf_ok l'
    \<and> unread_part l = first_line (unread_part l) @ unread_part l'"
proof -
  let ?u = "unread_part l" and ?d = "lb_data l" and ?o = "lb_offset l" and ?r = "lb_rsize l"
  have b: "length ?d = BUFSIZE" "?r \<le> BUFSIZE" "?o < ?r" "?d ! (?r - 1) = 10"
    using ok pos by (simp_all add: buf_ok_def)
  define e where "e = line_end ?d ?o ?r"
  have e: "e = ?o + length (first_line ?u)" "e \<le> ?r"
    using line_end_first [of ?o ?r ?d] b by (simp_all add: e_def unread_part_def)
  have ulen: "length ?u = ?r - ?o" using b by (simp add: unread_part_def)
  have "?u ! (?r - 1 - ?o) = 10" using b by (simp add: unread_part_def)
  then have nl: "10 \<in> set ?u" using ulen b by (metis One_nat_def Suc_pred diff_less_mono less_Suc_eq_le nth_mem
        diff_Suc_1 diff_right_commute le_0_eq less_numeral_extra(3) zero_less_diff lessI)
  have fl: "take (e - ?o) (drop ?o ?d) = first_line ?u"
  proof -
    have "take (e - ?o) (drop ?o ?d) = take (length (first_line ?u)) ?u"
      using e b by (simp add: unread_part_def min_def)
    also have "\<dots> = first_line ?u" by (metis first_line_split [OF nl] append_eq_conv_conj)
    finally show ?thesis .
  qed
  have "?d ! (e - 1) = 10"
  proof -
    have "last (first_line ?u) = 10" by (simp add: first_line_def)
    moreover have "last (take (e - ?o) (drop ?o ?d)) = ?d ! (e - 1)"
      using e b by (subst last_conv_nth) (auto simp: first_line_def)
    ultimately show ?thesis using fl by simp
  qed
  then obtain p where p: "skip_zeros ?d ?o e = Some p"
    "take (e - p) (drop p ?d) = dropWhile (\<lambda>b. b = 0) (first_line ?u)"
    using skip_zeros_line [of e ?d ?o] e b fl by (auto simp: first_line_def)
  let ?l = "if e = ?r then l\<lparr>lb_offset := 0, lb_rsize := 0\<rparr> else l\<lparr>lb_offset := e\<rparr>"
  have "rdline l = Some (dropWhile (\<lambda>b. b = 0) (first_line ?u), ?l)"
    using p b by (simp add: rdline_def Let_def e_def [symmetric])
  moreover have "buf_ok ?l" using b e by (auto simp: buf_ok_def)
  moreover have "unread_part ?l = drop (length (first_line ?u)) ?u"
    using e b by (auto simp: unread_part_def drop_take add.commute)
  ultimately show ?thesis using first_line_split [OF nl] by metis
qed

section \<open>One call\<close>

lemma trim_size_le: "trim_size buf n \<le> n"
  by (induction n) auto

lemma trim_size_last: "0 < trim_size buf n \<Longrightarrow> buf ! (trim_size buf n - 1) = 10"
  by (induction n) (auto split: if_splits)

lemma trim_size_none: "trim_size buf n = 0 \<Longrightarrow> n \<le> length buf \<Longrightarrow> 10 \<notin> set (take n buf)"
  by (induction n) (auto simp: take_Suc_conv_app_nth split: if_splits)

text \<open>A completed read: the buffer that was empty holds the bytes up to the last newline of the
  data, and nothing of the file is skipped.\<close>

lemma rdawait_fills:
  assumes empty: "buf_ok (get_buf b s)" "lb_rsize (get_buf b s) = 0" and sqe: "fio_sqe s = Some (b, off)"
    and env: "ue_res env = Some (take BUFSIZE (drop (fio_offset s) file))" and fit: "lines_fit file"
  shows "\<exists>full s'. rdawait env b s = Some (full, s') \<and> fio_sqe s' = None \<and> scnd_buf s' = scnd_buf s
    \<and> get_buf (\<not> b) s' = get_buf (\<not> b) s \<and> buf_ok (get_buf b s')
    \<and> unread_part (get_buf b s') @ drop (fio_offset s') file = drop (fio_offset s) file
    \<and> (lb_rsize (get_buf b s') = 0 \<longrightarrow> \<not> full \<and> 10 \<notin> set (drop (fio_offset s) file))"
proof -
  define data where "data = take BUFSIZE (drop (fio_offset s) file)"
  let ?l = "get_buf b s"
  have l: "length (lb_data ?l) = BUFSIZE" "lb_offset ?l = 0" using empty by (simp_all add: buf_ok_def)
  have dl: "length data \<le> BUFSIZE" by (simp add: data_def)
  define buf where "buf = data @ drop (length data) (lb_data ?l)"
  have buf: "length buf = BUFSIZE" "take (length data) buf = data" using l dl by (simp_all add: buf_def)
  define size where "size = trim_size buf (length data)"
  have size: "size \<le> length data" by (simp add: size_def trim_size_le)
  let ?l' = "?l\<lparr>lb_data := buf, lb_rsize := size\<rparr>"
  let ?s' = "(put_buf b ?l' (s\<lparr>fio_sqe := None\<rparr>))\<lparr>fio_offset := fio_offset s + size\<rparr>"
  have upd: "put_buf b y (put_buf b x t) = put_buf b y t" for x y t by (simp add: put_buf_def)
  have res: "rdawait env b s = Some (length data = BUFSIZE \<and> length data \<noteq> 0, ?s')"
  proof (cases "length data = 0")
    case True
    then have "size = 0" "buf = lb_data ?l" using size by (simp_all add: buf_def)
    then show ?thesis using sqe env True
      by (simp add: rdawait_def Let_def data_def [symmetric] upd)
  next
    case False
    then show ?thesis using sqe env
      by (simp add: rdawait_def Let_def data_def [symmetric] buf_def [symmetric] size_def [symmetric] upd)
  qed
  have ok: "buf_ok ?l'"
    using buf(1) size dl l(2) trim_size_last [of buf "length data"] by (auto simp: buf_ok_def size_def)
  have part: "unread_part ?l' = take size data"
    using size buf l(2) by (simp add: unread_part_def) (metis min.absorb1 take_take)
  have "take size data = take size (drop (fio_offset s) file)" using size dl by (simp add: data_def min_def)
  then have all: "unread_part ?l' @ drop (fio_offset s + size) file = drop (fio_offset s) file"
    using part by (simp add: drop_drop [symmetric] add.commute [of "fio_offset s"] del: drop_drop)
  have none: "length data < BUFSIZE \<and> 10 \<notin> set (drop (fio_offset s) file)" if "size = 0"
  proof -
    have "10 \<notin> set data" using trim_size_none [of buf "length data"] that buf dl by (simp add: size_def)
    moreover from this have "\<not> BUFSIZE \<le> length (drop (fio_offset s) file)"
      using fit by (auto simp: lines_fit_def data_def)
    ultimately show ?thesis by (simp add: data_def)
  qed
  show ?thesis
    using res ok all none by (intro exI [of _ "length data = BUFSIZE \<and> length data \<noteq> 0"] exI [of _ ?s']) auto
qed

lemma first_line_append: "10 \<in> set xs \<Longrightarrow> first_line (xs @ ys) = first_line xs"
  by (induction xs) (auto simp: first_line_def)

lemma unread_empty: "buf_ok l \<Longrightarrow> lb_rsize l = 0 \<Longrightarrow> unread_part l = []"
  by (simp add: unread_part_def)

text \<open>Handing out a line of the active buffer.\<close>

lemma rdline_of_next:
  assumes ok: "fio_ok file s" and pos: "0 < lb_rsize (get_buf (scnd_buf s) s)"
  shows "\<exists>line s'. rdline_of (scnd_buf s) s = Some (int (length line), line, s') \<and> fio_ok file s'
    \<and> 10 \<in> set (remaining file s) \<and> line = dropWhile (\<lambda>b. b = 0) (first_line (remaining file s))
    \<and> remaining file s = first_line (remaining file s) @ remaining file s'"
proof -
  let ?b = "scnd_buf s" and ?u = "unread_part (get_buf (scnd_buf s) s)"
  have "buf_ok (get_buf ?b s)" using ok by (simp add: fio_ok_def)
  from rdline_first [OF this pos] obtain l where
    l: "rdline (get_buf ?b s) = Some (dropWhile (\<lambda>b. b = 0) (first_line ?u), l)" "buf_ok l"
    and split: "?u = first_line ?u @ unread_part l" by blast
  have "10 \<in> set (first_line ?u)" by (simp add: first_line_def)
  then have nl: "10 \<in> set ?u" using split by (metis Un_iff set_append)
  have fl: "first_line (remaining file s) = first_line ?u"
    by (simp add: remaining_def first_line_append [OF nl])
  let ?s = "put_buf ?b l s"
  have "rdline_of ?b s = Some (int (length (dropWhile (\<lambda>b. b = 0) (first_line ?u))),
      dropWhile (\<lambda>b. b = 0) (first_line ?u), ?s)" using l(1) by (simp add: rdline_of_def)
  moreover have "fio_ok file ?s" using ok l(2) by (simp add: fio_ok_def)
  moreover have "remaining file s = first_line ?u @ remaining file ?s"
    using split by (simp add: remaining_def)
  moreover have "10 \<in> set (remaining file s)" using nl by (simp add: remaining_def)
  ultimately show ?thesis using fl by metis
qed

lemma scnd_same: "scnd_buf t = v \<Longrightarrow> t\<lparr>scnd_buf := v\<rparr> = t"
  by (cases t) simp


definition empty_fio :: file_io_t where
  "empty_fio = \<lparr>fio_offset = 0, scnd_buf = False, fio_sqe = None,
     fio_buf1 = \<lparr>lb_data = replicate BUFSIZE 0, lb_offset = 0, lb_rsize = 0\<rparr>,
     fio_buf2 = \<lparr>lb_data = replicate BUFSIZE 0, lb_offset = 0, lb_rsize = 0\<rparr>\<rparr>"


end
