(* ===== verification/Sf2b_Config.thy ===== *)
theory Sf2b_Config
  imports Prelude
begin

text \<open>
  The configuration of the intrusion prevention program and its command line, from
  \<open>src/programs/sf2b/main.c\<close> and \<open>simplefail2ban.h\<close>: the option handler \<open>parse_arg\<close> that argp calls
  for every option, and the whitelist test. The parts of the C library that are used are the decimal
  \<open>strtol\<close> and \<open>htonl\<close>; the number of processors and the result of \<open>inet_pton\<close> are arguments. Messages to
  the terminal are not modelled; \<open>argp_usage\<close> ends the program.
\<close>

section \<open>Data\<close>

datatype ipc_type_t = SHM | DISK | POSIX_IO | FIPS

definition DEFAULT_BAN_TIME :: u16 where "DEFAULT_BAN_TIME = 30"
definition DEFAULT_BAN_FINDTIME :: u16 where "DEFAULT_BAN_FINDTIME = 30"
definition DEFAULT_BAN_THRESHOLD :: u16 where "DEFAULT_BAN_THRESHOLD = 3"
definition DEFAULT_THREAD_COUNT :: u8 where "DEFAULT_THREAD_COUNT = 1"
definition NTHREADS :: u8 where "NTHREADS = 1"
definition DEFAULT_IFACE :: string where "DEFAULT_IFACE = ''enp24s0f0np0''"
definition DEFAULT_LOG :: string where
  "DEFAULT_LOG = ''/mnt/scratch/signer/fips-ipc-bind/build/udpsvr.log''"
definition LINEBUF_SIZE :: nat where "LINEBUF_SIZE = 200"
definition QUEUE_SIZE :: nat where "QUEUE_SIZE = 100"

lemmas sf2b_defaults = DEFAULT_BAN_TIME_def DEFAULT_BAN_FINDTIME_def DEFAULT_BAN_THRESHOLD_def
  DEFAULT_THREAD_COUNT_def NTHREADS_def

definition IP4_REGEX :: string where
  "IP4_REGEX =
     (let bs = CHR 0x5C; num = bs # ''d{1,3}''; dot = bs # ''.''
      in ''('' @ num @ dot @ num @ dot @ num @ dot @ num @ '')('' @ [bs] @ ''#)'')"
definition RATE_LIMIT_REGEX :: string where "RATE_LIMIT_REGEX = ''client''"

record config_t =
  ipc_type :: ipc_type_t
  thread_count :: u8
  bantime :: u16
  limit :: u16
  findtime :: u16
  matching :: bool
  verbose :: bool
  wload_stealing :: bool
  bpf_nr_cpus :: int
  shm_key :: string
  logfile :: string
  regex :: string
  regex_rate_limit :: string
  interface :: string
  whitelistv4 :: bytes
  whitelistv6 :: bytes

text \<open>The initial value of \<open>server.config\<close> with the whitelist that \<open>main\<close> sets first; members without an
  initialiser are zero.\<close>

definition default_config :: config_t where
  "default_config =
     \<lparr>ipc_type = DISK, thread_count = NTHREADS, bantime = DEFAULT_BAN_TIME,
      limit = DEFAULT_BAN_THRESHOLD, findtime = DEFAULT_BAN_FINDTIME, matching = False,
      verbose = False, wload_stealing = False, bpf_nr_cpus = 0, shm_key = DEFAULT_LOG, logfile = DEFAULT_LOG,
      regex = IP4_REGEX, regex_rate_limit = RATE_LIMIT_REGEX,
      interface = DEFAULT_IFACE, whitelistv4 = [10, 3, 30, 0], whitelistv6 = replicate 16 0\<rparr>"

record arguments =
  ipc_set :: bool
  grpc_ip :: string

section \<open>Numbers\<close>

text \<open>\<open>strtol\<close> with base 10: white space, a sign, digits up to the first other character; the value is
  kept in the range of \<open>long\<close>.\<close>

definition is_digit :: "char \<Rightarrow> bool" where
  "is_digit c \<longleftrightarrow> c \<in> set ''0123456789''"

definition is_space :: "char \<Rightarrow> bool" where
  "is_space c \<longleftrightarrow> (of_char c :: nat) \<in> {9, 10, 11, 12, 13, 32}"

definition digits_value :: "string \<Rightarrow> int" where
  "digits_value ds = foldl (\<lambda>a c. 10 * a + (of_char c - 48)) 0 ds"

definition clamp_long :: "int \<Rightarrow> int" where
  "clamp_long x = max (- (2 ^ 63)) (min (2 ^ 63 - 1) x)"

definition strtol :: "string \<Rightarrow> int" where
  "strtol s =
     (let s' = dropWhile is_space s;
          (neg, rest) = (case s' of
              [] \<Rightarrow> (False, [])
            | c # cs \<Rightarrow> if c = CHR ''-'' then (True, cs)
                        else if c = CHR ''+'' then (False, cs) else (False, c # cs));
          v = digits_value (takeWhile is_digit rest)
      in clamp_long (if neg then - v else v))"

text \<open>\<open>atoi\<close> converts the result to an \<open>int\<close>.\<close>

definition atoi :: "string \<Rightarrow> int" where
  "atoi s = sint (word_of_int (strtol s) :: u32)"

section \<open>Options\<close>

text \<open>The keys \<open>parse_arg\<close> is called with, with the argument where there is one; \<open>KEY_ARG\<close> carries the
  number of positional arguments seen before, \<open>KEY_END\<close> their number.\<close>

datatype arg_key =
    File "string option" | Posix "string option" | Shm "string option" | Threads "string option"
  | Limit string | Bantime string | Findtime string | Regex "string option" | Match | Steal | Verbose
  | Grpc "string option" | Key_Arg nat string | Key_End nat | Unknown

datatype arg_result = Usage_Exit | Err_Unknown | Parsed arguments config_t

definition set_ipc :: "ipc_type_t \<Rightarrow> (config_t \<Rightarrow> config_t) \<Rightarrow> arguments \<Rightarrow> config_t \<Rightarrow> arg_result" where
  "set_ipc ty f a cfg =
     (if ipc_set a then Usage_Exit
      else Parsed (a\<lparr>ipc_set := True\<rparr>) (f (cfg\<lparr>ipc_type := ty\<rparr>)))"

definition parse_threads :: "int \<Rightarrow> string option \<Rightarrow> u8" where
  "parse_threads nprocs arg =
     (case arg of
        None \<Rightarrow> DEFAULT_THREAD_COUNT
      | Some s \<Rightarrow>
          let n = word_of_int (strtol s);
              n1 = (if nprocs < uint n then word_of_int nprocs else n)
          in if n1 = 0 then 1 else n1)"

definition parse_u16 :: "u16 \<Rightarrow> string \<Rightarrow> u16" where
  "parse_u16 dflt s = (let n = word_of_int (strtol s) in if n = 0 then dflt else n)"

definition parse_arg :: "int \<Rightarrow> (string \<Rightarrow> int) \<Rightarrow> arg_key \<Rightarrow> arguments \<Rightarrow> config_t \<Rightarrow> arg_result" where
  "parse_arg nprocs inet_pton key a cfg =
     (case key of
        File arg \<Rightarrow>
          set_ipc DISK (\<lambda>c. case arg of None \<Rightarrow> c | Some s \<Rightarrow> c\<lparr>logfile := s\<rparr>) a cfg
      | Posix arg \<Rightarrow>
          set_ipc POSIX_IO (\<lambda>c. case arg of None \<Rightarrow> c | Some s \<Rightarrow> c\<lparr>logfile := s\<rparr>) a cfg
      | Shm arg \<Rightarrow>
          set_ipc SHM (\<lambda>c. c\<lparr>shm_key := (case arg of None \<Rightarrow> DEFAULT_LOG | Some s \<Rightarrow> s)\<rparr>) a cfg
      | Threads arg \<Rightarrow> Parsed a (cfg\<lparr>thread_count := parse_threads nprocs arg\<rparr>)
      | Limit arg \<Rightarrow> Parsed a (cfg\<lparr>limit := parse_u16 DEFAULT_BAN_THRESHOLD arg\<rparr>)
      | Bantime arg \<Rightarrow> Parsed a (cfg\<lparr>bantime := parse_u16 DEFAULT_BAN_TIME arg\<rparr>)
      | Findtime arg \<Rightarrow> Parsed a (cfg\<lparr>findtime := parse_u16 DEFAULT_BAN_FINDTIME arg\<rparr>)
      | Regex arg \<Rightarrow>
          Parsed a (case arg of None \<Rightarrow> cfg\<lparr>matching := True\<rparr> | Some s \<Rightarrow> cfg\<lparr>matching := True, regex := s\<rparr>)
      | Match \<Rightarrow> Parsed a (cfg\<lparr>matching := True\<rparr>)
      | Steal \<Rightarrow> Parsed a (cfg\<lparr>wload_stealing := True\<rparr>)
      | Verbose \<Rightarrow> Parsed a (cfg\<lparr>verbose := True\<rparr>)
      | Grpc arg \<Rightarrow>
          Parsed (case arg of
              None \<Rightarrow> a
            | Some s \<Rightarrow> if inet_pton s = 0 then a else a\<lparr>grpc_ip := s\<rparr>) cfg
      | Key_Arg arg_num arg \<Rightarrow>
          if 2 \<le> arg_num then Usage_Exit else Parsed a (cfg\<lparr>interface := arg\<rparr>)
      | Key_End arg_num \<Rightarrow>
          let c1 = (if arg_num < 1 then cfg\<lparr>interface := DEFAULT_IFACE\<rparr> else cfg);
              c2 = (if 1 < thread_count c1 \<and> (ipc_type c1 = DISK \<or> ipc_type c1 = POSIX_IO)
                    then c1\<lparr>thread_count := 1\<rparr> else c1);
              c3 = (if wload_stealing c2 \<and> ipc_type c2 \<noteq> SHM
                    then c2\<lparr>wload_stealing := False\<rparr> else c2)
          in Parsed a c3
      | Unknown \<Rightarrow> Err_Unknown)"

text \<open>The calls argp makes for one command line: one per option, in order, then \<open>Key_End\<close>.\<close>

fun parse_args :: "int \<Rightarrow> (string \<Rightarrow> int) \<Rightarrow> arg_key list \<Rightarrow> arguments \<Rightarrow> config_t \<Rightarrow> arg_result" where
  "parse_args nprocs pton [] a cfg = Parsed a cfg"
| "parse_args nprocs pton (k # ks) a cfg =
     (case parse_arg nprocs pton k a cfg of
        Parsed a' cfg' \<Rightarrow> parse_args nprocs pton ks a' cfg'
      | r \<Rightarrow> r)"

section \<open>The whitelist\<close>

definition htonl :: "u32 \<Rightarrow> u32" where
  "htonl x = push_bit 24 (x AND 0xFF) OR push_bit 8 (x AND 0xFF00)
     OR (drop_bit 8 x AND 0xFF00) OR drop_bit 24 x"

text \<open>A shift by the width of the type or more, or by a negative number, is undefined.\<close>

definition cidr_to_mask :: "int \<Rightarrow> u32 option" where
  "cidr_to_mask cidr =
     (if 0 \<le> 32 - cidr \<and> 32 - cidr < 32
      then Some (htonl (push_bit (nat (32 - cidr)) 0xFFFFFFFF)) else None)"

definition is_whitelistv4 :: "u32 \<Rightarrow> u32 \<Rightarrow> u8 \<Rightarrow> bool option" where
  "is_whitelistv4 address subnet subnet_size =
     do {
       mask \<leftarrow> cidr_to_mask (uint subnet_size);
       Some (address AND mask = subnet AND mask)
     }"

section \<open>The configuration the program runs with\<close>

definition config_ok :: "int \<Rightarrow> config_t \<Rightarrow> bool" where
  "config_ok nprocs cfg \<longleftrightarrow> limit cfg \<noteq> 0 \<and> bantime cfg \<noteq> 0 \<and> findtime cfg \<noteq> 0
     \<and> thread_count cfg \<noteq> 0 \<and> uint (thread_count cfg) \<le> nprocs"

definition config_final :: "config_t \<Rightarrow> bool" where
  "config_final cfg \<longleftrightarrow>
     (ipc_type cfg = DISK \<or> ipc_type cfg = POSIX_IO \<longrightarrow> thread_count cfg = 1)
     \<and> (wload_stealing cfg \<longrightarrow> ipc_type cfg = SHM)"

lemma parse_u16_nonzero: "dflt \<noteq> 0 \<Longrightarrow> parse_u16 dflt s \<noteq> 0"
  by (simp add: parse_u16_def Let_def)

lemma default_u16_nonzero:
  "DEFAULT_BAN_TIME \<noteq> 0" "DEFAULT_BAN_FINDTIME \<noteq> 0" "DEFAULT_BAN_THRESHOLD \<noteq> 0"
  by (simp_all add: sf2b_defaults)

lemma parse_threads_ok:
  assumes "1 \<le> nprocs" shows "parse_threads nprocs arg \<noteq> 0 \<and> uint (parse_threads nprocs arg) \<le> nprocs"
proof (cases arg)
  case None
  then show ?thesis using assms by (simp add: parse_threads_def sf2b_defaults)
next
  case (Some s)
  let ?n = "word_of_int (strtol s) :: u8"
  have "uint (if nprocs < uint ?n then word_of_int nprocs else ?n) \<le> nprocs"
    using assms by (simp add: uint_word_of_int zmod_le_nonneg_dividend)
  then show ?thesis using Some assms by (simp add: parse_threads_def Let_def)
qed

lemma parse_arg_ok:
  assumes "1 \<le> nprocs" and "config_ok nprocs cfg" and "parse_arg nprocs pton key a cfg = Parsed a' cfg'"
  shows "config_ok nprocs cfg'"
  using assms parse_threads_ok [OF assms(1)]
  by (cases key)
    (auto simp: parse_arg_def set_ipc_def config_ok_def Let_def parse_u16_nonzero default_u16_nonzero
      split: if_splits option.splits)

lemma parse_args_ok:
  "1 \<le> nprocs \<Longrightarrow> config_ok nprocs cfg \<Longrightarrow> parse_args nprocs pton ks a cfg = Parsed a' cfg' \<Longrightarrow>
     config_ok nprocs cfg'"
proof (induction ks arbitrary: a cfg)
  case Nil
  then show ?case by simp
next
  case (Cons k ks)
  then obtain a1 cfg1 where k: "parse_arg nprocs pton k a cfg = Parsed a1 cfg1"
    "parse_args nprocs pton ks a1 cfg1 = Parsed a' cfg'" by (auto split: arg_result.splits)
  show ?case by (rule Cons.IH [OF Cons.prems(1) parse_arg_ok [OF Cons.prems(1,2) k(1)] k(2)])
qed

lemma parse_args_append:
  "parse_args nprocs pton (ks @ [k]) a cfg = Parsed a' cfg' \<Longrightarrow>
     \<exists>a1 cfg1. parse_args nprocs pton ks a cfg = Parsed a1 cfg1 \<and> parse_arg nprocs pton k a1 cfg1 = Parsed a' cfg'"
  by (induction ks arbitrary: a cfg) (auto split: arg_result.splits)

lemma parse_arg_end_final:
  assumes "thread_count cfg \<noteq> 0" and "parse_arg nprocs pton (Key_End n) a cfg = Parsed a' cfg'"
  shows "config_final cfg'"
proof -
  have "\<not> 1 < thread_count cfg \<longleftrightarrow> thread_count cfg = 1"
    using assms(1) by (auto simp: word_less_nat_alt word_unat_eq_iff)
  with assms(2) show ?thesis
    by (auto simp: parse_arg_def config_final_def Let_def split: if_splits)
qed

text \<open>C16. Whatever options are given, the program either stops with a usage message or runs with a
  sane configuration: limit, ban time and find time are at least 1, there is at least one banning
  thread and there are not more than processors, only one for the file variants, and work stealing is
  on only with shared memory.\<close>

theorem parse_args_config:
  assumes "1 \<le> nprocs" and "ks = opts @ [Key_End n]" and "parse_args nprocs pton ks a default_config = Parsed a' cfg"
  shows "config_ok nprocs cfg \<and> config_final cfg"
proof
  have ok: "config_ok nprocs default_config"
    using assms(1) by (simp add: config_ok_def default_config_def sf2b_defaults)
  from parse_args_ok [OF assms(1) this assms(3)] show "config_ok nprocs cfg" .
  obtain a1 cfg1 where c1: "parse_args nprocs pton opts a default_config = Parsed a1 cfg1"
    "parse_arg nprocs pton (Key_End n) a1 cfg1 = Parsed a' cfg"
    using parse_args_append [of nprocs pton opts "Key_End n"] assms(2,3) by blast
  from parse_args_ok [OF assms(1) ok c1(1)] have "thread_count cfg1 \<noteq> 0" by (simp add: config_ok_def)
  then show "config_final cfg" by (rule parse_arg_end_final [OF _ c1(2)])
qed

theorem parse_args_config_witness:
  "\<exists>a cfg. parse_args 4 (\<lambda>_. 1) [Limit ''0'', Threads (Some ''9''), Steal, Shm None, Key_End 0]
      \<lparr>ipc_set = False, grpc_ip = []\<rparr> default_config = Parsed a cfg
    \<and> config_ok 4 cfg \<and> config_final cfg \<and> limit cfg = 3 \<and> thread_count cfg = 4 \<and> wload_stealing cfg"
proof -
  let ?a = "\<lparr>ipc_set = False, grpc_ip = []\<rparr>"
  have z: "strtol ''0'' = 0" "strtol ''9'' = 9" by code_simp+
  obtain a cfg where r: "parse_args 4 (\<lambda>_. 1) ([Limit ''0'', Threads (Some ''9''), Steal, Shm None] @ [Key_End 0]) ?a
      default_config = Parsed a cfg" "limit cfg = 3" "thread_count cfg = 4" "wload_stealing cfg"
    by (simp add: parse_arg_def set_ipc_def parse_u16_def parse_threads_def z default_config_def sf2b_defaults)
  from parse_args_config [OF _ refl r(1)] r show ?thesis by auto
qed

section \<open>The whitelist compares prefixes\<close>

lemma bit_u32_beyond: "32 \<le> n \<Longrightarrow> \<not> bit (x :: u32) n"
  using bit_imp_le_length [of x n] by auto

lemma bit_htonl: "bit (htonl x) i \<longleftrightarrow> i < 32 \<and> bit x (8 * (3 - i div 8) + i mod 8)"
proof (cases "i < 32")
  case True
  then have "i \<in> {0, 1, 2, 3, 4, 5, 6, 7, 8, 9, 10, 11, 12, 13, 14, 15,
    16, 17, 18, 19, 20, 21, 22, 23, 24, 25, 26, 27, 28, 29, 30, 31}"
    by (simp; arith)
  then show ?thesis unfolding htonl_def
    by (simp only: insert_iff empty_iff, elim disjE) (simp_all add: bit_simps bit_u32_beyond, simp add: numeral_2_eq_2)
next
  case False
  then show ?thesis using bit_u32_beyond [of i "htonl x"] by auto
qed

lemma swapped_position:
  fixes i j :: nat
  assumes "i < 32" and "j = 8 * (3 - i div 8) + i mod 8"
  shows "j < 32" and "8 * (3 - j div 8) + j mod 8 = i"
proof -
  have "i div 8 < 4" using assms(1) by (simp add: less_mult_imp_div_less)
  moreover have "j div 8 = 3 - i div 8" "j mod 8 = i mod 8" using assms(2) by simp_all
  ultimately show "8 * (3 - j div 8) + j mod 8 = i" by simp
  have "8 * (3 - i div 8) \<le> 24" "i mod 8 < 8" by simp_all
  then show "j < 32" using assms(2) by linarith
qed

lemma htonl_htonl [simp]: "htonl (htonl x) = x"
proof (rule bit_word_eqI)
  fix i assume "i < LENGTH(32)"
  then have i: "i < 32" by simp
  note j = swapped_position [OF i refl]
  show "bit (htonl (htonl x)) i = bit x i"
    unfolding bit_htonl [of "htonl x"] bit_htonl [of x] j(2) using i j(1) by blast
qed

lemma htonl_and: "htonl (a AND b) = htonl a AND htonl b"
  by (rule bit_word_eqI) (auto simp: bit_htonl bit_simps)

lemma htonl_eq_iff: "htonl a = htonl b \<longleftrightarrow> a = b"
  by (metis htonl_htonl)

lemma masked_eq_prefix:
  fixes a s :: u32
  assumes "k < 32"
  shows "a AND push_bit k 0xFFFFFFFF = s AND push_bit k 0xFFFFFFFF \<longleftrightarrow> drop_bit k a = drop_bit k s"
proof -
  have ones: "bit (0xFFFFFFFF :: u32) i \<longleftrightarrow> i < 32" for i
  proof -
    have "(0xFFFFFFFF :: u32) = mask 32" by (simp add: mask_eq_exp_minus_1)
    then have "bit (0xFFFFFFFF :: u32) i \<longleftrightarrow> bit (mask 32 :: u32) i" by (simp only:)
    then show ?thesis by (simp only: bit_mask_iff) simp
  qed
  have b: "bit (x AND push_bit k 0xFFFFFFFF) i \<longleftrightarrow> k \<le> i \<and> bit x i" for x :: u32 and i
    using bit_u32_beyond [of i x]
    unfolding bit_and_iff bit_push_bit_iff ones by (cases "i < 32") (auto simp: possible_bit_word)
  show ?thesis
  proof
    assume eq: "a AND push_bit k 0xFFFFFFFF = s AND push_bit k 0xFFFFFFFF"
    show "drop_bit k a = drop_bit k s"
    proof (rule bit_eqI)
      fix i show "bit (drop_bit k a) i = bit (drop_bit k s) i"
        using b [of a "k + i"] b [of s "k + i"] unfolding eq by (simp add: bit_drop_bit_eq)
    qed
  next
    assume eq: "drop_bit k a = drop_bit k s"
    show "a AND push_bit k 0xFFFFFFFF = s AND push_bit k 0xFFFFFFFF"
    proof (rule bit_eqI)
      fix i have "bit (drop_bit k a) (i - k) = bit (drop_bit k s) (i - k)" unfolding eq ..
      then show "bit (a AND push_bit k 0xFFFFFFFF) i = bit (s AND push_bit k 0xFFFFFFFF) i"
        unfolding b by (auto simp: bit_drop_bit_eq)
    qed
  qed
qed

text \<open>The whitelist test compares address prefixes: for a prefix length from 1 to 32 it holds exactly
  when the address and the subnet, read in network byte order, agree in their first \<open>subnet_size\<close> bits;
  for the length 0 and above 32 the shift in \<open>cidr_to_mask\<close> is undefined.\<close>

theorem is_whitelistv4_prefix:
  "is_whitelistv4 address subnet n =
     (if 1 \<le> unat n \<and> unat n \<le> 32
      then Some (drop_bit (32 - unat n) (htonl address) = drop_bit (32 - unat n) (htonl subnet))
      else None)"
proof (cases "1 \<le> unat n \<and> unat n \<le> 32")
  case True
  let ?k = "32 - unat n" and ?m = "push_bit (32 - unat n) 0xFFFFFFFF :: u32"
  have u: "uint n = int (unat n)" by simp
  have "nat (32 - uint n) = ?k" unfolding u by arith
  moreover have "0 \<le> 32 - uint n" "32 - uint n < 32" unfolding u using True by linarith+
  ultimately have "is_whitelistv4 address subnet n = Some (address AND htonl ?m = subnet AND htonl ?m)"
    by (simp only: is_whitelistv4_def cidr_to_mask_def simp_thms if_True Option.bind.bind_lunit)
  moreover have "address AND htonl ?m = subnet AND htonl ?m \<longleftrightarrow> htonl address AND ?m = htonl subnet AND ?m"
    by (metis htonl_and htonl_htonl)
  moreover have "htonl address AND ?m = htonl subnet AND ?m
      \<longleftrightarrow> drop_bit ?k (htonl address) = drop_bit ?k (htonl subnet)"
    by (rule masked_eq_prefix) (use True in simp)
  ultimately show ?thesis using True by simp
next
  case False
  have u: "uint n = int (unat n)" by simp
  have "\<not> (0 \<le> 32 - uint n \<and> 32 - uint n < 32)" unfolding u using False by linarith
  then show ?thesis using False by (simp only: is_whitelistv4_def cidr_to_mask_def if_False bind.bind_lzero)
qed

text \<open>The whitelist of the program is a /24 network: the first three bytes decide.\<close>

definition ipv4_word :: "bytes \<Rightarrow> u32" where
  "ipv4_word k = word_of_nat (le_nat (take 4 k))"

lemma ipv4_word_and:
  assumes "4 \<le> length k"
  shows "unat (ipv4_word k AND 0x00FFFFFF) = le_nat (take 3 k)"
proof -
  have "take 4 k = take 3 k @ [k ! 3]"
    using assms by (simp add: take_Suc_conv_app_nth numeral_eq_Suc)
  then have le: "le_nat (take 4 k) = le_nat (take 3 k) + 256 ^ 3 * unat (k ! 3)"
    using assms by (simp add: le_nat_append min_def)
  have "le_nat (take 4 k) < 2 ^ 32"
    using le_nat_less [of "take 4 k"] assms by (simp add: min_absorb2)
  then have u: "unat (ipv4_word k) = le_nat (take 4 k)"
    by (simp add: ipv4_word_def unat_of_nat)
  have "(0x00FFFFFF :: u32) = mask 24" by (simp add: mask_eq_exp_minus_1)
  then have "ipv4_word k AND 0x00FFFFFF = take_bit 24 (ipv4_word k)" by (simp only: take_bit_eq_mask)
  then have "unat (ipv4_word k AND 0x00FFFFFF) = take_bit 24 (le_nat (take 4 k))"
    by (simp only: unsigned_take_bit_eq u)
  then have "unat (ipv4_word k AND 0x00FFFFFF) = le_nat (take 4 k) mod 2 ^ 24"
    by (simp only: take_bit_eq_mod)
  moreover have "le_nat (take 3 k) < 2 ^ 24"
    using le_nat_less [of "take 3 k"] assms by (simp add: min_def)
  ultimately show ?thesis by (simp add: le)
qed

lemma whitelist_24:
  assumes "4 \<le> length k" and "4 \<le> length s"
  shows "is_whitelistv4 (ipv4_word k) (ipv4_word s) 24 = Some (take 3 k = take 3 s)"
proof -
  have "cidr_to_mask (uint (24 :: u8)) = Some 0x00FFFFFF"
    by (simp add: cidr_to_mask_def htonl_def)
  moreover have "ipv4_word k AND 0x00FFFFFF = ipv4_word s AND 0x00FFFFFF
      \<longleftrightarrow> le_nat (take 3 k) = le_nat (take 3 s)"
    unfolding word_unat_eq_iff using ipv4_word_and assms by simp
  moreover have "le_nat (take 3 k) = le_nat (take 3 s) \<longleftrightarrow> take 3 k = take 3 s"
    using assms by (intro le_nat_inject) simp
  ultimately show ?thesis by (simp add: is_whitelistv4_def)
qed

end
