(* ===== verification/Sf2b_Ban.thy ===== *)
theory Sf2b_Ban
  imports Sf2b_Config Ip_Hashtable Ip_Llist Xdp_Blacklist
begin

text \<open>
  Banning, from \<open>src/programs/sf2b\<close>: the server state of \<open>simplefail2ban.h\<close> and \<open>ban_clients\<close> of
  \<open>string.c\<close>, which counts the address of every parsed log line in the hash table and, when the count
  reaches the limit, puts it on the banned list and into the eBPF map of its family.

  The eBPF system calls belong to the kernel: they are the record \<open>bpf_ops\<close>, and what the code relies on
  is the predicate \<open>bpf_ok\<close>, the documented behaviour of an update with \<open>BPF_NOEXIST\<close> and of a deletion.
  The results of the other library calls made for one line are an environment record. The maps are those
  the packet filter reads. The call passes \<open>&values\<close>, the address of its parameter, as the value of a new
  entry; the word found there is part of the environment. The gRPC build is not modelled.
\<close>

section \<open>Data\<close>

definition EXIT_OK :: int where "EXIT_OK = 0"

record server_t =
  config :: config_t
  server_running :: bool
  htable :: "ip_hashtable_t option"
  banned_list :: "ip_llist_t option"
  bpf_maps :: xdp_maps

text \<open>A parsed log line; \<open>ip_addr\<close> holds the sixteen bytes of the union, the first four of
  which are its member \<open>ipv4\<close>.\<close>

record hs_context_t =
  hc_domain :: int
  hc_match :: bool
  hc_rate_limit_match :: bool
  hc_logstr :: bytes
  hc_ip_addr :: bytes
  hc_from :: nat
  hc_timestamp :: int

type_synonym bpf_map = "bytes \<Rightarrow> u64 option"

record bpf_ops =
  bpf_update :: "bpf_map \<Rightarrow> bytes \<Rightarrow> u64 \<Rightarrow> int \<times> bpf_map"
  bpf_delete :: "bpf_map \<Rightarrow> bytes \<Rightarrow> int \<times> bpf_map"

record ban_env =
  be_time :: int
  be_ht :: ht_env
  be_llist :: llist_env
  be_value :: u64

text \<open>The server and the counters of the calling thread.\<close>

record ban_state =
  server :: server_t
  ban_count :: u64
  too_old :: u64

definition family_map :: "int \<Rightarrow> xdp_maps \<Rightarrow> bpf_map" where
  "family_map d m = (if d = AF_INET then blacklistv4 m else blacklistv6 m)"

definition set_family_map :: "int \<Rightarrow> bpf_map \<Rightarrow> xdp_maps \<Rightarrow> xdp_maps" where
  "set_family_map d b m = (if d = AF_INET then m\<lparr>blacklistv4 := b\<rparr> else m\<lparr>blacklistv6 := b\<rparr>)"

section \<open>Operations\<close>

text \<open>The two branches of the second \<open>switch\<close>, which differ in the family and its map: the push onto the
  banned list and, when it succeeded, the update of the map. The result is the return value of the update,
  or \<open>None\<close> when the push failed.\<close>

definition push_and_block :: "bpf_ops \<Rightarrow> ban_env \<Rightarrow> int \<Rightarrow> bytes \<Rightarrow> server_t \<Rightarrow> (int option \<times> server_t) option" where
  "push_and_block ops env d key s =
     do {
       (retval, l) \<leftarrow> ip_llist_push (be_llist env) (banned_list s) (Some key) (Some (be_time env)) d;
       let s1 = s\<lparr>banned_list := l\<rparr>;
       if retval < 0 then Some (None, s1)
       else let (r, b) = bpf_update ops (family_map d (bpf_maps s1)) key (be_value env)
         in Some (Some r, s1\<lparr>bpf_maps := set_family_map d b (bpf_maps s1)\<rparr>)
     }"

text \<open>The rest of the loop body once the limit is reached.\<close>

definition ban_address :: "bpf_ops \<Rightarrow> ban_env \<Rightarrow> int \<Rightarrow> bytes \<Rightarrow> int \<Rightarrow> ban_state \<Rightarrow> ban_state option" where
  "ban_address ops env d key timestamp st =
     do {
       (r, s1) \<leftarrow> push_and_block ops env d key (server st);
       (case r of
          None \<Rightarrow> Some (st\<lparr>server := s1\<rparr>)
        | Some retval \<Rightarrow>
            if retval \<noteq> EXIT_OK
            then do {
              (_, t) \<leftarrow> ip_hashtable_set (be_ht env) (htable s1) (Some key) d
                 (word_of_int (uint (limit (config s1)) - 1)) timestamp;
              Some (st\<lparr>server := s1\<lparr>htable := t\<rparr>\<rparr>)
            }
            else Some (st\<lparr>server := s1, ban_count := ban_count st + 1\<rparr>))
     }"

text \<open>The loop body behind the test of the age: the query of the hash table for a family and the ban when
  the count is the limit.\<close>

definition count_address :: "bpf_ops \<Rightarrow> ban_env \<Rightarrow> int \<Rightarrow> bytes \<Rightarrow> int \<Rightarrow> ban_state \<Rightarrow> ban_state option" where
  "count_address ops env d key timestamp st =
     do {
       (retval, t) \<leftarrow> ip_hashtable_insert (be_ht env) (htable (server st)) (Some key) d timestamp;
       let st1 = st\<lparr>server := (server st)\<lparr>htable := t\<rparr>\<rparr>;
       if retval < 1 then Some st1
       else if retval = uint (limit (config (server st)))
       then ban_address ops env d key timestamp st1
       else Some st1
     }"

text \<open>One line; the age is taken from the first context of the batch, \<open>context->timestamp\<close>.\<close>

definition ban_client :: "bpf_ops \<Rightarrow> int \<Rightarrow> ban_env \<Rightarrow> hs_context_t \<Rightarrow> ban_state \<Rightarrow> ban_state option" where
  "ban_client ops first_timestamp env c st =
     (if be_time env - first_timestamp > uint (findtime (config (server st)))
      then Some (st\<lparr>too_old := too_old st + 1\<rparr>)
      else if hc_domain c = AF_INET
      then do {
        skip \<leftarrow> is_whitelistv4 (ipv4_word (hc_ip_addr c)) (ipv4_word (whitelistv4 (config (server st)))) 24;
        if skip then Some st
        else count_address ops env AF_INET (take 4 (hc_ip_addr c)) (hc_timestamp c) st
      }
      else if hc_domain c = AF_INET6
      then count_address ops env AF_INET6 (hc_ip_addr c) (hc_timestamp c) st
      else Some st)"

fun ban_loop :: "bpf_ops \<Rightarrow> int \<Rightarrow> (ban_env \<times> hs_context_t) list \<Rightarrow> ban_state \<Rightarrow> ban_state option" where
  "ban_loop ops first_timestamp [] st = Some st"
| "ban_loop ops first_timestamp ((env, c) # lines) st =
     do {
       st' \<leftarrow> ban_client ops first_timestamp env c st;
       ban_loop ops first_timestamp lines st'
     }"

text \<open>\<open>ban_clients\<close>: the contexts of the batch, each with the environment of its iteration.\<close>

definition ban_clients :: "bpf_ops \<Rightarrow> (ban_env \<times> hs_context_t) list \<Rightarrow> ban_state \<Rightarrow> ban_state option" where
  "ban_clients ops lines st =
     (case lines of
        [] \<Rightarrow> Some st
      | (env, c) # _ \<Rightarrow> ban_loop ops (hc_timestamp c) lines st)"

section \<open>What the code relies on\<close>

text \<open>\<open>bpf_map_update_elem\<close> with \<open>BPF_NOEXIST\<close> adds a missing key and returns 0, or fails with a negative
  code and leaves the map; it fails for a key that is there, and it does not fail for a missing key while
  the map has fewer entries than it was created for. \<open>bpf_map_delete_elem\<close> removes a key that is there
  and returns 0, else it fails. Other keys are never touched.\<close>

definition max_entries :: nat where "max_entries = 1000000"

definition bpf_ok :: "bpf_ops \<Rightarrow> bool" where
  "bpf_ok ops \<longleftrightarrow>
     (\<forall>m k v. bpf_update ops m k v = (0, m(k \<mapsto> v)) \<and> k \<notin> dom m
        \<or> fst (bpf_update ops m k v) < 0 \<and> snd (bpf_update ops m k v) = m)
     \<and> (\<forall>m k v. k \<notin> dom m \<longrightarrow> finite (dom m) \<longrightarrow> card (dom m) < max_entries \<longrightarrow>
        bpf_update ops m k v = (0, m(k \<mapsto> v)))
     \<and> (\<forall>m k. bpf_delete ops m k = (0, m(k := None)) \<and> k \<in> dom m
        \<or> fst (bpf_delete ops m k) < 0 \<and> snd (bpf_delete ops m k) = m \<and> k \<notin> dom m)"

lemma set_family_map_simps [simp]:
  "family_map d (set_family_map d b m) = b"
  "d = AF_INET \<or> d = AF_INET6 \<Longrightarrow> d' = AF_INET \<or> d' = AF_INET6 \<Longrightarrow> d \<noteq> d' \<Longrightarrow>
     family_map d' (set_family_map d b m) = family_map d' m"
  by (auto simp: family_map_def set_family_map_def)

section \<open>Specification\<close>

text \<open>What banning computes, for the addresses of one family: the counter of every address with the start of
  its window, the addresses in the map of the family, and the banned list. An address whose counter reaches the
  limit is listed and blocked; when the map has it already the counter goes back by one.\<close>

record ban_spec =
  bs_count :: "bytes \<Rightarrow> (nat \<times> int) option"
  bs_black :: bpf_map
  bs_listed :: "(bytes \<times> int \<times> int) list"

definition spec_count :: "int \<Rightarrow> nat \<Rightarrow> int \<Rightarrow> ban_env \<Rightarrow> bytes \<Rightarrow> int \<Rightarrow> ban_spec \<Rightarrow> ban_spec" where
  "spec_count window lim d env key timestamp a =
     (let e = next_entry window timestamp (bs_count a key);
          a1 = a\<lparr>bs_count := (bs_count a)(key \<mapsto> e)\<rparr>;
          a2 = a1\<lparr>bs_listed := (key, be_time env, d) # bs_listed a1\<rparr>
      in if fst e \<noteq> lim then a1
         else if key \<in> dom (bs_black a)
         then a2\<lparr>bs_count := (bs_count a)(key \<mapsto> (lim - 1, timestamp))\<rparr>
         else a2\<lparr>bs_black := (bs_black a)(key \<mapsto> be_value env)\<rparr>)"

definition ban_rel :: "int \<Rightarrow> int \<Rightarrow> server_t \<Rightarrow> ban_spec \<Rightarrow> bool" where
  "ban_rel d window s a \<longleftrightarrow>
     (\<exists>t l as. htable s = Some t \<and> ht_wf t \<and> search_time t = window
        \<and> (\<forall>k. length k = addr_len d \<longrightarrow> ht_entry d t k = bs_count a k)
        \<and> banned_list s = Some l \<and> llist_wf l as \<and> entries l as = bs_listed a
        \<and> family_map d (bpf_maps s) = bs_black a)"

definition env_good :: "ban_env \<Rightarrow> bool" where
  "env_good env \<longleftrightarrow> env_ok (be_ht env) \<and> l_node (be_llist env) \<noteq> None \<and> l_key (be_llist env)
     \<and> l_lock (be_llist env) = 0 \<and> l_unlock (be_llist env) = 0"

definition node_heap_of :: "server_t \<Rightarrow> node_heap" where
  "node_heap_of s = (case banned_list s of None \<Rightarrow> (\<lambda>_. None) | Some l \<Rightarrow> ll_heap l)"

lemma push_and_block_ok:
  assumes good: "env_good env" and node: "l_node (be_llist env) = Some a"
    and l: "banned_list s = Some l" "llist_wf l as" "ll_heap l a = None"
    and d: "d = AF_INET \<or> d = AF_INET6" and k: "length key = addr_len d"
  shows "\<exists>l'. llist_wf l' (a # as) \<and> entries l' (a # as) = (key, be_time env, d) # entries l as
    \<and> (\<forall>b. b \<noteq> a \<longrightarrow> ll_heap l' b = ll_heap l b)
    \<and> push_and_block ops env d key s =
      (let (r, b) = bpf_update ops (family_map d (bpf_maps s)) key (be_value env)
       in Some (Some r, s\<lparr>banned_list := Some l', bpf_maps := set_family_map d b (bpf_maps s)\<rparr>))"
proof -
  have e: "l_key (be_llist env)" "l_lock (be_llist env) = 0" "l_unlock (be_llist env) = 0"
    using good by (simp_all add: env_good_def)
  have "d = AF_INET \<and> addr_len d = 4 \<or> d = AF_INET6 \<and> addr_len d = 16" using d by auto
  from ip_llist_push_result [OF l(2,3) node e(1) this, of key "be_time env"] k e(2,3)
  obtain l' where l': "ip_llist_push (be_llist env) (Some l) (Some key) (Some (be_time env)) d
      = Some (IP_LLIST_SUCCESS, Some l')" "llist_wf l' (a # as)"
      "entries l' (a # as) = (key, be_time env, d) # entries l as" by auto
  have "\<forall>b. b \<noteq> a \<longrightarrow> ll_heap l' b = ll_heap l b"
    using ip_llist_push_heap [OF l'(1)] node by simp
  moreover have "push_and_block ops env d key s =
      (let (r, b) = bpf_update ops (family_map d (bpf_maps s)) key (be_value env)
       in Some (Some r, s\<lparr>banned_list := Some l', bpf_maps := set_family_map d b (bpf_maps s)\<rparr>))"
    by (simp add: push_and_block_def l(1) l'(1) ip_llist_codes split: prod.splits)
  ultimately show ?thesis using l'(2,3) by blast
qed

text \<open>The table operations on a key of the right length.\<close>

lemma insert_counts:
  assumes "ht_wf t" and "d = AF_INET \<or> d = AF_INET6" and "length k = addr_len d" and "env_ok env"
    and "\<And>n s. ht_entry d t k = Some (n, s) \<Longrightarrow> n + 1 < 2 ^ 31"
  obtains t' where "ip_hashtable_insert env (Some t) (Some k) d now
      = Some (int (fst (next_entry (search_time t) now (ht_entry d t k))), Some t')"
    "ht_wf t'" "search_time t' = search_time t"
    "ht_entry d t' k = Some (next_entry (search_time t) now (ht_entry d t k))"
    "\<forall>k'. length k' = addr_len d \<longrightarrow> k' \<noteq> k \<longrightarrow> ht_entry d t' k' = ht_entry d t k'"
proof -
  obtain t' where "ht_insert env t k d now
      = Some (int (fst (next_entry (search_time t) now (ht_entry d t k))), t')"
    "ht_wf t'" "search_time t' = search_time t"
    "ht_entry d t' k = Some (next_entry (search_time t) now (ht_entry d t k))"
    "\<forall>k'. length k' = addr_len d \<longrightarrow> k' \<noteq> k \<longrightarrow> ht_entry d t' k' = ht_entry d t k'"
    using ht_insert_counts [OF assms(1-4), of now] assms(5) by blast
  then show thesis
    by (intro that [of t']) (simp_all add: ip_hashtable_insert_def with_table_ok assms(2,3))
qed

lemma set_known:
  assumes "ht_wf t" and "d = AF_INET \<or> d = AF_INET6" and "length k = addr_len d" and "bin_lock_ok env"
    and "ht_entry d t k \<noteq> None"
  obtains r t' where "ip_hashtable_set env (Some t) (Some k) d v now = Some (r, Some t')"
    "ht_wf t'" "search_time t' = search_time t" "ht_entry d t' k = Some (unat v, now)"
    "\<forall>k'. length k' = addr_len d \<longrightarrow> k' \<noteq> k \<longrightarrow> ht_entry d t' k' = ht_entry d t k'"
proof -
  obtain e where e: "ht_lookup d t k = Some e" using assms(5) by (auto simp: ht_entry_def)
  obtain t' where "ht_set env t k d v now = Some (sint (e_count e), t')" "ht_wf t'"
    "search_time t' = search_time t" "ht_entry d t' k = Some (unat v, now)"
    "\<forall>k'. length k' = addr_len d \<longrightarrow> k' \<noteq> k \<longrightarrow> ht_entry d t' k' = ht_entry d t k'"
    using ht_set_known [OF assms(1,3,4) e, of v now] by blast
  then show thesis
    by (intro that [of "sint (e_count e)" t']) (simp_all add: ip_hashtable_set_def with_table_ok assms(2,3))
qed

lemma limit_minus_one: "limit cfg \<noteq> 0 \<Longrightarrow> unat (word_of_int (uint (limit cfg) - 1) :: u32) = unat (limit cfg) - 1"
proof -
  assume "limit cfg \<noteq> 0"
  then have pos: "0 < unat (limit cfg)" by (simp add: unat_gt_0)
  have small: "unat (limit cfg) < 65536" using unsigned_less [of "limit cfg"] by simp
  have "uint (limit cfg) - 1 = int (unat (limit cfg) - 1)" using pos by (simp add: of_nat_diff)
  then have "(word_of_int (uint (limit cfg) - 1) :: u32) = word_of_nat (unat (limit cfg) - 1)"
    by simp
  then show ?thesis using small by (simp add: unat_of_nat)
qed

text \<open>What one step leaves alone.\<close>

definition ban_frame :: "int \<Rightarrow> ban_env \<Rightarrow> server_t \<Rightarrow> server_t \<Rightarrow> bool" where
  "ban_frame d env s s' \<longleftrightarrow> config s' = config s \<and> server_running s' = server_running s
     \<and> (\<forall>b. node_heap_of s' b \<noteq> None \<longrightarrow> node_heap_of s b \<noteq> None \<or> l_node (be_llist env) = Some b)
     \<and> set_family_map d Map.empty (bpf_maps s') = set_family_map d Map.empty (bpf_maps s)"

lemma set_family_map_twice [simp]: "set_family_map d b (set_family_map d c m) = set_family_map d b m"
  by (simp add: set_family_map_def)

lemma count_address_refines:
  assumes bpf: "bpf_ok ops" and rel: "ban_rel d w (server st) a" and good: "env_good env"
    and node: "\<forall>x. l_node (be_llist env) = Some x \<longrightarrow> node_heap_of (server st) x = None"
    and d: "d = AF_INET \<or> d = AF_INET6" and k: "length key = addr_len d"
    and small: "\<And>n s. bs_count a key = Some (n, s) \<Longrightarrow> n + 1 < 2 ^ 31"
    and room: "key \<notin> dom (bs_black a) \<Longrightarrow> finite (dom (bs_black a)) \<and> card (dom (bs_black a)) < max_entries"
    and lim: "limit (config (server st)) \<noteq> 0"
  shows "\<exists>st'. count_address ops env d key timestamp st = Some st'
    \<and> ban_rel d w (server st') (spec_count w (unat (limit (config (server st)))) d env key timestamp a)
    \<and> ban_frame d env (server st) (server st')"
proof -
  let ?s = "server st"
  obtain t l as where r: "htable ?s = Some t" "ht_wf t" "search_time t = w"
    "\<forall>k. length k = addr_len d \<longrightarrow> ht_entry d t k = bs_count a k" "banned_list ?s = Some l"
    "llist_wf l as" "entries l as = bs_listed a" "family_map d (bpf_maps ?s) = bs_black a"
    using rel unfolding ban_rel_def by blast
  have ek: "ht_entry d t key = bs_count a key" using r(4) k by blast
  have he: "env_ok (be_ht env)" "bin_lock_ok (be_ht env)"
    using good by (simp_all add: env_good_def env_ok_def)
  let ?e = "next_entry w timestamp (bs_count a key)" and ?L = "unat (limit (config ?s))"
  obtain t' where t': "ip_hashtable_insert (be_ht env) (Some t) (Some key) d timestamp = Some (int (fst ?e), Some t')"
    "ht_wf t'" "search_time t' = w" "ht_entry d t' key = Some ?e"
    "\<forall>k'. length k' = addr_len d \<longrightarrow> k' \<noteq> key \<longrightarrow> ht_entry d t' k' = ht_entry d t k'"
    using insert_counts [OF r(2) d k he(1), of timestamp] small unfolding ek r(3) by metis
  have counts: "\<forall>k'. length k' = addr_len d \<longrightarrow> ht_entry d t' k' = ((bs_count a)(key \<mapsto> ?e)) k'"
    using t'(4,5) r(4) by simp
  have pos: "\<not> int (fst ?e) < 1" by (cases "(w, timestamp, bs_count a key)" rule: next_entry.cases) auto
  let ?st1 = "st\<lparr>server := ?s\<lparr>htable := Some t'\<rparr>\<rparr>"
  have L: "int (fst ?e) = uint (limit (config ?s)) \<longleftrightarrow> fst ?e = ?L"
    by (metis of_nat_eq_iff uint_nat)
  show ?thesis
  proof (cases "fst ?e = ?L")
    case False
    then have "count_address ops env d key timestamp st = Some ?st1"
      using t'(1) pos L by (simp add: count_address_def r(1))
    moreover have "ban_rel d w (server ?st1) (spec_count w ?L d env key timestamp a)"
      using False t'(2,3) counts r(5-8) by (auto simp: ban_rel_def spec_count_def Let_def)
    ultimately show ?thesis by (intro exI [of _ ?st1]) (simp add: ban_frame_def node_heap_of_def)
  next
    case True
    obtain x where x: "l_node (be_llist env) = Some x" using good by (auto simp: env_good_def)
    have fresh: "ll_heap l x = None" using node x r(5) by (simp add: node_heap_of_def)
    obtain l' where l': "llist_wf l' (x # as)" "entries l' (x # as) = (key, be_time env, d) # entries l as"
      "\<forall>b. b \<noteq> x \<longrightarrow> ll_heap l' b = ll_heap l b"
      "push_and_block ops env d key (server ?st1) =
        (let (r, b) = bpf_update ops (bs_black a) key (be_value env)
         in Some (Some r, (server ?st1)\<lparr>banned_list := Some l', bpf_maps := set_family_map d b (bpf_maps ?s)\<rparr>))"
      using push_and_block_ok [OF good x, of "server ?st1" l as d key ops] r(5,6,8) fresh d k by auto
    have heap: "\<forall>b. ll_heap l' b \<noteq> None \<longrightarrow> ll_heap l b \<noteq> None \<or> x = b" using l'(3) by metis
    have ca: "count_address ops env d key timestamp st = ban_address ops env d key timestamp ?st1"
      using True t'(1) pos L by (simp add: count_address_def r(1))
    show ?thesis
    proof (cases "key \<in> dom (bs_black a)")
      case black: False
      then have "bpf_update ops (bs_black a) key (be_value env) = (0, (bs_black a)(key \<mapsto> be_value env))"
        using bpf room unfolding bpf_ok_def by blast
      then have "count_address ops env d key timestamp st = Some (?st1\<lparr>server := (server ?st1)
          \<lparr>banned_list := Some l', bpf_maps := set_family_map d ((bs_black a)(key \<mapsto> be_value env)) (bpf_maps ?s)\<rparr>,
          ban_count := ban_count st + 1\<rparr>)" (is "_ = Some ?st2")
        using l'(4) by (simp add: ca ban_address_def EXIT_OK_def)
      moreover have "ban_rel d w (server ?st2) (spec_count w ?L d env key timestamp a)"
        using True black t'(2,3) counts l'(1,2) r(7) by (auto simp: ban_rel_def spec_count_def Let_def)
      ultimately show ?thesis using heap x r(5)
        by (intro exI [of _ ?st2]) (simp add: ban_frame_def node_heap_of_def)
    next
      case black: True
      then have upd: "fst (bpf_update ops (bs_black a) key (be_value env)) < 0"
          "snd (bpf_update ops (bs_black a) key (be_value env)) = bs_black a"
        using bpf unfolding bpf_ok_def by blast+
      obtain r2 t2 where t2: "ip_hashtable_set (be_ht env) (Some t') (Some key) d
          (word_of_int (uint (limit (config ?s)) - 1)) timestamp = Some (r2, Some t2)"
        "ht_wf t2" "search_time t2 = search_time t'" "ht_entry d t2 key = Some (?L - 1, timestamp)"
        "\<forall>k'. length k' = addr_len d \<longrightarrow> k' \<noteq> key \<longrightarrow> ht_entry d t2 k' = ht_entry d t' k'"
        using set_known [OF t'(2) d k he(2), of "word_of_int (uint (limit (config ?s)) - 1)" timestamp]
          t'(4) unfolding limit_minus_one [OF lim] by (metis option.distinct(1))
      have "push_and_block ops env d key (server ?st1) = Some (Some (fst (bpf_update ops (bs_black a) key (be_value env))),
         (server ?st1)\<lparr>banned_list := Some l', bpf_maps := set_family_map d (bs_black a) (bpf_maps ?s)\<rparr>)"
        using l'(4) upd(2) by (simp add: case_prod_unfold Let_def)
      then have "count_address ops env d key timestamp st = Some (?st1\<lparr>server := (server ?st1)
          \<lparr>banned_list := Some l', bpf_maps := set_family_map d (bs_black a) (bpf_maps ?s), htable := Some t2\<rparr>\<rparr>)"
          (is "_ = Some ?st2")
        using upd(1) t2(1) by (simp add: ca ban_address_def EXIT_OK_def)
      moreover have "ban_rel d w (server ?st2) (spec_count w ?L d env key timestamp a)"
        using True black t2(2-5) t'(3,5) r(4) l'(1,2) r(7) by (auto simp: ban_rel_def spec_count_def Let_def)
      ultimately show ?thesis using heap x r(5)
        by (intro exI [of _ ?st2]) (simp add: ban_frame_def node_heap_of_def)
    qed
  qed
qed

definition spec_client :: "config_t \<Rightarrow> int \<Rightarrow> int \<Rightarrow> int \<Rightarrow> ban_env \<times> hs_context_t \<Rightarrow> ban_spec \<Rightarrow> ban_spec" where
  "spec_client cfg w d first_timestamp line a =
     (let (env, c) = line; key = take (addr_len d) (hc_ip_addr c) in
      if be_time env - first_timestamp > uint (findtime cfg) then a
      else if d = AF_INET \<and> take 3 key = take 3 (whitelistv4 cfg) then a
      else spec_count w (unat (limit cfg)) d env key (hc_timestamp c) a)"

definition spec_loop :: "config_t \<Rightarrow> int \<Rightarrow> int \<Rightarrow> int \<Rightarrow> (ban_env \<times> hs_context_t) list \<Rightarrow> ban_spec \<Rightarrow> ban_spec" where
  "spec_loop cfg w d first_timestamp lines a = fold (spec_client cfg w d first_timestamp) lines a"

definition node_of :: "ban_env \<times> hs_context_t \<Rightarrow> addr option" where
  "node_of line = l_node (be_llist (fst line))"

definition batch_ok :: "int \<Rightarrow> (ban_env \<times> hs_context_t) list \<Rightarrow> server_t \<Rightarrow> ban_spec \<Rightarrow> bool" where
  "batch_ok d lines s a \<longleftrightarrow>
     (\<forall>(env, c)\<in>set lines. env_good env \<and> hc_domain c = d \<and> length (hc_ip_addr c) = 16)
     \<and> distinct (map node_of lines) \<and> (\<forall>x. Some x \<in> set (map node_of lines) \<longrightarrow> node_heap_of s x = None)
     \<and> length lines < 2 ^ 31 \<and> (\<forall>k n b. bs_count a k = Some (n, b) \<longrightarrow> n + length lines < 2 ^ 31)
     \<and> finite (dom (bs_black a)) \<and> card (dom (bs_black a)) + length lines \<le> max_entries
     \<and> limit (config s) \<noteq> 0 \<and> 4 \<le> length (whitelistv4 (config s))"

lemma next_entry_le:
  "fst (next_entry w now (Some (n, b))) \<le> n + 1" "fst (next_entry w now None) = 1"
  by auto

lemma spec_count_grows:
  assumes "bs_count (spec_count w L d env key ts a) k = Some (n, b)"
  shows "n \<le> 1 \<or> (\<exists>n0 b0. bs_count a k = Some (n0, b0) \<and> n \<le> n0 + 1)"
  using assms
  by (cases "bs_count a key") (auto simp: spec_count_def Let_def split: if_splits)

lemma spec_count_dom:
  "dom (bs_black (spec_count w L d env key ts a)) \<subseteq> insert key (dom (bs_black a))"
  by (auto simp: spec_count_def Let_def split: if_splits)

lemma spec_client_grows:
  assumes "bs_count (spec_client cfg w d f line a) k = Some (n, b)"
  shows "n \<le> 1 \<or> (\<exists>n0 b0. bs_count a k = Some (n0, b0) \<and> n \<le> n0 + 1)"
  using assms spec_count_grows
  by (fastforce simp: spec_client_def case_prod_unfold Let_def split: if_splits)

lemma spec_client_dom:
  "\<exists>key. dom (bs_black (spec_client cfg w d f line a)) \<subseteq> insert key (dom (bs_black a))"
  by (rule exI [of _ "take (addr_len d) (hc_ip_addr (snd line))"])
    (auto simp: spec_client_def spec_count_def case_prod_unfold Let_def split: if_splits)

lemma ban_client_refines:
  assumes "bpf_ok ops" and "ban_rel d w (server st) a" and batch: "batch_ok d (line # lines) (server st) a"
    and d: "d = AF_INET \<or> d = AF_INET6"
  shows "\<exists>st'. ban_client ops f (fst line) (snd line) st = Some st'
    \<and> ban_rel d w (server st') (spec_client (config (server st)) w d f line a)
    \<and> ban_frame d (fst line) (server st) (server st')"
proof -
  obtain env c where line: "line = (env, c)" by (cases line)
  let ?s = "server st" and ?key = "take (addr_len d) (hc_ip_addr c)"
  have b: "env_good env" "hc_domain c = d" "length (hc_ip_addr c) = 16" "limit (config ?s) \<noteq> 0"
    "4 \<le> length (whitelistv4 (config ?s))" "finite (dom (bs_black a))" "card (dom (bs_black a)) < max_entries"
    using batch by (simp_all add: batch_ok_def line)
  have node: "\<forall>x. l_node (be_llist env) = Some x \<longrightarrow> node_heap_of ?s x = None"
    using batch by (simp add: batch_ok_def line node_of_def)
  have small: "n + 1 < 2 ^ 31" if "bs_count a ?key = Some (n, s)" for n s
  proof -
    have "n + length (line # lines) < 2 ^ 31" using batch that unfolding batch_ok_def by blast
    then show ?thesis by simp
  qed
  have len: "length ?key = addr_len d" using d b(3) by auto
  have frame: "ban_frame d env ?s ?s" by (simp add: ban_frame_def)
  obtain st' where st': "count_address ops env d ?key (hc_timestamp c) st = Some st'"
    "ban_rel d w (server st') (spec_count w (unat (limit (config ?s))) d env ?key (hc_timestamp c) a)"
    "ban_frame d env ?s (server st')"
    using count_address_refines [OF assms(1,2) b(1) node d len _ _ b(4), of "hc_timestamp c"] small b(6,7)
    by blast
  have wl: "is_whitelistv4 (ipv4_word (hc_ip_addr c)) (ipv4_word (whitelistv4 (config ?s))) 24
      = Some (take 3 (hc_ip_addr c) = take 3 (whitelistv4 (config ?s)))"
    by (rule whitelist_24) (use b(3,5) in simp_all)
  consider (old) "uint (findtime (config ?s)) < be_time env - f"
    | (white) "\<not> uint (findtime (config ?s)) < be_time env - f" "d = AF_INET"
        "take 3 (hc_ip_addr c) = take 3 (whitelistv4 (config ?s))"
    | (count) "\<not> uint (findtime (config ?s)) < be_time env - f"
        "d = AF_INET6 \<or> d = AF_INET \<and> take 3 (hc_ip_addr c) \<noteq> take 3 (whitelistv4 (config ?s))"
    using d by blast
  then show ?thesis
  proof cases
    case old
    then show ?thesis using assms(2) frame by (simp add: ban_client_def spec_client_def line)
  next
    case white
    then show ?thesis using assms(2) frame b(2) wl by (simp add: ban_client_def spec_client_def line)
  next
    case count
    then show ?thesis using st' b(2,3) wl
      by (auto simp: ban_client_def spec_client_def line)
  qed
qed

lemma batch_ok_step:
  assumes "batch_ok d (line # lines) s a" and "ban_frame d (fst line) s s'"
  shows "batch_ok d lines s' (spec_client cfg w d f line a)"
proof -
  note b = assms(1) [unfolded batch_ok_def]
  obtain key where key: "dom (bs_black (spec_client cfg w d f line a)) \<subseteq> insert key (dom (bs_black a))"
    using spec_client_dom by blast
  have fin: "finite (dom (bs_black a))" using b by blast
  then have "card (dom (bs_black (spec_client cfg w d f line a))) \<le> card (insert key (dom (bs_black a)))"
    using key by (intro card_mono) auto
  also have "\<dots> \<le> card (dom (bs_black a)) + 1" using fin by (simp add: card_insert_if)
  finally have "card (dom (bs_black (spec_client cfg w d f line a))) + length lines \<le> max_entries"
    using b by simp
  moreover have "finite (dom (bs_black (spec_client cfg w d f line a)))"
    using key fin finite_subset by blast
  moreover have "n + length lines < 2 ^ 31" if cnt: "bs_count (spec_client cfg w d f line a) k = Some (n, x)" for k n x
  proof -
    consider "n \<le> 1" | n0 b0 where "bs_count a k = Some (n0, b0)" "n \<le> n0 + 1"
      using spec_client_grows [OF cnt] by blast
    then show ?thesis
    proof cases
      case 1
      moreover have "length (line # lines) < 2 ^ 31" using b by blast
      ultimately show ?thesis by simp
    next
      case 2
      moreover have "n0 + length (line # lines) < 2 ^ 31" using b 2(1) by blast
      ultimately show ?thesis by simp
    qed
  qed
  moreover have "node_heap_of s' x = None" if "Some x \<in> set (map node_of lines)" for x
  proof -
    have "node_of line \<noteq> Some x" "node_heap_of s x = None" using b that by auto
    then show ?thesis using assms(2) unfolding ban_frame_def node_of_def by blast
  qed
  moreover have "config s' = config s" using assms(2) by (simp add: ban_frame_def)
  ultimately show ?thesis using b unfolding batch_ok_def by auto
qed

lemma ban_loop_refines:
  assumes "bpf_ok ops" and "ban_rel d w (server st) a" and "batch_ok d lines (server st) a"
    and "d = AF_INET \<or> d = AF_INET6"
  shows "\<exists>st'. ban_loop ops f lines st = Some st'
    \<and> ban_rel d w (server st') (spec_loop (config (server st)) w d f lines a)
    \<and> config (server st') = config (server st)
    \<and> set_family_map d Map.empty (bpf_maps (server st')) = set_family_map d Map.empty (bpf_maps (server st))"
  using assms
proof (induction lines arbitrary: st a)
  case Nil
  then show ?case by (simp add: spec_loop_def)
next
  case (Cons line lines)
  obtain env c where line: "line = (env, c)" by (cases line)
  obtain st1 where st1: "ban_client ops f env c st = Some st1"
    "ban_rel d w (server st1) (spec_client (config (server st)) w d f line a)"
    "ban_frame d env (server st) (server st1)"
    using ban_client_refines [OF Cons.prems, of f] by (auto simp: line)
  note fr = st1(3) [unfolded ban_frame_def]
  from batch_ok_step [OF Cons.prems(3), of "server st1"] st1(3)
  have "batch_ok d lines (server st1) (spec_client (config (server st)) w d f line a)" by (simp add: line)
  from Cons.IH [OF Cons.prems(1) st1(2) this Cons.prems(4)] obtain st2 where
    "ban_loop ops f lines st1 = Some st2"
    "ban_rel d w (server st2) (spec_loop (config (server st1)) w d f lines (spec_client (config (server st)) w d f line a))"
    "config (server st2) = config (server st1)"
    "set_family_map d Map.empty (bpf_maps (server st2)) = set_family_map d Map.empty (bpf_maps (server st1))"
    by blast
  then show ?case using st1(1) fr by (simp add: line spec_loop_def)
qed

lemma spec_client_black_mono: "k \<in> dom (bs_black a) \<Longrightarrow> k \<in> dom (bs_black (spec_client cfg w d f line a))"
  by (auto simp: spec_client_def spec_count_def case_prod_unfold Let_def)

lemma spec_loop_black_mono: "k \<in> dom (bs_black a) \<Longrightarrow> k \<in> dom (bs_black (spec_loop cfg w d f lines a))"
  unfolding spec_loop_def by (induction lines arbitrary: a) (simp_all only: fold_simps id_apply spec_client_black_mono)

lemma spec_client_other_key:
  assumes "take (addr_len d) (hc_ip_addr (snd line)) \<noteq> k"
  shows "bs_count (spec_client cfg w d f line a) k = bs_count a k"
  using assms by (auto simp: spec_client_def spec_count_def case_prod_unfold Let_def)

text \<open>The sightings of an address in a batch.\<close>

definition sightings :: "int \<Rightarrow> bytes \<Rightarrow> (ban_env \<times> hs_context_t) list \<Rightarrow> (ban_env \<times> hs_context_t) list" where
  "sightings d k lines = filter (\<lambda>line. take (addr_len d) (hc_ip_addr (snd line)) = k) lines"

definition counted_so_far :: "int \<Rightarrow> (nat \<times> int) option \<Rightarrow> nat \<Rightarrow> bool" where
  "counted_so_far start e n \<longleftrightarrow> (case e of None \<Rightarrow> n = 0 | Some (m, b) \<Rightarrow> n = m \<and> start \<le> b)"

lemma spec_loop_bans:
  assumes "\<not> (d = AF_INET \<and> take 3 k = take 3 (whitelistv4 cfg))"
    and "\<forall>(env, c)\<in>set (sightings d k lines). be_time env - f \<le> uint (findtime cfg)
      \<and> start \<le> hc_timestamp c \<and> hc_timestamp c \<le> start + w"
    and "counted_so_far start (bs_count a k) n" and "n < unat (limit cfg)"
    and "unat (limit cfg) \<le> n + length (sightings d k lines)"
  shows "k \<in> dom (bs_black (spec_loop cfg w d f lines a))"
  using assms(2-5)
proof (induction lines arbitrary: a n)
  case Nil
  then show ?case by (simp add: sightings_def)
next
  case (Cons line lines)
  obtain env c where line: "line = (env, c)" by (cases line)
  let ?a = "spec_client cfg w d f line a"
  have step: "spec_loop cfg w d f (line # lines) a = spec_loop cfg w d f lines ?a"
    by (simp add: spec_loop_def)
  show ?case
  proof (cases "take (addr_len d) (hc_ip_addr c) = k")
    case False
    then have s: "sightings d k (line # lines) = sightings d k lines" by (simp add: sightings_def line)
    have "bs_count ?a k = bs_count a k" by (rule spec_client_other_key) (simp add: line False)
    then show ?thesis unfolding step
      using Cons.IH [of ?a n] Cons.prems unfolding s by simp
  next
    case True
    then have s: "sightings d k (line # lines) = line # sightings d k lines" by (simp add: sightings_def line)
    note prem = Cons.prems(1) [unfolded s]
    have young: "\<not> uint (findtime cfg) < be_time env - f" and ts: "start \<le> hc_timestamp c" "hc_timestamp c \<le> start + w"
      using prem by (auto simp: line)
    have a: "?a = spec_count w (unat (limit cfg)) d env k (hc_timestamp c) a"
      unfolding spec_client_def line using young True assms(1) by (auto simp: Let_def)
    obtain b where e: "next_entry w (hc_timestamp c) (bs_count a k) = (n + 1, b)" "start \<le> b"
      using Cons.prems(2) ts by (cases "bs_count a k") (auto simp: counted_so_far_def split: if_splits)
    show ?thesis
    proof (cases "n + 1 = unat (limit cfg)")
      case True
      have "k \<in> dom (bs_black ?a)" unfolding a using e True by (auto simp: spec_count_def Let_def)
      then show ?thesis unfolding step by (rule spec_loop_black_mono)
    next
      case False
      then have "bs_count ?a k = Some (n + 1, b)" unfolding a using e by (simp add: spec_count_def Let_def)
      then have "counted_so_far start (bs_count ?a k) (n + 1)" using e(2) by (simp add: counted_so_far_def)
      then show ?thesis unfolding step
        by (rule Cons.IH [rotated]) (use prem Cons.prems(3,4) False s in auto)
    qed
  qed
qed

section \<open>Properties\<close>

text \<open>C3. Banning refines its specification: on a batch of log lines of one address family, and as long as
  no library call fails, \<open>ban_clients\<close> ends without undefined behaviour, and the counters, the banned list
  and the map of the family are exactly what the specification computes line by line. The configuration and
  the map of the other family are unchanged.\<close>

theorem ban_clients_refines:
  assumes "bpf_ok ops" and "ban_rel d w (server st) a" and "batch_ok d lines (server st) a"
    and "d = AF_INET \<or> d = AF_INET6" and "lines = (env, c) # rest"
  shows "\<exists>st'. ban_clients ops lines st = Some st'
    \<and> ban_rel d w (server st') (spec_loop (config (server st)) w d (hc_timestamp c) lines a)
    \<and> config (server st') = config (server st)
    \<and> set_family_map d Map.empty (bpf_maps (server st')) = set_family_map d Map.empty (bpf_maps (server st))"
  using ban_loop_refines [OF assms(1-4)] assms(5) by (simp add: ban_clients_def)

text \<open>The concrete instance the examples use: three lines of one client and an empty server.\<close>

definition example_ops :: bpf_ops where
  "example_ops = \<lparr>bpf_update = (\<lambda>m k v. if m k = None then (0, m(k \<mapsto> v)) else (-17, m)),
     bpf_delete = (\<lambda>m k. if m k = None then (-2, m) else (0, m(k := None)))\<rparr>"

definition example_server :: server_t where
  "example_server = \<lparr>config = default_config, server_running = True, htable = Some example_table,
     banned_list = Some \<lparr>ll_head = None, ll_heap = (\<lambda>_. None)\<rparr>, bpf_maps = no_maps\<rparr>"

definition example_line :: "nat \<Rightarrow> bytes \<Rightarrow> ban_env \<times> hs_context_t" where
  "example_line n ip =
     (\<lparr>be_time = 100 + int n, be_ht = linux_env,
       be_llist = \<lparr>l_node = Some n, l_key = True, l_lock = 0, l_unlock = 0\<rparr>, be_value = 0\<rparr>,
      \<lparr>hc_domain = AF_INET, hc_match = True, hc_rate_limit_match = True, hc_logstr = [],
       hc_ip_addr = ip @ replicate 12 0, hc_from = 0, hc_timestamp = 100\<rparr>)"

definition example_spec :: ban_spec where
  "example_spec = \<lparr>bs_count = (\<lambda>_. None), bs_black = Map.empty, bs_listed = []\<rparr>"

lemma example_ops_ok: "bpf_ok example_ops"
  by (auto simp: bpf_ok_def example_ops_def)

lemma example_rel: "ban_rel AF_INET 30 example_server example_spec"
  unfolding ban_rel_def
  by (rule exI [of _ example_table], rule exI [of _ "\<lparr>ll_head = None, ll_heap = (\<lambda>_. None)\<rparr>"], rule exI [of _ "[]"])
    (simp add: example_server_def example_spec_def example_table_search llist_wf_def entries_def
      family_map_def no_maps_def)

lemma example_batch:
  "length ip = 4 \<Longrightarrow> batch_ok AF_INET [example_line 1 ip, example_line 2 ip, example_line 3 ip] example_server example_spec"
  by (simp add: batch_ok_def example_line_def env_good_def node_of_def node_heap_of_def example_server_def
      example_spec_def max_entries_def default_config_def sf2b_defaults)

theorem ban_clients_refines_witness:
  "\<exists>st'. ban_clients example_ops [example_line 1 [192, 0, 2, 1], example_line 2 [192, 0, 2, 1], example_line 3 [192, 0, 2, 1]]
      \<lparr>server = example_server, ban_count = 0, too_old = 0\<rparr> = Some st'
    \<and> ban_rel AF_INET 30 (server st') \<lparr>bs_count = [[192, 0, 2, 1] \<mapsto> (3, 100)], bs_black = [[192, 0, 2, 1] \<mapsto> 0],
        bs_listed = [([192, 0, 2, 1], 103, AF_INET)]\<rparr>"
proof -
  let ?l = "[example_line 1 [192, 0, 2, 1], example_line 2 [192, 0, 2, 1], example_line 3 [192, 0, 2, 1]]"
  have "spec_loop default_config 30 AF_INET 100 ?l example_spec
      = \<lparr>bs_count = [[192, 0, 2, 1] \<mapsto> (3, 100)], bs_black = [[192, 0, 2, 1] \<mapsto> 0],
        bs_listed = [([192, 0, 2, 1], 103, AF_INET)]\<rparr>"
    by (simp add: spec_loop_def spec_client_def spec_count_def example_line_def example_spec_def
        default_config_def sf2b_defaults Let_def) (simp only: numeral_3_eq_3)
  then show ?thesis
    using ban_clients_refines [OF example_ops_ok, of AF_INET 30 "\<lparr>server = example_server, ban_count = 0, too_old = 0\<rparr>"
        example_spec ?l "fst (example_line 1 [192, 0, 2, 1])" "snd (example_line 1 [192, 0, 2, 1])" "tl ?l"]
      example_rel example_batch [of "[192, 0, 2, 1]"]
    by (simp add: example_server_def) (auto simp: example_line_def)
qed

end
