(* ===== verification/Sf2b_Parse.thy ===== *)
theory Sf2b_Parse
  imports Sf2b_Ban
begin

text \<open>
  Reading log lines, from \<open>src/programs/sf2b/string.c\<close>: the match handler \<open>regex_match_handler\<close> that the
  pattern matcher calls, \<open>parse_str\<close> and the event loop of \<open>ban_thread_routine\<close>.

  Hyperscan, \<open>inet_pton\<close>, \<open>strptime\<close> with \<open>mktime\<close> and the clock are an environment: the matches of a scan in
  the order in which they are reported, and two functions. The log line is the byte array it was read into;
  the handler writes into it, and a write or the end of a string outside the array is undefined (\<open>None\<close>).
\<close>

section \<open>Data\<close>

definition IP4_REGEX_ID :: nat where "IP4_REGEX_ID = 1"
definition IP6_REGEX_ID :: nat where "IP6_REGEX_ID = 2"
definition RATE_LIMIT_REGEX_ID :: nat where "RATE_LIMIT_REGEX_ID = 3"

lemmas regex_ids = IP4_REGEX_ID_def IP6_REGEX_ID_def RATE_LIMIT_REGEX_ID_def

definition HS_SUCCESS :: int where "HS_SUCCESS = 0"
definition HS_SCAN_TERMINATED :: int where "HS_SCAN_TERMINATED = -3"

definition EXIT_SUCCESS :: int where "EXIT_SUCCESS = 0"
definition EXIT_FAIL :: int where "EXIT_FAIL = 1"

record parse_env =
  pe_time :: int
  pe_date :: "bytes \<Rightarrow> int option"
  pe_pton :: "int \<Rightarrow> bytes \<Rightarrow> bytes option"
  pe_matches :: "(nat \<times> nat \<times> nat) list"
  pe_scan :: int

text \<open>The per-thread cache of the last date.\<close>

record date_cache =
  timestamp_str_cache :: bytes
  timestamp_cache :: int

section \<open>Operations\<close>

text \<open>A byte is stored; a string is read up to its terminator.\<close>

definition put_byte :: "nat \<Rightarrow> u8 \<Rightarrow> bytes \<Rightarrow> bytes option" where
  "put_byte i b buf = (if i < length buf then Some (buf[i := b]) else None)"

definition c_string :: "bytes \<Rightarrow> nat \<Rightarrow> bytes option" where
  "c_string buf i = (if 0 \<in> set (drop i buf) then Some (takeWhile (\<lambda>b. b \<noteq> 0) (drop i buf)) else None)"

definition set_ip :: "bytes \<Rightarrow> hs_context_t \<Rightarrow> hs_context_t" where
  "set_ip ip c = c\<lparr>hc_ip_addr := ip @ drop (length ip) (hc_ip_addr c)\<rparr>"

definition regex_match_handler :: "(int \<Rightarrow> bytes \<Rightarrow> bytes option) \<Rightarrow> nat \<times> nat \<times> nat \<Rightarrow> hs_context_t \<Rightarrow>
    (int \<times> hs_context_t) option" where
  "regex_match_handler pton m c =
     (case m of (ident, start, to) \<Rightarrow>
        if ident = RATE_LIMIT_REGEX_ID
        then Some (if hc_match c then 1 else 0, c\<lparr>hc_rate_limit_match := True\<rparr>)
        else if ident = IP4_REGEX_ID
        then do {
          (if to = 0 then None else Some ());
          buf \<leftarrow> put_byte (to - 1) 0 (hc_logstr c);
          let c1 = c\<lparr>hc_match := True, hc_logstr := buf, hc_from := start\<rparr>;
          s \<leftarrow> c_string buf start;
          (case pton AF_INET s of
             Some ip \<Rightarrow>
               Some (if hc_rate_limit_match c1 then 1 else 0, (set_ip ip c1)\<lparr>hc_domain := AF_INET\<rparr>)
           | None \<Rightarrow> do {
               buf2 \<leftarrow> put_byte to 32 buf;
               Some (0, c1\<lparr>hc_domain := -1, hc_logstr := buf2\<rparr>)
             })
        }
        else if ident = IP6_REGEX_ID
        then do {
          (if to = 0 then None else Some ());
          buf \<leftarrow> put_byte (to - 1) 0 (hc_logstr c);
          let c1 = c\<lparr>hc_match := True, hc_logstr := buf, hc_from := start\<rparr>;
          s \<leftarrow> c_string buf start;
          buf2 \<leftarrow> put_byte (to + 1) 32 buf;
          (case pton AF_INET6 s of
             Some ip \<Rightarrow>
               Some (if hc_rate_limit_match c1 then 1 else 0,
                 (set_ip ip c1)\<lparr>hc_domain := AF_INET6, hc_logstr := buf2\<rparr>)
           | None \<Rightarrow> Some (0, c1\<lparr>hc_domain := -1, hc_logstr := buf2\<rparr>))
        }
        else Some (1, c))"

text \<open>\<open>hs_scan\<close> calls the handler for every match until it returns a non-zero value.\<close>

fun hs_scan :: "(int \<Rightarrow> bytes \<Rightarrow> bytes option) \<Rightarrow> int \<Rightarrow> (nat \<times> nat \<times> nat) list \<Rightarrow> hs_context_t \<Rightarrow>
    (int \<times> hs_context_t) option" where
  "hs_scan pton result [] c = Some (result, c)"
| "hs_scan pton result (m # ms) c =
     do {
       (r, c') \<leftarrow> regex_match_handler pton m c;
       if r \<noteq> 0 then Some (HS_SCAN_TERMINATED, c') else hs_scan pton result ms c'
     }"

definition parse_date :: "parse_env \<Rightarrow> bytes \<Rightarrow> date_cache \<Rightarrow> date_cache option" where
  "parse_date env logstr cache =
     do {
       prefix \<leftarrow> mem_read logstr 0 21;
       if prefix = timestamp_str_cache cache then Some cache
       else do {
         s \<leftarrow> c_string logstr 0;
         Some \<lparr>timestamp_str_cache = prefix,
           timestamp_cache = (case pe_date env s of None \<Rightarrow> pe_time env | Some t \<Rightarrow> t)\<rparr>
       }
     }"

definition parse_str :: "parse_env \<Rightarrow> bytes \<Rightarrow> hs_context_t \<Rightarrow> date_cache \<Rightarrow>
    (int \<times> hs_context_t \<times> date_cache) option" where
  "parse_str env logstr c cache =
     do {
       cache' \<leftarrow> parse_date env logstr cache;
       let c0 = c\<lparr>hc_match := False, hc_domain := -1, hc_logstr := logstr, hc_rate_limit_match := False,
         hc_timestamp := timestamp_cache cache'\<rparr>;
       (retval, c1) \<leftarrow> hs_scan (pe_pton env) (pe_scan env) (pe_matches env) c0;
       if retval \<noteq> HS_SUCCESS \<and> retval \<noteq> HS_SCAN_TERMINATED then Some (-1, c1, cache')
       else if \<not> hc_match c1 \<or> hc_domain c1 = -1 \<or> \<not> hc_rate_limit_match c1 then Some (-2, c1, cache')
       else do {
         s \<leftarrow> c_string (hc_logstr c1) (hc_from c1);
         (case pe_pton env AF_INET s of
            Some ip \<Rightarrow> Some (0, (set_ip ip c1)\<lparr>hc_domain := AF_INET\<rparr>, cache')
          | None \<Rightarrow>
              (case pe_pton env AF_INET6 s of
                 Some ip \<Rightarrow> Some (0, (set_ip ip c1)\<lparr>hc_domain := AF_INET6\<rparr>, cache')
               | None \<Rightarrow> Some (-3, c1, cache')))
       }
     }"

text \<open>The parsing loop of the thread: the array of contexts, filled from the start with the lines that were
  accepted.\<close>

fun parse_lines :: "(parse_env \<times> bytes) list \<Rightarrow> nat \<Rightarrow> (nat \<Rightarrow> hs_context_t) \<Rightarrow> date_cache \<Rightarrow>
    (nat \<times> (nat \<Rightarrow> hs_context_t) \<times> date_cache) option" where
  "parse_lines [] parsed_lines context cache = Some (parsed_lines, context, cache)"
| "parse_lines ((env, logstr) # lines) parsed_lines context cache =
     do {
       (ret, c, cache') \<leftarrow> parse_str env logstr (context parsed_lines) cache;
       parse_lines lines (if ret < 0 then parsed_lines else parsed_lines + 1) (context(parsed_lines := c)) cache'
     }"

text \<open>The event loop: one list element per round, with the result of \<open>get_lines_ipc\<close> and the environments of
  \<open>ban_clients\<close>; the list ends when \<open>server_running\<close> becomes false.\<close>

datatype recv_result = Recv_Error int | Recv_Lines "(parse_env \<times> bytes) list"

record ban_targs_t =
  ta_rcv_count :: u64
  ta_retval :: int

fun ban_thread :: "bpf_ops \<Rightarrow> (recv_result \<times> (nat \<Rightarrow> ban_env)) list \<Rightarrow> (nat \<Rightarrow> hs_context_t) \<Rightarrow> date_cache \<Rightarrow> u64 \<Rightarrow>
    ban_state \<Rightarrow> (ban_targs_t \<times> ban_state) option" where
  "ban_thread ops [] context cache rcv_count st =
     Some (\<lparr>ta_rcv_count = rcv_count, ta_retval = EXIT_SUCCESS\<rparr>, st)"
| "ban_thread ops ((Recv_Error e, env) # rounds) context cache rcv_count st =
     Some (\<lparr>ta_rcv_count = rcv_count, ta_retval = EXIT_FAIL\<rparr>, st)"
| "ban_thread ops ((Recv_Lines lines, env) # rounds) context cache rcv_count st =
     (if lines = [] then ban_thread ops rounds context cache rcv_count st
      else do {
        (parsed_lines, context', cache') \<leftarrow> parse_lines lines 0 context cache;
        st' \<leftarrow> ban_clients ops (map (\<lambda>i. (env i, context' i)) [0 ..< parsed_lines]) st;
        ban_thread ops rounds context' cache' (rcv_count + of_nat (length lines)) st'
      })"

section \<open>What a scan leaves in the context\<close>

text \<open>\<open>inet_pton\<close> delivers the four or sixteen bytes of an address.\<close>

definition pton_ok :: "(int \<Rightarrow> bytes \<Rightarrow> bytes option) \<Rightarrow> bool" where
  "pton_ok pton \<longleftrightarrow> (\<forall>d s ip. (d = AF_INET \<or> d = AF_INET6) \<longrightarrow> pton d s = Some ip \<longrightarrow> length ip = addr_len d)"

definition is_ip_match :: "nat \<times> nat \<times> nat \<Rightarrow> bool" where
  "is_ip_match m \<longleftrightarrow> fst m = IP4_REGEX_ID \<or> fst m = IP6_REGEX_ID"

lemma length_put_byte: "put_byte i b buf = Some buf' \<Longrightarrow> length buf' = length buf"
  by (auto simp: put_byte_def split: if_splits)

lemma set_ip_simps [simp]:
  "hc_match (set_ip ip c) = hc_match c" "hc_rate_limit_match (set_ip ip c) = hc_rate_limit_match c"
  "hc_timestamp (set_ip ip c) = hc_timestamp c" "hc_logstr (set_ip ip c) = hc_logstr c"
  "hc_from (set_ip ip c) = hc_from c"
  by (simp_all add: set_ip_def)

lemma length_set_ip: "length ip \<le> length (hc_ip_addr c) \<Longrightarrow> length (hc_ip_addr (set_ip ip c)) = length (hc_ip_addr c)"
  by (simp add: set_ip_def)

lemma take_set_ip: "take (length ip) (hc_ip_addr (set_ip ip c)) = ip"
  by (simp add: set_ip_def)

text \<open>What a call of the handler preserves and what it can set.\<close>

definition scan_frame :: "(nat \<times> nat \<times> nat) list \<Rightarrow> hs_context_t \<Rightarrow> hs_context_t \<Rightarrow> bool" where
  "scan_frame ms c c' \<longleftrightarrow> hc_timestamp c' = hc_timestamp c \<and> length (hc_logstr c') = length (hc_logstr c)
     \<and> (length (hc_ip_addr c) = 16 \<longrightarrow> length (hc_ip_addr c') = 16)
     \<and> (hc_match c' \<longrightarrow> hc_match c \<or> (\<exists>m\<in>set ms. is_ip_match m))
     \<and> (hc_rate_limit_match c' \<longrightarrow> hc_rate_limit_match c \<or> (\<exists>m\<in>set ms. fst m = RATE_LIMIT_REGEX_ID))"

lemma scan_frame_trans: "scan_frame [m] c c1 \<Longrightarrow> scan_frame ms c1 c2 \<Longrightarrow> scan_frame (m # ms) c c2"
  by (auto simp: scan_frame_def)

lemma handler_frame:
  assumes "pton_ok pton" and "regex_match_handler pton m c = Some (r, c')"
  shows "scan_frame [m] c c'"
proof -
  obtain ident start to where m: "m = (ident, start, to)" by (cases m)
  have len: "length ip = 4" if "pton AF_INET s = Some ip" for s ip
    using assms(1) that unfolding pton_ok_def by fastforce
  have len6: "length ip = 16" if "pton AF_INET6 s = Some ip" for s ip
    using assms(1) that unfolding pton_ok_def by fastforce
  consider "ident = RATE_LIMIT_REGEX_ID" | "ident = IP4_REGEX_ID" | "ident = IP6_REGEX_ID"
    | "ident \<noteq> RATE_LIMIT_REGEX_ID" "ident \<noteq> IP4_REGEX_ID" "ident \<noteq> IP6_REGEX_ID" by blast
  then show ?thesis
  proof cases
    case 1
    then show ?thesis using assms(2) by (auto simp: m regex_match_handler_def scan_frame_def)
  next
    case 2
    then obtain buf s where b: "put_byte (to - 1) 0 (hc_logstr c) = Some buf" "c_string buf start = Some s"
      using assms(2) by (auto simp: m regex_match_handler_def regex_ids bind_eq_Some_conv Let_def)
    note l = length_put_byte [OF b(1)]
    show ?thesis
    proof (cases "pton AF_INET s")
      case (Some ip)
      then show ?thesis using assms(2) 2 b l len [OF Some]
        by (auto simp: m regex_match_handler_def regex_ids scan_frame_def is_ip_match_def set_ip_def bind_eq_Some_conv Let_def)
    next
      case None
      then show ?thesis using assms(2) 2 b l
        by (auto simp: m regex_match_handler_def regex_ids scan_frame_def is_ip_match_def bind_eq_Some_conv Let_def
            dest: length_put_byte)
    qed
  next
    case 3
    then obtain buf s where b: "put_byte (to - 1) 0 (hc_logstr c) = Some buf" "c_string buf start = Some s"
      using assms(2) by (auto simp: m regex_match_handler_def regex_ids bind_eq_Some_conv Let_def)
    then obtain buf2 where b2: "put_byte (to + 1) 32 buf = Some buf2"
      using assms(2) 3 by (auto simp: m regex_match_handler_def regex_ids bind_eq_Some_conv Let_def)
    note l = length_put_byte [OF b(1)] length_put_byte [OF b2]
    show ?thesis
    proof (cases "pton AF_INET6 s")
      case (Some ip)
      then show ?thesis using assms(2) 3 b b2 l len6 [OF Some]
        by (auto simp: m regex_match_handler_def regex_ids scan_frame_def is_ip_match_def set_ip_def bind_eq_Some_conv Let_def)
    next
      case None
      then show ?thesis using assms(2) 3 b b2 l
        by (auto simp: m regex_match_handler_def regex_ids scan_frame_def is_ip_match_def bind_eq_Some_conv Let_def)
    qed
  next
    case 4
    then show ?thesis using assms(2) by (auto simp: m regex_match_handler_def scan_frame_def)
  qed
qed

lemma hs_scan_frame:
  "pton_ok pton \<Longrightarrow> hs_scan pton res ms c = Some (r, c') \<Longrightarrow> scan_frame ms c c'"
proof (induction ms arbitrary: c)
  case Nil
  then show ?case by (simp add: scan_frame_def)
next
  case (Cons m ms)
  obtain q c1 where h: "regex_match_handler pton m c = Some (q, c1)"
    "(if q \<noteq> 0 then Some (HS_SCAN_TERMINATED, c1) else hs_scan pton res ms c1) = Some (r, c')"
    using Cons.prems(2) by (auto simp: bind_eq_Some_conv)
  note f = handler_frame [OF Cons.prems(1) h(1)]
  show ?case
  proof (cases "q \<noteq> 0")
    case True
    then have "c' = c1" using h(2) by simp
    then show ?thesis using scan_frame_trans [OF f, of ms c1] by (simp add: scan_frame_def)
  next
    case False
    then have "hs_scan pton res ms c1 = Some (r, c')" using h(2) by simp
    from scan_frame_trans [OF f Cons.IH [OF Cons.prems(1) this]] show ?thesis .
  qed
qed

section \<open>Properties\<close>


definition example_log :: bytes where
  "example_log = replicate 21 65 @ [49, 46, 50, 46, 51, 46, 52, 35] @ [0]"

definition example_parse_env :: parse_env where
  "example_parse_env = \<lparr>pe_time = 100, pe_date = (\<lambda>_. Some 90),
     pe_pton = (\<lambda>d s. if d = AF_INET \<and> s = [49, 46, 50, 46, 51, 46, 52] then Some [1, 2, 3, 4] else None),
     pe_matches = [(RATE_LIMIT_REGEX_ID, 0, 6), (IP4_REGEX_ID, 21, 29)], pe_scan = HS_SUCCESS\<rparr>"


text \<open>A match of the IPv6 pattern that ends in the last byte of the line buffer, or one before, makes the
  handler write behind the buffer.\<close>

lemma regex_ipv6_match_overflows:
  "length (hc_logstr c) \<le> to + 1 \<Longrightarrow> regex_match_handler pton (IP6_REGEX_ID, start, to) c = None"
  by (auto simp: regex_match_handler_def regex_ids put_byte_def bind_eq_None_conv Let_def)

end
