(* ===== verification/Sf2b_Binary.thy ===== *)
theory Sf2b_Binary
  imports Sf2b_System
begin

text \<open>
  The binary variant, \<open>src/programs/sf2b/binary.c\<close>: the messages carry the address and the time stamp in
  binary form (\<open>fips_bin_message_t\<close> of \<open>fips_buf.h\<close>), so there is nothing to parse. The differences to the
  string variant are in the source and in the model: the age of every message is its own, the counter of old
  messages is not incremented (the statement increments the pointer), and the second \<open>switch\<close> compares the
  address length with \<open>AF_INET6\<close>, so that IPv6 addresses are counted and never banned.
\<close>

section \<open>Operations\<close>

record fips_bin_message_t =
  bm_timestamp :: int
  bm_address_len :: u8
  bm_address :: bytes

text \<open>The cast of a line to a message: the time is at 0, the length of the address at 8, the address at 16.\<close>

definition message_at :: "bytes \<Rightarrow> nat \<Rightarrow> fips_bin_message_t option" where
  "message_at mem pos =
     do {
       ts \<leftarrow> mem_read mem pos 8;
       len \<leftarrow> nth_opt mem (pos + 8);
       a \<leftarrow> mem_read mem (pos + 16) 16;
       Some \<lparr>bm_timestamp = sint (word_of_nat (le_nat ts) :: u64), bm_address_len = len, bm_address = a\<rparr>
     }"

text \<open>The body of the loop. The branch \<open>case AF_INET6\<close> of the second switch, with its push and update, needs
  an address length of 10, which the first switch sends to \<open>continue\<close>.\<close>

definition ban_message :: "bpf_ops \<Rightarrow> ban_env \<Rightarrow> fips_bin_message_t \<Rightarrow> ban_state \<Rightarrow> ban_state option" where
  "ban_message ops env message st =
     (if be_time env - bm_timestamp message > uint (findtime (config (server st))) then Some st
      else if bm_address_len message = 4
      then do {
        skip \<leftarrow> is_whitelistv4 (ipv4_word (bm_address message)) (ipv4_word (whitelistv4 (config (server st)))) 24;
        if skip then Some st
        else do {
          (retval, t) \<leftarrow> ip_hashtable_insert (be_ht env) (htable (server st)) (Some (take 4 (bm_address message)))
            AF_INET (bm_timestamp message);
          let st1 = st\<lparr>server := (server st)\<lparr>htable := t\<rparr>\<rparr>;
          if retval < 1 then Some st1
          else if retval = uint (limit (config (server st)))
          then do {
            (r, s2) \<leftarrow> push_and_block ops env AF_INET (take 4 (bm_address message)) (server st1);
            (case r of
               None \<Rightarrow> Some (st1\<lparr>server := s2\<rparr>)
             | Some retval2 \<Rightarrow>
                 if retval2 \<noteq> EXIT_OK
                 then do {
                   (_, t2) \<leftarrow> ip_hashtable_set (be_ht env) (htable s2) (Some (take 4 (bm_address message))) AF_INET
                     (word_of_int (uint (limit (config s2)) - 1)) (bm_timestamp message);
                   Some (st1\<lparr>server := s2\<lparr>htable := t2\<rparr>\<rparr>)
                 }
                 else Some (st1\<lparr>server := s2, ban_count := ban_count st1 + 1\<rparr>))
          }
          else Some st1
        }
      }
      else if bm_address_len message = 16
      then do {
        (retval, t) \<leftarrow> ip_hashtable_insert (be_ht env) (htable (server st)) (Some (bm_address message))
          AF_INET6 (bm_timestamp message);
        Some (st\<lparr>server := (server st)\<lparr>htable := t\<rparr>\<rparr>)
      }
      else Some st)"

fun ban_messages :: "bpf_ops \<Rightarrow> (ban_env \<times> fips_bin_message_t) list \<Rightarrow> ban_state \<Rightarrow> ban_state option" where
  "ban_messages ops [] st = Some st"
| "ban_messages ops ((env, message) # msgs) st =
     do {
       st' \<leftarrow> ban_message ops env message st;
       ban_messages ops msgs st'
     }"

text \<open>The event loop of the thread; the received count grows by the size of the queue in every round, however
  many messages were read.\<close>

fun ban_binary_thread :: "bpf_ops \<Rightarrow> (int \<times> (ban_env \<times> fips_bin_message_t) list) list \<Rightarrow> u64 \<Rightarrow> ban_state \<Rightarrow>
    ((int \<times> u64) \<times> ban_state) option" where
  "ban_binary_thread ops [] rcv_count st = Some ((0, rcv_count), st)"
| "ban_binary_thread ops ((recv_retval, msgs) # rounds) rcv_count st =
     (if recv_retval < 0 then Some ((1, rcv_count), st)
      else if recv_retval = 0 then ban_binary_thread ops rounds rcv_count st
      else do {
        st' \<leftarrow> ban_messages ops (take (nat recv_retval) msgs) st;
        ban_binary_thread ops rounds (rcv_count + of_nat QUEUE_SIZE) st'
      })"

section \<open>Comparison with the string variant\<close>

definition as_context :: "fips_bin_message_t \<Rightarrow> hs_context_t" where
  "as_context message = \<lparr>hc_domain = AF_INET, hc_match = True, hc_rate_limit_match = True, hc_logstr = [],
     hc_ip_addr = bm_address message, hc_from = 0, hc_timestamp = bm_timestamp message\<rparr>"

lemma ban_address_too_old: "ban_address ops env d key ts st = Some st' \<Longrightarrow> too_old st' = too_old st"
  by (auto simp: ban_address_def bind_eq_Some_conv split: option.splits if_splits)

lemma count_address_too_old: "count_address ops env d key ts st = Some st' \<Longrightarrow> too_old st' = too_old st"
  by (auto simp: count_address_def bind_eq_Some_conv Let_def dest!: ban_address_too_old split: if_splits)

text \<open>C19. For IPv4 messages the binary variant bans like the string variant: one message is handled exactly as
  \<open>ban_client\<close> handles a parsed line with the same address and time stamp that is alone in its batch, except
  that the counter of old messages is not touched.\<close>

theorem ban_message_ipv4:
  assumes "bm_address_len message = 4"
  shows "ban_message ops env message st =
    map_option (\<lambda>s. s\<lparr>too_old := too_old st\<rparr>) (ban_client ops (bm_timestamp message) env (as_context message) st)"
proof (cases "be_time env - bm_timestamp message > uint (findtime (config (server st)))")
  case True
  then show ?thesis by (simp add: ban_message_def ban_client_def as_context_def)
next
  case False
  let ?wl = "is_whitelistv4 (ipv4_word (bm_address message)) (ipv4_word (whitelistv4 (config (server st)))) 24"
  let ?r = "do { skip \<leftarrow> ?wl; if skip then Some st
    else count_address ops env AF_INET (take 4 (bm_address message)) (bm_timestamp message) st }"
  have c: "hc_domain (as_context message) = AF_INET" "hc_ip_addr (as_context message) = bm_address message"
    "hc_timestamp (as_context message) = bm_timestamp message" by (simp_all add: as_context_def)
  have "ban_message ops env message st = ?r"
    using False assms unfolding ban_message_def count_address_def ban_address_def by (simp only: if_False if_True simp_thms)
  moreover have "ban_client ops (bm_timestamp message) env (as_context message) st = ?r"
    unfolding ban_client_def c using False by (simp only: if_False if_True simp_thms)
  moreover have "map_option (\<lambda>s. s\<lparr>too_old := too_old st\<rparr>) ?r = ?r"
  proof -
    have "too_old s = too_old st" if "?r = Some s" for s
      using that by (auto simp: bind_eq_Some_conv dest: count_address_too_old split: if_splits)
    then show ?thesis by (cases ?r) auto
  qed
  ultimately show ?thesis by simp
qed

theorem ban_message_ipv4_witness:
  "\<exists>st. ban_message example_ops (fst (example_line 1 [192, 0, 2, 1]))
      \<lparr>bm_timestamp = 100, bm_address_len = 4, bm_address = [192, 0, 2, 1] @ replicate 12 0\<rparr>
      \<lparr>server = example_server, ban_count = 0, too_old = 7\<rparr>
    = map_option (\<lambda>s. s\<lparr>too_old := 7\<rparr>) (ban_client example_ops 100 (fst (example_line 1 [192, 0, 2, 1]))
        (snd (example_line 1 [192, 0, 2, 1])) st) \<and> server st = example_server"
  using ban_message_ipv4 [of "\<lparr>bm_timestamp = 100, bm_address_len = 4, bm_address = [192, 0, 2, 1] @ replicate 12 0\<rparr>"
      example_ops "fst (example_line 1 [192, 0, 2, 1])" "\<lparr>server = example_server, ban_count = 0, too_old = 7\<rparr>"]
  by (intro exI [of _ "\<lparr>server = example_server, ban_count = 0, too_old = 7\<rparr>"])
    (simp add: as_context_def example_line_def)

text \<open>C33. The binary variant never bans an IPv6 client: whatever messages arrive and whatever the library calls
  return, a batch without IPv4 messages changes neither the banned list nor a map of the packet filter nor the
  number of bans.\<close>

theorem ban_messages_ipv6_never_banned:
  assumes "\<forall>(env, message)\<in>set msgs. bm_address_len message \<noteq> 4" and "ban_messages ops msgs st = Some st'"
  shows "banned_list (server st') = banned_list (server st) \<and> bpf_maps (server st') = bpf_maps (server st)
    \<and> ban_count st' = ban_count st"
  using assms
proof (induction msgs arbitrary: st)
  case Nil
  then show ?case by simp
next
  case (Cons msg msgs)
  obtain env message where msg: "msg = (env, message)" by (cases msg)
  obtain st1 where st1: "ban_message ops env message st = Some st1" "ban_messages ops msgs st1 = Some st'"
    using Cons.prems(2) by (auto simp: msg bind_eq_Some_conv)
  have "bm_address_len message \<noteq> 4" using Cons.prems(1) by (simp add: msg)
  then have "banned_list (server st1) = banned_list (server st) \<and> bpf_maps (server st1) = bpf_maps (server st)
    \<and> ban_count st1 = ban_count st"
    using st1(1) by (auto simp: ban_message_def bind_eq_Some_conv split: if_splits)
  then show ?case using Cons.IH [OF _ st1(2)] Cons.prems(1) by simp
qed

theorem ban_messages_ipv6_never_banned_witness:
  "\<exists>st'. ban_messages example_ops [(fst (example_line 1 []), \<lparr>bm_timestamp = 100, bm_address_len = 16,
      bm_address = replicate 16 1\<rparr>)] \<lparr>server = example_server\<lparr>config := default_config\<lparr>limit := 1\<rparr>\<rparr>,
        ban_count = 0, too_old = 0\<rparr> = Some st'
    \<and> bpf_maps (server st') = no_maps \<and> ban_count st' = 0"
proof -
  let ?m = "\<lparr>bm_timestamp = 100, bm_address_len = 16, bm_address = replicate 16 1\<rparr>"
  let ?st = "\<lparr>server = example_server\<lparr>config := default_config\<lparr>limit := 1\<rparr>\<rparr>, ban_count = 0, too_old = 0\<rparr>"
  obtain r t' where "ip_hashtable_insert linux_env (Some example_table) (Some (replicate 16 1)) AF_INET6 100 = Some (r, Some t')"
    by (rule insert_counts [of example_table AF_INET6 "replicate 16 1" linux_env 100]) simp_all
  then obtain st' where "ban_messages example_ops [(fst (example_line 1 []), ?m)] ?st = Some st'"
    by (simp add: ban_message_def example_line_def example_server_def default_config_def sf2b_defaults)
  moreover have "bpf_maps (server ?st) = no_maps" by (simp add: example_server_def)
  ultimately show ?thesis
    using ban_messages_ipv6_never_banned [of "[(fst (example_line 1 []), ?m)]" example_ops ?st st'] by auto
qed

end
