(* ===== verification/Sf2b_Ipc.thy ===== *)
theory Sf2b_Ipc
  imports Sf2b_Config Shm_Ringbuf Uring_Getline Fips_Read
begin

text \<open>
  The back ends through which the program gets its log lines, \<open>src/programs/sf2b/shmrbuf.c\<close>, \<open>disk.c\<close> and
  \<open>fips_buf.c\<close>: \<open>init_thread_ipc\<close> of the shared memory variant, which gives every banning thread its range
  of segments, and \<open>get_lines_ipc\<close> and \<open>return_lines_ipc\<close> of each variant on top of the models of the three
  transports.

  The shared memory variant keeps the two numbers of a thread in the first bytes of the pointer variable
  that the other calls get by value; the model passes them as a pair.
\<close>

section \<open>Ranges of segments\<close>

datatype thread_range = Not_Needed | Segments u8 u8

text \<open>The array \<open>segments_per_thread\<close>.\<close>

definition segments_per_thread :: "u8 \<Rightarrow> u8 \<Rightarrow> nat list" where
  "segments_per_thread segment_count threads =
     (let seg_count = unat (segment_count div threads);
          remainder = unat segment_count mod unat threads
      in 0 # map (\<lambda>i. if i < remainder then seg_count + 1 else seg_count) [0 ..< unat threads])"

text \<open>The loop over the first \<open>n\<close> elements; both sums are kept in eight bits.\<close>

fun add_shares :: "nat list \<Rightarrow> nat \<Rightarrow> nat \<Rightarrow> u8 \<Rightarrow> u8 \<Rightarrow> (u8 \<times> u8) option" where
  "add_shares shares i 0 lower_seg upper_seg = Some (lower_seg, upper_seg)"
| "add_shares shares i (Suc n) lower_seg upper_seg =
     do {
       a \<leftarrow> nth_opt shares i;
       b \<leftarrow> nth_opt shares (i + 1);
       add_shares shares (i + 1) n (lower_seg + of_nat a) (upper_seg + of_nat b)
     }"

definition init_thread_ipc :: "u8 \<Rightarrow> u8 \<Rightarrow> u8 \<Rightarrow> thread_range option" where
  "init_thread_ipc segment_count threads thread_id =
     (if segment_count \<le> thread_id then Some Not_Needed
      else if threads = 0 then None
      else map_option (\<lambda>(lower_seg, upper_seg). Segments lower_seg upper_seg)
        (add_shares (segments_per_thread segment_count threads) 0 (unat thread_id + 1) 0 0))"

section \<open>Getting lines\<close>

text \<open>The last newline of a line becomes the end of the string.\<close>

fun cut_newline :: "nat \<Rightarrow> bytes \<Rightarrow> bytes" where
  "cut_newline 0 str = str"
| "cut_newline (Suc len) str = (if str ! len = 10 then str[len := 0] else cut_newline len str)"

definition get_lines_shm :: "shmrbuf_reader_arg_t \<Rightarrow> u8 \<times> u8 \<Rightarrow> u8 \<Rightarrow> u8 \<Rightarrow> shm_region \<Rightarrow>
    (int \<times> bytes list \<times> u8 \<times> u8 \<times> shm_region) option" where
  "get_lines_shm args rng segment_index steal_index shm =
     do {
       (recv_retval, ls, si, sti, _, shm') \<leftarrow> shmrbuf_readv_rng args (of_nat QUEUE_SIZE) (of_nat LINEBUF_SIZE)
          (fst rng) (snd rng) False segment_index steal_index shm;
       Some (recv_retval, if 0 < recv_retval then map (\<lambda>str. cut_newline (length str) str) ls else ls, si, sti, shm')
     }"

text \<open>The last byte of every line, which is its newline, becomes the end of the string.\<close>

definition end_string :: "bytes \<Rightarrow> bytes" where
  "end_string str = str[length str - 1 := 0]"

definition get_lines_disk :: "(nat \<Rightarrow> uring_env) \<Rightarrow> bytes list \<Rightarrow> file_io_t \<Rightarrow> (int \<times> bytes list \<times> file_io_t) option" where
  "get_lines_disk env iovecs file_arg =
     do {
       (recv_retval, iov, file_arg') \<leftarrow> uring_getlines env (Some iovecs) QUEUE_SIZE LINEBUF_SIZE file_arg;
       Some (recv_retval,
         if 0 < recv_retval then map end_string (take (nat recv_retval) iov) @ drop (nat recv_retval) iov else iov,
         file_arg')
     }"

text \<open>The zero-copy variant delivers a full queue or nothing; the tag is kept for the return.\<close>

definition get_lines_fips :: "u8 \<Rightarrow> fips_buf_thread_arg_t \<Rightarrow> fips_shm \<Rightarrow> (int \<times> fips_read_result) option" where
  "get_lines_fips rotation t shm =
     do {
       r \<leftarrow> fips_buf_read QUEUE_SIZE 0 rotation t shm;
       Some (if rr_code r \<noteq> FIPS_BUF_SUCCESS then 0 else int QUEUE_SIZE, r)
     }"

definition return_lines_fips :: "fips_buf_range_t \<Rightarrow> fips_shm \<Rightarrow> (int \<times> fips_shm) option" where
  "return_lines_fips tag shm = map_option (\<lambda>(_, shm'). (0, shm')) (fips_buf_return tag shm)"

section \<open>Every segment has one thread\<close>

definition share :: "nat \<Rightarrow> nat \<Rightarrow> nat \<Rightarrow> nat" where
  "share sc tc i = (if i < sc mod tc then sc div tc + 1 else sc div tc)"

definition share_start :: "nat \<Rightarrow> nat \<Rightarrow> nat \<Rightarrow> nat" where
  "share_start sc tc i = i * (sc div tc) + min i (sc mod tc)"

lemma share_start_Suc: "share_start sc tc (Suc i) = share_start sc tc i + share sc tc i"
  by (auto simp: share_start_def share_def min_def)

lemma share_start_end: "0 < tc \<Longrightarrow> share_start sc tc tc = sc"
proof -
  assume "0 < tc"
  then have "sc mod tc < tc" by simp
  then show ?thesis using div_mult_mod_eq [of sc tc] by (simp add: share_start_def min_def mult.commute)
qed

lemma share_start_mono: "i \<le> j \<Longrightarrow> share_start sc tc i \<le> share_start sc tc j"
  by (simp add: share_start_def add_mono mult_le_mono1 min.coboundedI1 min_def)

lemma segments_per_thread_nth:
  assumes "i < unat tc"
  shows "segments_per_thread sc tc ! Suc i = share (unat sc) (unat tc) i"
  using assms by (simp add: segments_per_thread_def share_def Let_def unat_div)

lemma add_shares_result:
  "k + n \<le> unat tc \<Longrightarrow> add_shares (segments_per_thread sc tc) k n
      (of_nat (share_start (unat sc) (unat tc) (k - 1))) (of_nat (share_start (unat sc) (unat tc) k))
    = Some (of_nat (share_start (unat sc) (unat tc) (k + n - 1)), of_nat (share_start (unat sc) (unat tc) (k + n)))"
proof (induction n arbitrary: k)
  case 0
  then show ?case by simp
next
  case (Suc n)
  have len: "length (segments_per_thread sc tc) = Suc (unat tc)" by (simp add: segments_per_thread_def Let_def)
  have b: "nth_opt (segments_per_thread sc tc) (k + 1) = Some (share (unat sc) (unat tc) k)"
    using Suc.prems len segments_per_thread_nth [of k tc sc] by (simp add: nth_opt_def)
  have a: "\<exists>x. nth_opt (segments_per_thread sc tc) k = Some x
      \<and> share_start (unat sc) (unat tc) (k - 1) + x = share_start (unat sc) (unat tc) k"
  proof (cases k)
    case 0
    then show ?thesis by (simp add: nth_opt_def segments_per_thread_def Let_def)
  next
    case (Suc j)
    then show ?thesis using Suc.prems \<open>k + Suc n \<le> unat tc\<close> len segments_per_thread_nth [of j tc sc]
      by (simp add: nth_opt_def share_start_Suc)
  qed
  then obtain x where x: "nth_opt (segments_per_thread sc tc) k = Some x"
    "share_start (unat sc) (unat tc) (k - 1) + x = share_start (unat sc) (unat tc) k" by blast
  have "add_shares (segments_per_thread sc tc) k (Suc n) (of_nat (share_start (unat sc) (unat tc) (k - 1)))
      (of_nat (share_start (unat sc) (unat tc) k))
    = add_shares (segments_per_thread sc tc) (Suc k) n (of_nat (share_start (unat sc) (unat tc) k))
      (of_nat (share_start (unat sc) (unat tc) (Suc k)))"
    using b x by (simp add: share_start_Suc flip: of_nat_add)
  also have "\<dots> = Some (of_nat (share_start (unat sc) (unat tc) (Suc k + n - 1)), of_nat (share_start (unat sc) (unat tc) (Suc k + n)))"
    using Suc.IH [of "Suc k"] Suc.prems by simp
  finally show ?case by simp
qed

lemma share_start_less: "0 < tc \<Longrightarrow> i \<le> tc \<Longrightarrow> share_start sc tc i \<le> sc"
  using share_start_mono [of i tc sc tc] share_start_end [of tc sc] by simp

lemma share_start_beyond:
  assumes "0 < tc" and "sc \<le> i" and "i \<le> tc"
  shows "sc \<le> share_start sc tc i"
proof (cases "sc div tc = 0")
  case True
  then have "sc mod tc = sc" using assms(1) by (simp add: div_eq_0_iff)
  then show ?thesis using assms(2) by (simp add: share_start_def True)
next
  case False
  then have "i \<le> i * (sc div tc)" by simp
  then show ?thesis using assms(2) unfolding share_start_def by linarith
qed

lemma init_thread_ipc_result:
  assumes "i < unat tc" and "i < unat sc"
  shows "init_thread_ipc sc tc (of_nat i) = Some (Segments
    (of_nat (share_start (unat sc) (unat tc) i)) (of_nat (share_start (unat sc) (unat tc) (Suc i))))"
proof -
  have i: "unat (of_nat i :: u8) = i"
    using assms(1) unat_u8_less [of tc] by (simp add: unat_of_nat)
  then have "\<not> sc \<le> of_nat i" using assms(2) by (simp add: word_le_nat_alt)
  moreover have "tc \<noteq> 0" using assms(1) by auto
  moreover have "share_start (unat sc) (unat tc) 0 = 0" by (simp add: share_start_def)
  ultimately show ?thesis
    using add_shares_result [of 0 "i + 1" tc sc] assms(1) i by (simp add: init_thread_ipc_def)
qed

lemma start_interval:
  "s < share_start sc tc n \<Longrightarrow> \<exists>i<n. share_start sc tc i \<le> s \<and> s < share_start sc tc (Suc i)"
proof (induction n)
  case 0
  then show ?case by (simp add: share_start_def)
next
  case (Suc n)
  then show ?case by (cases "s < share_start sc tc n") (auto intro: less_SucI)
qed

lemma start_interval_unique:
  assumes i: "share_start sc tc i \<le> s" "s < share_start sc tc (Suc i)"
    and j: "share_start sc tc j \<le> s" "s < share_start sc tc (Suc j)"
  shows "j = i"
proof (rule ccontr)
  assume "j \<noteq> i"
  then consider "Suc j \<le> i" | "Suc i \<le> j" by linarith
  then show False
  proof cases
    case 1
    show False using share_start_mono [OF 1, of sc tc] j(2) i(1) by linarith
  next
    case 2
    show False using share_start_mono [OF 2, of sc tc] j(1) i(2) by linarith
  qed
qed

lemma init_thread_ipc_unneeded:
  assumes "i < unat tc" and "\<not> i < unat sc"
  shows "init_thread_ipc sc tc (of_nat i) = Some Not_Needed"
proof -
  have "unat (of_nat i :: u8) = i" using assms(1) unat_u8_less [of tc] by (simp add: unat_of_nat)
  then show ?thesis using assms(2) by (simp add: init_thread_ipc_def word_le_nat_alt)
qed

lemma share_start_word:
  fixes sc tc :: u8
  assumes "i \<le> unat tc" and "tc \<noteq> 0"
  shows "unat (of_nat (share_start (unat sc) (unat tc) i) :: u8) = share_start (unat sc) (unat tc) i"
proof -
  have "0 < unat tc" using assms(2) by (simp add: unat_gt_0)
  then have "share_start (unat sc) (unat tc) i < 256"
    using share_start_less [OF _ assms(1), of "unat sc"] unat_u8_less [of sc] by simp
  then show ?thesis by (simp add: unat_of_nat)
qed

lemma init_thread_ipc_covers:
  assumes "i < unat tc" and "seg < unat sc"
  shows "(\<exists>l u. init_thread_ipc sc tc (of_nat i) = Some (Segments l u) \<and> unat l \<le> seg \<and> seg < unat u)
    \<longleftrightarrow> share_start (unat sc) (unat tc) i \<le> seg \<and> seg < share_start (unat sc) (unat tc) (Suc i)"
proof -
  have tc: "tc \<noteq> 0" "0 < unat tc" using assms(1) by auto
  show ?thesis
  proof (cases "i < unat sc")
    case True
    have "unat (of_nat (share_start (unat sc) (unat tc) (Suc i)) :: u8) = share_start (unat sc) (unat tc) (Suc i)"
      by (rule share_start_word) (use assms(1) tc in simp_all)
    moreover have "unat (of_nat (share_start (unat sc) (unat tc) i) :: u8) = share_start (unat sc) (unat tc) i"
      by (rule share_start_word) (use assms(1) tc in simp_all)
    ultimately show ?thesis by (simp only: init_thread_ipc_result [OF assms(1) True] option.inject thread_range.inject) metis
  next
    case False
    then have "unat sc \<le> share_start (unat sc) (unat tc) i"
      by (intro share_start_beyond [OF tc(2)]) (use assms(1) in simp_all)
    then show ?thesis using assms(2) by (simp add: init_thread_ipc_unneeded [OF assms(1) False])
  qed
qed

lemma init_thread_ipc_size:
  assumes "i < unat tc" and "i < unat sc"
  shows "\<exists>l u. init_thread_ipc sc tc (of_nat i) = Some (Segments l u)
    \<and> unat u - unat l \<in> {unat sc div unat tc, unat sc div unat tc + 1}"
proof -
  let ?s = "share_start (unat sc) (unat tc)"
  have tc: "tc \<noteq> 0" using assms(1) by auto
  have "unat (of_nat (?s (Suc i)) :: u8) = ?s (Suc i)" by (rule share_start_word) (use assms(1) tc in simp_all)
  moreover have "unat (of_nat (?s i) :: u8) = ?s i" by (rule share_start_word) (use assms(1) tc in simp_all)
  moreover have "?s (Suc i) - ?s i \<in> {unat sc div unat tc, unat sc div unat tc + 1}"
    by (simp add: share_start_Suc share_def)
  ultimately have "unat (of_nat (?s (Suc i)) :: u8) - unat (of_nat (?s i) :: u8) \<in> {unat sc div unat tc, unat sc div unat tc + 1}"
    by (simp only:)
  with init_thread_ipc_result [OF assms] show ?thesis by blast
qed

text \<open>C17. The banning threads of the shared memory variant share the segments of the ring buffer without gap or
  overlap: every segment lies in the range of exactly one thread, and the ranges of two needed threads differ
  in size by at most one. A thread whose number is not below the number of segments is not needed.\<close>

theorem thread_ranges_partition:
  assumes "tc \<noteq> 0"
  shows "(\<forall>seg < unat sc. \<exists>!i. i < unat tc \<and> (\<exists>l u. init_thread_ipc sc tc (of_nat i) = Some (Segments l u)
      \<and> unat l \<le> seg \<and> seg < unat u))
    \<and> (\<forall>i < unat tc. if i < unat sc
        then \<exists>l u. init_thread_ipc sc tc (of_nat i) = Some (Segments l u)
          \<and> unat u - unat l \<in> {unat sc div unat tc, unat sc div unat tc + 1}
        else init_thread_ipc sc tc (of_nat i) = Some Not_Needed)"
proof -
  have tc: "0 < unat tc" using assms by (simp add: unat_gt_0)
  have one: "\<exists>!i. i < unat tc \<and> (\<exists>l u. init_thread_ipc sc tc (of_nat i) = Some (Segments l u)
      \<and> unat l \<le> seg \<and> seg < unat u)" if sg: "seg < unat sc" for seg
  proof -
    obtain i where i: "i < unat tc" "share_start (unat sc) (unat tc) i \<le> seg" "seg < share_start (unat sc) (unat tc) (Suc i)"
      using start_interval [of seg "unat sc" "unat tc" "unat tc"] share_start_end [OF tc] sg by auto
    show ?thesis
    proof (rule ex1I [of _ i])
      show "i < unat tc \<and> (\<exists>l u. init_thread_ipc sc tc (of_nat i) = Some (Segments l u) \<and> unat l \<le> seg \<and> seg < unat u)"
        unfolding init_thread_ipc_covers [OF i(1) sg] using i by simp
    next
      fix j assume "j < unat tc \<and> (\<exists>l u. init_thread_ipc sc tc (of_nat j) = Some (Segments l u) \<and> unat l \<le> seg \<and> seg < unat u)"
      then have "share_start (unat sc) (unat tc) j \<le> seg \<and> seg < share_start (unat sc) (unat tc) (Suc j)"
        using init_thread_ipc_covers [OF _ sg, of j tc] by blast
      then show "j = i" using start_interval_unique [OF i(2,3), of j] by blast
    qed
  qed
  show ?thesis
  proof (intro conjI allI impI)
    fix i assume i: "i < unat tc"
    show "if i < unat sc
        then \<exists>l u. init_thread_ipc sc tc (of_nat i) = Some (Segments l u)
          \<and> unat u - unat l \<in> {unat sc div unat tc, unat sc div unat tc + 1}
        else init_thread_ipc sc tc (of_nat i) = Some Not_Needed"
      using init_thread_ipc_size [OF i] init_thread_ipc_unneeded [OF i] by presburger
  qed (rule one)
qed

theorem thread_ranges_partition_witness:
  "(\<exists>!i. i < unat (3 :: u8) \<and> (\<exists>l u. init_thread_ipc 8 3 (of_nat i) = Some (Segments l u) \<and> unat l \<le> 5 \<and> 5 < unat u))
    \<and> init_thread_ipc 8 3 1 = Some (Segments 3 6)"
proof
  show "\<exists>!i. i < unat (3 :: u8) \<and> (\<exists>l u. init_thread_ipc 8 3 (of_nat i) = Some (Segments l u) \<and> unat l \<le> 5 \<and> 5 < unat u)"
    by (rule conjunct1 [OF thread_ranges_partition [of 3 8], THEN spec, of 5, THEN mp]) simp_all
  show "init_thread_ipc 8 3 1 = Some (Segments 3 6)"
    using init_thread_ipc_result [of 1 3 8] by (simp add: share_start_def)
qed

end
