(* ===== verification/Sf2b_Source.thy ===== *)
theory Sf2b_Source
  imports Sf2b_Ipc Shm_Setup Fips_Init Fips_Assign
begin

text \<open>
  Opening and closing the line sources of the ban program, \<open>src/programs/sf2b/shmrbuf.c\<close>, \<open>disk.c\<close>, \<open>fips_buf.c\<close> and
  \<open>posix_io.c\<close>: \<open>init_ipc\<close>, \<open>cleanup_ipc\<close>, and \<open>init_thread_ipc\<close>, \<open>get_lines_ipc\<close> and \<open>deinit_thread_ipc\<close> where
  \<open>Sf2b_Ipc\<close> does not have them. The results of the system calls are arguments. The shared memory variant gives all threads
  the same handle, so the model has one.
\<close>

section \<open>Shared memory\<close>

definition init_ipc_shm :: "bool \<Rightarrow> shm_env \<Rightarrow> config_t \<Rightarrow> shm_os \<Rightarrow> (int \<times> shmrbuf_reader_arg_t option \<times> shm_os) option" where
  "init_ipc_shm calloc_ok env cfg os =
     (if \<not> calloc_ok then Some (-1, None, os)
      else do {
        (retval, rbuf_arg, os') \<leftarrow> shmrbuf_init_reader env (reader_zero\<lparr>r_shm_key := Some (shm_key cfg)\<rparr>) os;
        Some (if retval \<noteq> IO_IPC_SUCCESS then (-1, None, os') else (0, Some rbuf_arg, os'))
      })"

definition cleanup_ipc_shm :: "shm_env \<Rightarrow> shmrbuf_reader_arg_t option \<Rightarrow> shm_os \<Rightarrow> (bool \<times> shm_os) option" where
  "cleanup_ipc_shm env ipc_args os =
     map_option (\<lambda>(retval, _, os'). (retval \<noteq> IO_IPC_SUCCESS, os')) (shmrbuf_finalize_reader env ipc_args os)"

text \<open>A start that finds a free reader slot and the clean-up leave the object as it was.\<close>

lemma ipc_shm_start_stop:
  assumes "e_ftok env (shm_key cfg) \<noteq> -1" and "shm_env_ok env" and "os_region os = Some shm" and "0 < os_nattch os"
    and "hdr_valid (global_hdr shm) (e_ftok env (shm_key cfg))" and "\<exists>b\<in>set (g_reader_att (global_hdr shm)). \<not> b"
  shows "\<exists>a os'. init_ipc_shm True env cfg os = Some (0, Some a, os') \<and> cleanup_ipc_shm env (Some a) os' = Some (False, os)"
proof -
  let ?a = "reader_zero\<lparr>r_shm_key := Some (shm_key cfg)\<rparr>"
  have "r_shm_key ?a = Some (shm_key cfg)" "\<not> flag (r_flags ?a) SHMRBUF_NOREG" "\<not> flag (r_flags ?a) SHMRBUF_RESET"
    by (simp_all add: flag_def reader_zero_def)
  from reader_attach_detach [OF this(1) assms(1-5) this(2,3)] assms(6) obtain a os'
    where "shmrbuf_init_reader env ?a os = Some (IO_IPC_SUCCESS, a, os')"
      "shmrbuf_finalize_reader env (Some a) os' = Some (IO_IPC_SUCCESS, Some reader_zero, os)"
    by (auto split: if_splits)
  then show ?thesis by (auto simp: init_ipc_shm_def cleanup_ipc_shm_def)
qed

section \<open>Files with io_uring\<close>

definition zero_file_io :: "bytes \<Rightarrow> file_io_t" where
  "zero_file_io zeros = \<lparr>fio_offset = 0, scnd_buf = False, fio_sqe = None,
     fio_buf1 = \<lparr>lb_data = zeros, lb_offset = 0, lb_rsize = 0\<rparr>, fio_buf2 = \<lparr>lb_data = zeros, lb_offset = 0, lb_rsize = 0\<rparr>\<rparr>"

definition init_ipc_disk :: "bool \<Rightarrow> int \<Rightarrow> int \<Rightarrow> int \<times> file_io_t option" where
  "init_ipc_disk calloc_ok fd queue =
     (if \<not> calloc_ok then (-1, None)
      else if fd = -1 then (-1, None)
      else if queue = -1 then (-1, None)
      else (0, Some (zero_file_io (replicate BUFSIZE 0))))"

definition cleanup_ipc_disk :: "int \<Rightarrow> bool" where
  "cleanup_ipc_disk closed = (closed < 0)"

section \<open>The zero-copy buffer\<close>

text \<open>The results of \<open>fips_buf_init\<close>, \<open>fips_buf_attach\<close> and \<open>fips_buf_detach\<close> are printed and ignored; a failed \<open>exit\<close> path of
  the initialisation ends the program. The argument was zeroed by \<open>calloc\<close>.\<close>

definition zero_fips_arg :: fips_buf_arg_t where
  "zero_fips_arg = \<lparr>a_role = FIPS_READER, a_shm_name = [], a_arg_flags = 0, a_line_count_exp = 0, a_max_reader_count = 0,
     a_max_reader_thread_count = 0, a_max_segment_count = 0, a_line_size = 0, a_max_sqe_count = 0, a_shm_id = 0, a_reader_index = 0\<rparr>"

definition init_ipc_fips :: "fips_env \<Rightarrow> config \<Rightarrow> fips_sys \<Rightarrow> ((int \<times> fips_buf_arg_t) option \<times> fips_sys) option" where
  "init_ipc_fips env config_file sys =
     do {
       (r, sys') \<leftarrow> fips_buf_init env (Some config_file) zero_fips_arg sys;
       Some (case r of Exited \<Rightarrow> None | Returned _ a \<Rightarrow> Some (0, a), sys')
     }"

definition init_thread_ipc_fips :: "fips_buf_arg_t \<Rightarrow> fips_shm \<Rightarrow> (int \<times> fips_buf_thread_arg_t option \<times> fips_shm) option" where
  "init_thread_ipc_fips arg shm =
     map_option (\<lambda>(_, t, shm'). (0, t, shm'))
       (fips_buf_attach (Some \<lparr>t_arg = arg, t_generation = 0, t_thread_index = 0, t_segment_offset = 0, t_cached = [],
          t_assignment = None, t_assigned_reader_count = 0, t_trailing_buffers_count = 0\<rparr>) shm)"

definition deinit_thread_ipc_fips :: "fips_buf_thread_arg_t option \<Rightarrow> fips_shm \<Rightarrow> (int \<times> fips_shm) option" where
  "deinit_thread_ipc_fips t shm = map_option (\<lambda>(_, _, shm'). (0, shm')) (fips_buf_detach t shm)"

section \<open>Files with the C library\<close>

text \<open>The stream of the thread: whether it is open, and its position in the file.\<close>

record posix_stream =
  ps_open :: bool
  ps_offset :: nat

definition init_ipc_posix :: "int \<Rightarrow> int \<times> int option" where
  "init_ipc_posix fd = (if fd = -1 then (-1, None) else (0, Some fd))"

definition init_thread_ipc_posix :: "bool \<Rightarrow> int \<times> posix_stream option" where
  "init_thread_ipc_posix fdopen_ok = (if \<not> fdopen_ok then (-1, None) else (0, Some \<lparr>ps_open = True, ps_offset = 0\<rparr>))"

text \<open>\<open>getline\<close>: the bytes up to and including the next newline, or to the end of the file; \<open>None\<close> at the end.\<close>

definition getline_at :: "bytes \<Rightarrow> nat \<Rightarrow> bytes option" where
  "getline_at file off =
     (let rest = drop off file in
      if rest = [] then None
      else Some (takeWhile (\<lambda>b. b \<noteq> 10) rest @ (if 10 \<in> set rest then [10] else [])))"

text \<open>At the end of the file the stream is closed and the file is opened again, but the new stream is stored in the parameter
  of the function, so the caller keeps the closed one. \<open>fseek\<close> needs the new stream to be there.\<close>

definition get_lines_posix :: "bool \<Rightarrow> bytes \<Rightarrow> posix_stream \<Rightarrow> (int \<times> bytes list \<times> posix_stream) option" where
  "get_lines_posix fopen_ok file s =
     (if \<not> ps_open s then None
      else case getline_at file (ps_offset s) of
          Some l \<Rightarrow> Some (1, [l], s\<lparr>ps_offset := ps_offset s + length l\<rparr>)
        | None \<Rightarrow> if fopen_ok then Some (0, [], s\<lparr>ps_open := False\<rparr>) else None)"

definition cleanup_ipc_posix :: "int \<Rightarrow> bool" where
  "cleanup_ipc_posix closed = False"

fun posix_calls :: "nat \<Rightarrow> bytes \<Rightarrow> posix_stream \<Rightarrow> ((int \<times> bytes list) list \<times> posix_stream) option" where
  "posix_calls 0 file s = Some ([], s)"
| "posix_calls (Suc n) file s =
     do {
       (r, ls, s') \<leftarrow> get_lines_posix True file s;
       (rs, s'') \<leftarrow> posix_calls n file s';
       Some ((r, ls) # rs, s'')
     }"

definition text_line :: "bytes \<Rightarrow> bool" where
  "text_line l \<longleftrightarrow> l \<noteq> [] \<and> last l = 10 \<and> 10 \<notin> set (butlast l)"

lemma getline_line:
  assumes "text_line l"
  shows "getline_at (pre @ l @ post) (length pre) = Some l"
proof -
  obtain t where l: "l = t @ [10]" "10 \<notin> set t" using assms by (metis append_butlast_last_id text_line_def)
  have "takeWhile (\<lambda>b. b \<noteq> 10) (t @ 10 # post) = t" using l(2) by (induction t) auto
  then show ?thesis using l by (simp add: getline_at_def Let_def)
qed

lemma posix_calls_lines:
  "\<forall>l\<in>set ls. text_line l \<Longrightarrow> posix_calls (length ls) (pre @ concat ls) \<lparr>ps_open = True, ps_offset = length pre\<rparr>
     = Some (map (\<lambda>l. (1, [l])) ls, \<lparr>ps_open = True, ps_offset = length (pre @ concat ls)\<rparr>)"
proof (induction ls arbitrary: pre)
  case Nil
  then show ?case by simp
next
  case (Cons l ls)
  have "get_lines_posix True (pre @ concat (l # ls)) \<lparr>ps_open = True, ps_offset = length pre\<rparr>
      = Some (1, [l], \<lparr>ps_open = True, ps_offset = length (pre @ l)\<rparr>)"
    using getline_line [of l pre "concat ls"] Cons.prems by (simp add: get_lines_posix_def)
  then show ?case using Cons.IH [of "pre @ l"] Cons.prems by simp
qed

lemma posix_calls_add:
  "posix_calls (n + m) file s = do { (rs, s') \<leftarrow> posix_calls n file s; (rs', s'') \<leftarrow> posix_calls m file s'; Some (rs @ rs', s'') }"
  by (induction n arbitrary: s) (auto simp: bind_eq_Some_conv split: prod.splits bind_splits)

text \<open>C39. The source with the C library reads a file once: it delivers the lines one by one and in order and reports the end of
  the file once; the next call uses the closed stream, so lines that are logged later are never read.\<close>

theorem posix_source_ends:
  assumes "\<forall>l\<in>set ls. text_line l" and "init_thread_ipc_posix True = (0, Some s)"
  shows "\<exists>s'. posix_calls (length ls + 1) (concat ls) s = Some (map (\<lambda>l. (1, [l])) ls @ [(0, [])], s')
    \<and> (\<forall>fopen_ok file. get_lines_posix fopen_ok file s' = None)"
proof -
  have s: "s = \<lparr>ps_open = True, ps_offset = 0\<rparr>" using assms(2) by (simp add: init_thread_ipc_posix_def)
  let ?e = "\<lparr>ps_open = True, ps_offset = length (concat ls)\<rparr>"
  have "posix_calls (length ls) (concat ls) s = Some (map (\<lambda>l. (1, [l])) ls, ?e)"
    using posix_calls_lines [OF assms(1), of "[]"] by (simp add: s)
  moreover have "posix_calls 1 (concat ls) ?e = Some ([(0, [])], ?e\<lparr>ps_open := False\<rparr>)"
    by (simp add: get_lines_posix_def getline_at_def Let_def)
  ultimately have "posix_calls (length ls + 1) (concat ls) s = Some (map (\<lambda>l. (1, [l])) ls @ [(0, [])], ?e\<lparr>ps_open := False\<rparr>)"
    by (simp add: posix_calls_add del: posix_calls.simps One_nat_def Nat.add_0_right add_Suc_right)
  moreover have "get_lines_posix ok fl (?e\<lparr>ps_open := False\<rparr>) = None" for ok fl by (simp add: get_lines_posix_def)
  ultimately show ?thesis by blast
qed

theorem posix_source_ends_witness:
  "\<exists>s'. posix_calls 3 [97, 10, 98, 10] \<lparr>ps_open = True, ps_offset = 0\<rparr> = Some ([(1, [[97, 10]]), (1, [[98, 10]]), (0, [])], s')
    \<and> get_lines_posix True [97, 10, 98, 10, 99, 10] s' = None"
proof -
  have l: "\<forall>l\<in>set [[97, 10], [98, 10]]. text_line l" by (simp add: text_line_def)
  have i: "init_thread_ipc_posix True = (0, Some \<lparr>ps_open = True, ps_offset = 0\<rparr>)" by (simp add: init_thread_ipc_posix_def)
  from posix_source_ends [OF l i] show ?thesis by (auto simp del: posix_calls.simps simp: numeral_3_eq_3)
qed

end
