(* ===== verification/Sf2b_Main.thy ===== *)
theory Sf2b_Main
  imports Sf2b_System Sf2b_Parse
begin

text \<open>
  Start and end of the ban program: \<open>ebpf_setup\<close> and \<open>ebpf_cleanup\<close> of \<open>src/lib/ebpf_utils.c\<close>, and the part of
  \<open>main\<close> of \<open>src/programs/sf2b/main.c\<close> up to the creation of the threads, with \<open>main_cleanup\<close>.

  The results of the system and library calls are environment records. Of the network device the model has whether
  a program is attached, and the maps that are pinned in the file system: the maps of the packet filter are declared
  with \<open>LIBBPF_PIN_BY_NAME\<close>, so loading it uses pinned maps when there are some and pins new, empty ones otherwise.
\<close>

section \<open>Loading the packet filter\<close>

record xdp_device =
  dev_attached :: bool
  dev_pinned :: "xdp_maps option"

record bpf_sys =
  sy_rlimit :: int
  sy_if_index :: int
  sy_query :: int
  sy_detach_drv :: int
  sy_detach_skb :: int
  sy_open :: bool
  sy_unpin :: int
  sy_load :: int
  sy_attach_drv :: int
  sy_attach_skb :: int

definition ebpf_cleanup :: "bpf_sys \<Rightarrow> bool \<Rightarrow> xdp_device \<Rightarrow> int \<times> xdp_device" where
  "ebpf_cleanup sys unpin dev =
     (if sy_if_index sys = 0 then (EXIT_FAIL, dev)
      else if sy_detach_drv sys \<noteq> 0 \<and> sy_detach_skb sys \<noteq> 0 then (EXIT_FAIL, dev)
      else let dev1 = dev\<lparr>dev_attached := False\<rparr> in
        if unpin
        then if \<not> sy_open sys then (EXIT_FAIL, dev1)
             else if sy_unpin sys \<noteq> 0 then (EXIT_FAIL, dev1)
             else (EXIT_OK, dev1\<lparr>dev_pinned := None\<rparr>)
        else (EXIT_OK, dev1))"

text \<open>\<open>EXIT_FAILURE\<close> of the C library and \<open>EXIT_FAIL\<close> are both 1.\<close>

definition ebpf_setup :: "bpf_sys \<Rightarrow> xdp_device \<Rightarrow> int \<times> xdp_device" where
  "ebpf_setup sys dev =
     (if sy_rlimit sys \<noteq> 0 then (EXIT_FAIL, dev)
      else if sy_if_index sys = 0 then (EXIT_FAIL, dev)
      else let dev1 = (if sy_query sys \<noteq> -1 then snd (ebpf_cleanup sys False dev) else dev) in
        if \<not> sy_open sys then (EXIT_FAIL, dev1)
        else if sy_load sys \<noteq> 0 then (EXIT_FAIL, dev1)
        else let dev2 = dev1\<lparr>dev_pinned := Some (case dev_pinned dev1 of None \<Rightarrow> no_maps | Some m \<Rightarrow> m)\<rparr> in
          if sy_attach_drv sys = 0 then (EXIT_OK, dev2\<lparr>dev_attached := True\<rparr>)
          else if sy_attach_skb sys = 0 then (EXIT_OK, dev2\<lparr>dev_attached := True\<rparr>)
          else (EXIT_FAIL, dev2))"

section \<open>Clean-up\<close>

record cleanup_env =
  ce_sys :: bpf_sys
  ce_ipc_args :: bool
  ce_cleanup_ipc :: bool
  ce_database :: bool
  ce_hs_free :: int

definition main_cleanup :: "cleanup_env \<Rightarrow> server_t \<Rightarrow> xdp_device \<Rightarrow> (bool \<times> xdp_device) option" where
  "main_cleanup env s dev =
     (let error0 = (ce_ipc_args env \<and> ce_cleanup_ipc env);
          (retval, dev1) = ebpf_cleanup (ce_sys env) True dev;
          error1 = (error0 \<or> retval < 0)
      in do {
        error2 \<leftarrow> (case banned_list s of
            None \<Rightarrow> Some error1
          | Some l \<Rightarrow> map_option (\<lambda>(r, _). error1 \<or> r \<noteq> IP_LLIST_SUCCESS) (ip_llist_destroy (Some l)));
        error3 \<leftarrow> (case htable s of
            None \<Rightarrow> Some error2
          | Some t \<Rightarrow> map_option (\<lambda>(r, _). error2 \<or> r < 0) (ip_hashtable_destroy (Some (Some t))));
        Some (if ce_database env then error3 \<or> ce_hs_free env \<noteq> HS_SUCCESS else error3, dev1)
      })"

section \<open>Start\<close>

record start_env =
  st_sys :: bpf_sys
  st_cleanup :: cleanup_env
  st_map4 :: int
  st_map6 :: int
  st_nr_cpus :: int
  st_calloc :: bool
  st_htable :: ht_init_env
  st_llist :: bool
  st_init_ipc :: int
  st_unban_thread :: int

datatype start_result = Start_Failed "bool \<times> xdp_device" | Started server_t xdp_device

text \<open>Before \<open>main\<close> has set them, the pointers of the server are null.\<close>

definition fresh_server :: "config_t \<Rightarrow> server_t" where
  "fresh_server cfg = \<lparr>config = cfg, server_running = True, htable = None, banned_list = None, bpf_maps = no_maps\<rparr>"

text \<open>The thread arguments have no transport handle before \<open>init_ipc\<close>, so an earlier failure skips \<open>cleanup_ipc\<close>.\<close>

definition fail_start :: "start_env \<Rightarrow> bool \<Rightarrow> server_t \<Rightarrow> xdp_device \<Rightarrow> start_result option" where
  "fail_start env ipc s dev =
     map_option Start_Failed (main_cleanup ((st_cleanup env)\<lparr>ce_ipc_args := ipc \<and> ce_ipc_args (st_cleanup env)\<rparr>) s dev)"

definition main_start :: "start_env \<Rightarrow> config_t \<Rightarrow> node_heap \<Rightarrow> xdp_device \<Rightarrow> start_result option" where
  "main_start env cfg heap dev =
     (let s0 = fresh_server cfg; (r, dev1) = ebpf_setup (st_sys env) dev in
      if r \<noteq> 0 then fail_start env False s0 dev1
      else if st_map4 env = -1 \<or> st_map6 env = -1 then fail_start env False s0 dev1
      else let s1 = s0\<lparr>config := cfg\<lparr>bpf_nr_cpus := st_nr_cpus env\<rparr>, bpf_maps := (case dev_pinned dev1 of None \<Rightarrow> no_maps | Some m \<Rightarrow> m)\<rparr> in
        if \<not> st_calloc env then fail_start env False s1 dev1
        else let (r2, t) = ip_hashtable_init True (st_htable env) (uint (findtime cfg)); s2 = s1\<lparr>htable := t\<rparr> in
          if r2 < 0 then fail_start env False s2 dev1
          else let (r3, l) = ip_llist_init True (st_llist env) heap; s3 = s2\<lparr>banned_list := l\<rparr> in
            if r3 < 0 then fail_start env False s3 dev1
            else if st_init_ipc env < 0 then fail_start env True s3 dev1
            else if st_unban_thread env \<noteq> 0 then fail_start env True s3 dev1
            else Some (Started s3 dev1))"

section \<open>Properties\<close>

lemma exit_codes: "EXIT_FAIL = 1" "EXIT_OK = 0"
  by (simp_all add: EXIT_FAIL_def EXIT_OK_def)

lemma ebpf_setup_ok:
  assumes "ebpf_setup sys dev = (0, dev')"
  shows "dev_attached dev'" and "dev_pinned dev' = Some (case dev_pinned dev of None \<Rightarrow> no_maps | Some m \<Rightarrow> m)"
proof -
  have pin: "dev_pinned (snd (ebpf_cleanup sys False dev)) = dev_pinned dev"
    by (simp add: ebpf_cleanup_def Let_def)
  show "dev_attached dev'" "dev_pinned dev' = Some (case dev_pinned dev of None \<Rightarrow> no_maps | Some m \<Rightarrow> m)"
    using assms pin by (auto simp: ebpf_setup_def Let_def exit_codes split: if_splits)
qed

lemma main_start_started:
  assumes "main_start env cfg heap dev = Some (Started s dev')"
  shows "ebpf_setup (st_sys env) dev = (0, dev')"
    and "\<exists>r t. ip_hashtable_init True (st_htable env) (uint (findtime cfg)) = (r, t) \<and> \<not> r < 0 \<and> htable s = t"
    and "banned_list s = Some \<lparr>ll_head = None, ll_heap = heap\<rparr>" and "config s = cfg\<lparr>bpf_nr_cpus := st_nr_cpus env\<rparr>"
    and "bpf_maps s = (case dev_pinned dev' of None \<Rightarrow> no_maps | Some m \<Rightarrow> m)"
proof -
  obtain r dev1 where r: "ebpf_setup (st_sys env) dev = (r, dev1)" by (cases "ebpf_setup (st_sys env) dev")
  obtain r2 t where t: "ip_hashtable_init True (st_htable env) (uint (findtime cfg)) = (r2, t)"
    by (cases "ip_hashtable_init True (st_htable env) (uint (findtime cfg))")
  have ll: "st_llist env"
    using assms r t by (cases "st_llist env") (auto simp: main_start_def fail_start_def ip_llist_init_def IP_LLIST_MEM_ERR_def Let_def split: if_splits)
  have "r = 0 \<and> \<not> r2 < 0 \<and> dev' = dev1 \<and> s = (fresh_server (cfg\<lparr>bpf_nr_cpus := st_nr_cpus env\<rparr>))\<lparr>bpf_maps := (case dev_pinned dev1 of None \<Rightarrow> no_maps | Some m \<Rightarrow> m),
      htable := t, banned_list := Some \<lparr>ll_head = None, ll_heap = heap\<rparr>\<rparr>"
    using assms r t ll by (auto simp: main_start_def fail_start_def fresh_server_def ip_llist_init_def Let_def split: if_splits)
  then show "ebpf_setup (st_sys env) dev = (0, dev')"
    and "\<exists>r t. ip_hashtable_init True (st_htable env) (uint (findtime cfg)) = (r, t) \<and> \<not> r < 0 \<and> htable s = t"
    and "banned_list s = Some \<lparr>ll_head = None, ll_heap = heap\<rparr>" and "config s = cfg\<lparr>bpf_nr_cpus := st_nr_cpus env\<rparr>"
    and "bpf_maps s = (case dev_pinned dev' of None \<Rightarrow> no_maps | Some m \<Rightarrow> m)"
    using r t by (simp_all add: fresh_server_def)
qed

text \<open>The failure of the eBPF clean-up has a positive code and is never reported.\<close>

lemma main_cleanup_ignores_ebpf:
  "map_option fst (main_cleanup env s dev) = map_option fst (main_cleanup (env\<lparr>ce_sys := sys\<rparr>) s dev')"
proof -
  have nn: "\<not> fst (ebpf_cleanup x True d) < 0" for x d by (simp add: ebpf_cleanup_def exit_codes Let_def)
  obtain r1 d1 where r1: "ebpf_cleanup (ce_sys env) True dev = (r1, d1)" "\<not> r1 < 0" using nn [of "ce_sys env" dev] by (metis prod.collapse)
  obtain r2 d2 where r2: "ebpf_cleanup sys True dev' = (r2, d2)" "\<not> r2 < 0" using nn [of sys dev'] by (metis prod.collapse)
  show ?thesis
    by (cases "banned_list s"; cases "htable s"; cases "ip_llist_destroy (banned_list s)"; cases "ip_hashtable_destroy (Some (htable s))")
      (simp_all add: main_cleanup_def r1 r2 split_beta Let_def)
qed

text \<open>C28. A start that succeeds on a device without pinned maps: the packet filter is attached, nobody is banned, and the
  hash table is well-formed, empty, and counts within the find time.\<close>

theorem main_start_fresh:
  assumes "main_start env cfg heap dev = Some (Started s dev')" and "dev_pinned dev = None"
    and "\<forall>i e. entry_malloc (st_htable env) i = Some e \<longrightarrow> length (e_key e) = 16"
  shows "dev_attached dev' \<and> nobody_banned s \<and> config s = cfg\<lparr>bpf_nr_cpus := st_nr_cpus env\<rparr>
    \<and> (\<exists>t. htable s = Some t \<and> ht_wf t \<and> (\<forall>b. hbins t b = []) \<and> search_time t = uint (findtime cfg))"
proof -
  note m = main_start_started [OF assms(1)]
  note e = ebpf_setup_ok [OF m(1)]
  have "nobody_banned s" using m(3,5) e(2) assms(2) by (simp add: nobody_banned_def no_maps_def)
  moreover have "\<exists>t. htable s = Some t \<and> ht_wf t \<and> (\<forall>b. hbins t b = []) \<and> search_time t = uint (findtime cfg)"
    using m(2) ip_hashtable_init_correct [of "st_htable env" "uint (findtime cfg)"] assms(3) by (auto split: if_splits)
  ultimately show ?thesis using e(1) m(4) by blast
qed


definition good_sys :: bpf_sys where
  "good_sys = \<lparr>sy_rlimit = 0, sy_if_index = 3, sy_query = -2, sy_detach_drv = 0, sy_detach_skb = 0, sy_open = True, sy_unpin = 0,
     sy_load = 0, sy_attach_drv = -22, sy_attach_skb = 0\<rparr>"

definition good_start :: start_env where
  "good_start = \<lparr>st_sys = good_sys, st_cleanup = \<lparr>ce_sys = good_sys, ce_ipc_args = False, ce_cleanup_ipc = False,
       ce_database = True, ce_hs_free = 0\<rparr>,
     st_map4 = 5, st_map6 = 6, st_nr_cpus = 4, st_calloc = True, st_htable = example_init_env, st_llist = True, st_init_ipc = 0, st_unban_thread = 0\<rparr>"

lemma good_start_started: "\<exists>s dev'. main_start good_start default_config (\<lambda>_. None) dev = Some (Started s dev')"
proof -
  obtain dev1 where d: "ebpf_setup good_sys dev = (0, dev1)"
    by (simp add: ebpf_setup_def good_sys_def Let_def exit_codes)
  obtain t where "ip_hashtable_init True example_init_env (uint (findtime default_config)) = (IP_HTABLE_SUCCESS, Some t)"
    using ip_hashtable_init_correct [of example_init_env "uint (findtime default_config)"]
    by (auto simp: example_init_env_def init_ok_def)
  then show ?thesis using d by (simp add: main_start_def good_start_def ip_llist_init_def IP_LLIST_SUCCESS_def IP_HTABLE_SUCCESS_def)
qed

theorem main_start_fresh_witness:
  "\<exists>s dev'. main_start good_start default_config (\<lambda>_. None) \<lparr>dev_attached = False, dev_pinned = None\<rparr> = Some (Started s dev')
    \<and> nobody_banned s \<and> dev_attached dev'"
proof -
  let ?dev = "\<lparr>dev_attached = False, dev_pinned = None\<rparr>"
  obtain s dev' where s: "main_start good_start default_config (\<lambda>_. None) ?dev = Some (Started s dev')"
    using good_start_started by blast
  have keys: "\<forall>i e. entry_malloc (st_htable good_start) i = Some e \<longrightarrow> length (e_key e) = 16"
    by (simp add: good_start_def example_init_env_def)
  have "dev_pinned ?dev = None" by simp
  from main_start_fresh [OF s this keys] s show ?thesis by blast
qed


end
