(* ===== verification/Blacklist_Tool.thy ===== *)
theory Blacklist_Tool
  imports Sf2b_Ban
begin

text \<open>
  The command line tool for the maps of the packet filter, \<open>src/cmdline_prog/xdp_ddos01_blacklist_cmdline.c\<close> with
  \<open>xdp_ddos01_blacklist_common.h\<close>: the options, \<open>blacklist_modify\<close>, \<open>blacklist_port_modify\<close> and \<open>main\<close> as far as it changes
  a map, and \<open>blacklist_subnet_modify\<close> with the \<open>main\<close> of \<open>xdp_ddos01_blacklist_subnet_cmdline.c\<close>. Listings and statistics are
  only printed and leave the maps alone.

  As in the model of the filter, the maps are seen on one CPU: the tool stores the same value for every CPU. The hash
  maps are changed through \<open>bpf_ops\<close>, the array maps and the plain maps of the subnets through \<open>array_ops\<close> and
  \<open>subnet_ops\<close>, with what the kernel documents as predicates. \<open>inet_pton\<close> gives its result and the bytes it stores.
\<close>

unbundle bit_operations_syntax

section \<open>Exit codes and actions\<close>

definition EXIT_FAIL_OPTION :: int where "EXIT_FAIL_OPTION = 2"
definition EXIT_FAIL_MAP_KEY :: int where "EXIT_FAIL_MAP_KEY = 21"
definition EXIT_FAIL_MAP_FILE :: int where "EXIT_FAIL_MAP_FILE = 22"
definition EXIT_FAIL_IP :: int where "EXIT_FAIL_IP = 30"
definition EXIT_FAIL_PORT :: int where "EXIT_FAIL_PORT = 31"
definition ACTION_ADD :: nat where "ACTION_ADD = 1"
definition ACTION_DEL :: nat where "ACTION_DEL = 2"
definition SUBNET_THRESHOLD :: u64 where "SUBNET_THRESHOLD = 3"

lemmas tool_codes = EXIT_FAIL_OPTION_def EXIT_FAIL_MAP_KEY_def EXIT_FAIL_MAP_FILE_def EXIT_FAIL_IP_def EXIT_FAIL_PORT_def
  EXIT_OK_def

lemmas tool_actions = ACTION_ADD_def ACTION_DEL_def

type_synonym pton = "int \<Rightarrow> string \<Rightarrow> int \<times> bytes"

section \<open>Addresses\<close>

text \<open>The end of \<open>blacklist_modify\<close>: a failure with \<open>errno\<close> 17 says that the key is there already.\<close>

definition modify_result :: "int \<Rightarrow> int \<times> bpf_map \<Rightarrow> int \<times> bpf_map" where
  "modify_result errno r =
     (case r of (res, m) \<Rightarrow>
        (if res = 0 then EXIT_OK else if errno = 17 then EXIT_OK else EXIT_FAIL_MAP_KEY, m))"

text \<open>For another \<open>iptype\<close> than 4 and 6 the result variable is read before it is set.\<close>

definition blacklist_modify :: "bpf_ops \<Rightarrow> int \<Rightarrow> pton \<Rightarrow> bpf_map \<Rightarrow> string \<Rightarrow> nat \<Rightarrow> nat \<Rightarrow> (int \<times> bpf_map) option" where
  "blacklist_modify ops errno pton m ip_string action iptype =
     (let (res, key) = pton (if iptype = 4 then AF_INET else AF_INET6) ip_string in
      if (iptype = 4 \<or> iptype = 6) \<and> res \<le> 0 then Some (EXIT_FAIL_IP, m)
      else if action = ACTION_ADD
      then if iptype = 4 \<or> iptype = 6 then Some (modify_result errno (bpf_update ops m key 0)) else None
      else if action = ACTION_DEL
      then if iptype = 4 \<or> iptype = 6 then Some (modify_result errno (bpf_delete ops m key)) else None
      else Some (EXIT_FAIL_OPTION, m))"

section \<open>Ports\<close>

record array_ops =
  arr_lookup :: "(nat \<Rightarrow> u64) \<Rightarrow> nat \<Rightarrow> u64 option"
  arr_update :: "(nat \<Rightarrow> u64) \<Rightarrow> nat \<Rightarrow> u64 \<Rightarrow> int \<times> (nat \<Rightarrow> u64)"

text \<open>The bit of a protocol in the value of a port.\<close>

definition filter_value :: "nat \<Rightarrow> u64" where
  "filter_value proto = (if proto = IPPROTO_TCP then drop_bit DDOS_FILTER_TCP 1 else drop_bit DDOS_FILTER_UDP 1)"

definition blacklist_port_modify ::
  "array_ops \<Rightarrow> int \<Rightarrow> int \<Rightarrow> nat \<Rightarrow> nat \<Rightarrow> (nat \<Rightarrow> u64) \<times> (nat \<Rightarrow> u64) \<Rightarrow> int \<times> (nat \<Rightarrow> u64) \<times> (nat \<Rightarrow> u64)" where
  "blacklist_port_modify aops errno dport action proto fds =
     (case fds of (fd, countfd) \<Rightarrow>
        if action \<noteq> ACTION_ADD \<and> action \<noteq> ACTION_DEL then (EXIT_FAIL_OPTION, fd, countfd)
        else if proto \<noteq> IPPROTO_TCP \<and> proto \<noteq> IPPROTO_UDP then (EXIT_FAIL_OPTION, fd, countfd)
        else if 65535 < dport then (EXIT_FAIL_PORT, fd, countfd)
        else let key = unat (word_of_int dport :: u32);
                 curr_value = (case arr_lookup aops fd key of None \<Rightarrow> 0 | Some v \<Rightarrow> v);
                 new_value = (if action = ACTION_ADD then curr_value OR filter_value proto
                              else curr_value AND NOT (filter_value proto));
                 (res, fd') = arr_update aops fd key new_value
             in if res \<noteq> 0 then (if errno = 17 then EXIT_OK else EXIT_FAIL_MAP_KEY, fd', countfd)
                else if action = ACTION_DEL
                then let (res2, countfd') = arr_update aops countfd key 0 in
                  (if res2 \<noteq> 0 then EXIT_FAIL_MAP_KEY else EXIT_OK, fd', countfd')
                else (EXIT_OK, fd', countfd))"

section \<open>The program\<close>

datatype tool_key =
    Tool_add | Tool_del | Tool_ip string | Tool_udp string | Tool_tcp string | Tool_stats "string option" | Tool_list | Tool_bad

record tool_opts =
  to_ip_string :: "string option"
  to_action :: nat
  to_stats :: bool
  to_interval :: int
  to_do_list :: bool
  to_dport :: int
  to_proto :: nat
  to_filter :: nat

definition tool_defaults :: tool_opts where
  "tool_defaults = \<lparr>to_ip_string = None, to_action = 0, to_stats = False, to_interval = 1, to_do_list = False, to_dport = 0,
     to_proto = IPPROTO_TCP, to_filter = DDOS_FILTER_TCP\<rparr>"

definition STR_MAX :: nat where "STR_MAX = 40"

definition tool_option :: "tool_key \<Rightarrow> tool_opts \<Rightarrow> tool_opts option" where
  "tool_option k a =
     (case k of
        Tool_add \<Rightarrow> Some (a\<lparr>to_action := 1\<rparr>)
      | Tool_del \<Rightarrow> Some (a\<lparr>to_action := 2\<rparr>)
      | Tool_ip s \<Rightarrow> if STR_MAX \<le> length s then None else Some (a\<lparr>to_ip_string := Some s\<rparr>)
      | Tool_udp s \<Rightarrow> Some (a\<lparr>to_proto := IPPROTO_UDP, to_filter := DDOS_FILTER_UDP, to_dport := atoi s\<rparr>)
      | Tool_tcp s \<Rightarrow> Some (a\<lparr>to_dport := atoi s\<rparr>)
      | Tool_stats arg \<Rightarrow> Some (a\<lparr>to_stats := True, to_interval := (case arg of None \<Rightarrow> to_interval a | Some s \<Rightarrow> atoi s)\<rparr>)
      | Tool_list \<Rightarrow> Some (a\<lparr>to_do_list := True\<rparr>)
      | Tool_bad \<Rightarrow> None)"

fun tool_options :: "tool_key list \<Rightarrow> tool_opts \<Rightarrow> tool_opts option" where
  "tool_options [] a = Some a"
| "tool_options (k # ks) a = do { a' \<leftarrow> tool_option k a; tool_options ks a' }"

text \<open>The environment: the map operations, \<open>errno\<close> after a failed one, \<open>inet_pton\<close>, and which pinned maps can be opened.\<close>

datatype map_file = File_verdict | File_ipv4 | File_ipv6 | File_port | File_count nat

record tool_env =
  te_ops :: bpf_ops
  te_arr :: array_ops
  te_errno :: int
  te_pton :: pton
  te_open :: "map_file \<Rightarrow> bool"

datatype tool_result = Tool_Exit int xdp_maps | Tool_Polls xdp_maps

definition count_map :: "nat \<Rightarrow> xdp_maps \<Rightarrow> nat \<Rightarrow> u64" where
  "count_map filt m = (if filt = DDOS_FILTER_TCP then port_blacklist_drop_count_tcp m else port_blacklist_drop_count_udp m)"

definition set_count_map :: "nat \<Rightarrow> (nat \<Rightarrow> u64) \<Rightarrow> xdp_maps \<Rightarrow> xdp_maps" where
  "set_count_map filt c m =
     (if filt = DDOS_FILTER_TCP then m\<lparr>port_blacklist_drop_count_tcp := c\<rparr> else m\<lparr>port_blacklist_drop_count_udp := c\<rparr>)"

text \<open>The part for an address: \<open>Inl\<close> when the program ends.\<close>

definition update_ip :: "tool_env \<Rightarrow> string \<Rightarrow> nat \<Rightarrow> xdp_maps \<Rightarrow> (int + int \<times> xdp_maps) option" where
  "update_ip env s action m =
     (if fst (te_pton env AF_INET s) = 1
      then if \<not> te_open env File_ipv4 then Some (Inl EXIT_FAIL_MAP_FILE)
           else map_option (\<lambda>(res, b). Inr (res, m\<lparr>blacklistv4 := b\<rparr>))
             (blacklist_modify (te_ops env) (te_errno env) (te_pton env) (blacklistv4 m) s action 4)
      else if fst (te_pton env AF_INET6 s) = 1
      then if \<not> te_open env File_ipv6 then Some (Inl EXIT_FAIL_MAP_FILE)
           else map_option (\<lambda>(res, b). Inr (res, m\<lparr>blacklistv6 := b\<rparr>))
             (blacklist_modify (te_ops env) (te_errno env) (te_pton env) (blacklistv6 m) s action 6)
      else Some (Inl EXIT_FAIL_IP))"

definition update_port :: "tool_env \<Rightarrow> tool_opts \<Rightarrow> xdp_maps \<Rightarrow> int + int \<times> xdp_maps" where
  "update_port env a m =
     (if \<not> te_open env File_port \<or> \<not> te_open env (File_count (to_filter a)) then Inl EXIT_FAIL_MAP_FILE
      else case blacklist_port_modify (te_arr env) (te_errno env) (to_dport a) (to_action a) (to_proto a)
             (port_blacklist m, count_map (to_filter a) m) of
        (res, fd, countfd) \<Rightarrow> Inr (res, set_count_map (to_filter a) countfd (m\<lparr>port_blacklist := fd\<rparr>)))"

definition tool_main :: "tool_env \<Rightarrow> tool_key list \<Rightarrow> bool \<Rightarrow> xdp_maps \<Rightarrow> tool_result option" where
  "tool_main env keys extra_arg m =
     (case tool_options keys tool_defaults of
        None \<Rightarrow> Some (Tool_Exit EXIT_FAIL_OPTION m)
      | Some a \<Rightarrow>
          if \<not> te_open env File_verdict then Some (Tool_Exit EXIT_FAIL_MAP_FILE m)
          else if to_action a \<noteq> 0
          then if to_ip_string a = None \<and> to_dport a = 0 then Some (Tool_Exit EXIT_FAIL_OPTION m)
               else do {
                 r \<leftarrow> (case to_ip_string a of None \<Rightarrow> Some (Inr (0, m)) | Some s \<Rightarrow> update_ip env s (to_action a) m);
                 (case r of
                    Inl code \<Rightarrow> Some (Tool_Exit code m)
                  | Inr (res, m1) \<Rightarrow>
                      if to_dport a = 0 then Some (Tool_Exit res m1)
                      else (case update_port env a m1 of
                              Inl code \<Rightarrow> Some (Tool_Exit code m1)
                            | Inr (res2, m2) \<Rightarrow> Some (Tool_Exit res2 m2)))
               }
          else if extra_arg then Some (Tool_Exit EXIT_FAIL_OPTION m)
          else if to_do_list a \<and> \<not> (\<forall>f\<in>{File_ipv4, File_ipv6, File_port, File_count 0, File_count 1}. te_open env f)
          then Some (Tool_Exit EXIT_FAIL_MAP_FILE m)
          else if to_stats a then Some (Tool_Polls m)
          else Some (Tool_Exit EXIT_OK m))"

section \<open>Subnets\<close>

text \<open>The number of CPUs is that of \<open>libbpf_num_possible_cpus\<close>: a lookup in the map of blocked subnets stores one value
  for each of them.\<close>

record subnet_ops =
  sn_nr_cpus :: nat
  sn_lookup :: "bpf_map \<Rightarrow> bytes \<Rightarrow> int \<times> u64"
  sn_insert :: "bpf_map \<Rightarrow> bytes \<Rightarrow> u64 \<Rightarrow> int \<times> bpf_map"
  sn_replace :: "bpf_map \<Rightarrow> bytes \<Rightarrow> u64 \<Rightarrow> int \<times> bpf_map"
  sn_delete :: "bpf_map \<Rightarrow> bytes \<Rightarrow> int \<times> bpf_map"

text \<open>The two actions on the cache, which counts the addresses of a subnet, and the map of blocked subnets.\<close>

definition subnet_add :: "subnet_ops \<Rightarrow> bytes \<Rightarrow> bpf_map \<times> bpf_map \<Rightarrow> int \<times> bpf_map \<times> bpf_map" where
  "subnet_add ops k ms =
     (case ms of (cache, black) \<Rightarrow>
        case sn_lookup ops cache k of (res, value_prev) \<Rightarrow>
          if res = -1
          then case sn_insert ops cache k 1 of (res1, cache') \<Rightarrow>
            (if res1 = -1 then EXIT_FAIL_MAP_KEY else EXIT_OK, cache', black)
          else case sn_replace ops cache k (value_prev + 1) of (res1, cache') \<Rightarrow>
            if res1 = -1 then (EXIT_FAIL_MAP_KEY, cache', black)
            else if value_prev + 1 = SUBNET_THRESHOLD
            then case sn_insert ops black k 0 of (res2, black') \<Rightarrow>
              (if res2 = -1 then EXIT_FAIL_MAP_KEY else EXIT_OK, cache', black')
            else (EXIT_OK, cache', black))"

text \<open>The deletion looks a blocked subnet up into a variable with room for the value of one CPU.\<close>

definition subnet_del :: "subnet_ops \<Rightarrow> bytes \<Rightarrow> bpf_map \<times> bpf_map \<Rightarrow> (int \<times> bpf_map \<times> bpf_map) option" where
  "subnet_del ops k ms =
     (case ms of (cache, black) \<Rightarrow>
        case sn_lookup ops cache k of (res, value_prev) \<Rightarrow>
          if res = -1 then Some (EXIT_FAIL_MAP_KEY, cache, black)
          else if value_prev - 1 = 0
          then case sn_delete ops cache k of (res1, cache') \<Rightarrow>
            if res1 = -1 then Some (EXIT_FAIL_MAP_KEY, cache', black)
            else case sn_lookup ops black k of (res2, _) \<Rightarrow>
              if res2 = 0
              then if sn_nr_cpus ops \<noteq> 1 then None
                   else case sn_delete ops black k of (res3, black') \<Rightarrow>
                     Some (if res3 = -1 then EXIT_FAIL_MAP_KEY else EXIT_OK, cache', black')
              else Some (EXIT_OK, cache', black)
          else case sn_replace ops cache k (value_prev - 1) of (res1, cache') \<Rightarrow>
            Some (if res1 = -1 then EXIT_FAIL_MAP_KEY else EXIT_OK, cache', black))"

text \<open>The key is the first half of the address. A text that is no address is reported, and the key is used without
  having been set.\<close>

definition blacklist_subnet_modify :: "subnet_ops \<Rightarrow> pton \<Rightarrow> string \<Rightarrow> nat \<Rightarrow> bpf_map \<times> bpf_map \<Rightarrow> (int \<times> bpf_map \<times> bpf_map) option" where
  "blacklist_subnet_modify ops pton ip_string action ms =
     (case pton AF_INET6 ip_string of (res, key6) \<Rightarrow>
        if res < 0 then Some (EXIT_FAIL_IP, ms)
        else if res = 0 \<and> (action = ACTION_ADD \<or> action = ACTION_DEL) then None
        else if action = ACTION_ADD then Some (subnet_add ops (take 8 key6) ms)
        else if action = ACTION_DEL then subnet_del ops (take 8 key6) ms
        else Some (EXIT_FAIL_OPTION, ms))"

text \<open>\<open>main\<close> of the subnet tool, after the options; an IPv4 address is accepted and ignored.\<close>

definition subnet_main :: "subnet_ops \<Rightarrow> pton \<Rightarrow> bool \<times> bool \<Rightarrow> nat \<Rightarrow> string option \<Rightarrow> bool \<Rightarrow> bpf_map \<times> bpf_map \<Rightarrow>
    (int \<times> bpf_map \<times> bpf_map) option" where
  "subnet_main ops pton opened action ip_string extra_arg ms =
     (if action \<noteq> 0
      then case ip_string of
          None \<Rightarrow> Some (EXIT_FAIL_OPTION, ms)
        | Some s \<Rightarrow>
            if fst (pton AF_INET6 s) = 1
            then if \<not> fst opened \<or> \<not> snd opened then Some (EXIT_FAIL_MAP_FILE, ms)
                 else blacklist_subnet_modify ops pton s action ms
            else if fst (pton AF_INET s) = 1 then Some (EXIT_OK, ms)
            else Some (EXIT_FAIL_IP, ms)
      else Some (if extra_arg then EXIT_FAIL_OPTION else EXIT_OK, ms))"

section \<open>Addresses: blocking and unblocking\<close>

lemma bpf_ok_update:
  assumes "bpf_ok ops" and "k \<notin> dom m" and "finite (dom m)" and "card (dom m) < max_entries"
  shows "bpf_update ops m k v = (0, m(k \<mapsto> v))"
  using assms unfolding bpf_ok_def by blast

lemma bpf_ok_delete: "bpf_ok ops \<Longrightarrow> k \<in> dom m \<Longrightarrow> bpf_delete ops m k = (0, m(k := None))"
  unfolding bpf_ok_def by blast

lemma tool_ip_add:
  assumes "bpf_ok (te_ops env)" and "te_open env File_verdict" and "te_open env File_ipv4"
    and "te_pton env AF_INET s = (1, k)" and "length s < STR_MAX"
    and "k \<notin> dom (blacklistv4 m)" and "finite (dom (blacklistv4 m))" and "card (dom (blacklistv4 m)) < max_entries"
  shows "tool_main env [Tool_add, Tool_ip s] x m = Some (Tool_Exit EXIT_OK (m\<lparr>blacklistv4 := (blacklistv4 m)(k \<mapsto> 0)\<rparr>))"
  using assms bpf_ok_update [OF assms(1,6-8), of 0]
  by (simp add: tool_main_def tool_option_def tool_defaults_def update_ip_def blacklist_modify_def modify_result_def tool_actions)

lemma tool_ip_del:
  assumes "bpf_ok (te_ops env)" and "te_open env File_verdict" and "te_open env File_ipv4"
    and "te_pton env AF_INET s = (1, k)" and "length s < STR_MAX" and "k \<in> dom (blacklistv4 m)"
  shows "tool_main env [Tool_del, Tool_ip s] x m = Some (Tool_Exit EXIT_OK (m\<lparr>blacklistv4 := (blacklistv4 m)(k := None)\<rparr>))"
  using assms bpf_ok_delete [OF assms(1,6)]
  by (simp add: tool_main_def tool_option_def tool_defaults_def update_ip_def blacklist_modify_def modify_result_def tool_actions)

text \<open>C22. Adding an IPv4 address with the tool cuts its host off and deleting it lets it in again: after \<open>--add --ip\<close> the next frame
  of the host is dropped by the packet filter, after \<open>--del --ip\<close> it passes, and the blacklist is what it was before.\<close>

theorem tool_ip_roundtrip:
  assumes "bpf_ok (te_ops env)" and "te_open env File_verdict" and "te_open env File_ipv4"
    and "te_pton env AF_INET s = (1, k)" and "length s < STR_MAX"
    and "k \<notin> dom (blacklistv4 m)" and "finite (dom (blacklistv4 m))" and "card (dom (blacklistv4 m)) < max_entries"
    and "frame_ok macs tags" and "20 \<le> length body" and "k = take 4 (drop 12 body)"
  shows "\<exists>m1 m2 m3 m4. tool_main env [Tool_add, Tool_ip s] x m = Some (Tool_Exit EXIT_OK m1)
    \<and> xdp_prog (eth_frame macs tags ETH_P_IP body) m1 = Some (XDP_DROP, m2)
    \<and> tool_main env [Tool_del, Tool_ip s] y m2 = Some (Tool_Exit EXIT_OK m3)
    \<and> xdp_prog (eth_frame macs tags ETH_P_IP body) m3 = Some (XDP_PASS, m4)
    \<and> blacklistv4 m3 = blacklistv4 m"
proof -
  let ?m1 = "m\<lparr>blacklistv4 := (blacklistv4 m)(k \<mapsto> 0)\<rparr>"
  obtain m2 where m2: "xdp_prog (eth_frame macs tags ETH_P_IP body) ?m1 = Some (XDP_DROP, m2)"
    "blacklistv4 m2 = (blacklistv4 m)(k \<mapsto> 1)"
    using xdp_ipv4_verdict [OF assms(9-11), of ?m1] by auto
  let ?m3 = "m2\<lparr>blacklistv4 := (blacklistv4 m2)(k := None)\<rparr>"
  have restored: "blacklistv4 ?m3 = blacklistv4 m" using assms(6) m2(2) by (simp add: domIff fun_upd_idem)
  have "k \<in> dom (blacklistv4 m2)" by (simp add: m2(2))
  note del = tool_ip_del [OF assms(1-5) this, of y]
  obtain m4 where "xdp_prog (eth_frame macs tags ETH_P_IP body) ?m3 = Some (XDP_PASS, m4)"
    using xdp_ipv4_verdict [OF assms(9-11), of ?m3] restored assms(6) by auto
  with tool_ip_add [OF assms(1-8), of x] m2(1) del restored show ?thesis by blast
qed

definition demo_array :: array_ops where
  "demo_array = \<lparr>arr_lookup = (\<lambda>m k. if k < 65536 then Some (m k) else None),
     arr_update = (\<lambda>m k v. if k < 65536 then (0, m(k := v)) else (-7, m))\<rparr>"

definition demo_tool :: tool_env where
  "demo_tool = \<lparr>te_ops = example_ops, te_arr = demo_array, te_errno = 17,
     te_pton = (\<lambda>d s. if d = AF_INET then (1, [192, 0, 2, 1]) else (0, [])), te_open = (\<lambda>_. True)\<rparr>"

theorem tool_ip_roundtrip_witness:
  "\<exists>m1 m2 m3. tool_main demo_tool [Tool_add, Tool_ip ''192.0.2.1''] False no_maps = Some (Tool_Exit EXIT_OK m1)
    \<and> xdp_prog (eth_frame (replicate 12 0) [] ETH_P_IP (replicate 12 0 @ [192, 0, 2, 1] @ [10, 0, 0, 1])) m1 = Some (XDP_DROP, m2)
    \<and> tool_main demo_tool [Tool_del, Tool_ip ''192.0.2.1''] False m2 = Some (Tool_Exit EXIT_OK m3)
    \<and> blacklistv4 m3 = Map.empty"
proof -
  let ?body = "replicate 12 0 @ [192, 0, 2, 1] @ [10, 0, 0, 1] :: bytes"
  have h: "bpf_ok (te_ops demo_tool)" "te_open demo_tool File_verdict" "te_open demo_tool File_ipv4"
    "te_pton demo_tool AF_INET ''192.0.2.1'' = (1, [192, 0, 2, 1])" "length ''192.0.2.1'' < STR_MAX"
    "[192, 0, 2, 1] \<notin> dom (blacklistv4 no_maps)" "finite (dom (blacklistv4 no_maps))"
    "card (dom (blacklistv4 no_maps)) < max_entries" "frame_ok (replicate 12 0) []" "20 \<le> length ?body"
    "[192, 0, 2, 1] = take 4 (drop 12 ?body)" "blacklistv4 no_maps = Map.empty"
    by (simp_all add: demo_tool_def example_ops_ok STR_MAX_def no_maps_def max_entries_def frame_ok_def)
  from tool_ip_roundtrip [OF h(1-11), of False False] h(12) show ?thesis by metis
qed

section \<open>Ports: the bit of UDP\<close>

text \<open>What the kernel documents for array maps: every index below the number of entries exists.\<close>

definition array_ok :: "array_ops \<Rightarrow> bool" where
  "array_ok ops \<longleftrightarrow>
     (\<forall>m k. k < 65536 \<longrightarrow> arr_lookup ops m k = Some (m k)) \<and> (\<forall>m k v. k < 65536 \<longrightarrow> arr_update ops m k v = (0, m(k := v)))
     \<and> (\<forall>m k. 65536 \<le> k \<longrightarrow> arr_lookup ops m k = None)
     \<and> (\<forall>m k v. 65536 \<le> k \<longrightarrow> fst (arr_update ops m k v) \<noteq> 0 \<and> snd (arr_update ops m k v) = m)"

lemma port_add_result:
  assumes "array_ok aops" and "0 < dport" and "dport \<le> 65535" and "proto = IPPROTO_TCP \<or> proto = IPPROTO_UDP"
  shows "blacklist_port_modify aops errno dport ACTION_ADD proto (fd, countfd)
    = (EXIT_OK, fd(nat dport := fd (nat dport) OR filter_value proto), countfd)"
proof -
  have key: "unat (word_of_int dport :: u32) = nat dport" "nat dport < 65536"
    using assms(2,3) by (simp_all add: unat_eq_nat_uint uint_word_of_int)
  show ?thesis using assms(1,3,4) key by (auto simp: blacklist_port_modify_def array_ok_def Let_def tool_actions)
qed

lemma tool_port_add:
  assumes "array_ok (te_arr env)" and "te_open env = (\<lambda>_. True)" and "0 < atoi s" and "atoi s \<le> 65535"
  shows "tool_main env [Tool_add, Tool_tcp s] x m = Some (Tool_Exit EXIT_OK
      (m\<lparr>port_blacklist := (port_blacklist m)(nat (atoi s) := port_blacklist m (nat (atoi s)) OR 1)\<rparr>))"
    and "tool_main env [Tool_add, Tool_udp s] x m = Some (Tool_Exit EXIT_OK m)"
  using assms port_add_result [OF assms(1,3,4), of IPPROTO_TCP, unfolded ACTION_ADD_def]
    port_add_result [OF assms(1,3,4), of IPPROTO_UDP, unfolded ACTION_ADD_def]
  by (simp_all add: tool_main_def tool_option_def tool_defaults_def update_port_def count_map_def set_count_map_def
      filter_value_def DDOS_FILTER_TCP_def DDOS_FILTER_UDP_def IPPROTO_TCP_def IPPROTO_UDP_def)

text \<open>C40. The tool blocks TCP ports but no UDP port: after \<open>--add --tcp-dport\<close> the filter drops TCP packets to the port, while
  \<open>--add --udp-dport\<close> reports success and leaves every map as it is, because the bit of UDP is computed by a shift in the wrong
  direction.\<close>

theorem tool_udp_port_ignored:
  assumes "array_ok (te_arr env)" and "te_open env = (\<lambda>_. True)" and "0 < atoi s" and "atoi s \<le> 65535"
  shows "(\<exists>m1. tool_main env [Tool_add, Tool_tcp s] x m = Some (Tool_Exit EXIT_OK m1)
      \<and> fst (port_verdict DDOS_FILTER_TCP (nat (atoi s)) m1) = XDP_DROP
      \<and> (\<forall>f p. p \<noteq> nat (atoi s) \<longrightarrow> fst (port_verdict f p m1) = fst (port_verdict f p m)))
    \<and> tool_main env [Tool_add, Tool_udp s] x m = Some (Tool_Exit EXIT_OK m)"
proof -
  let ?p = "nat (atoi s)"
  let ?m1 = "m\<lparr>port_blacklist := (port_blacklist m)(?p := port_blacklist m ?p OR 1)\<rparr>"
  have "(ucast (port_blacklist m ?p OR 1) :: u32) AND push_bit DDOS_FILTER_TCP 1 \<noteq> 0"
  proof
    assume "(ucast (port_blacklist m ?p OR 1) :: u32) AND push_bit DDOS_FILTER_TCP 1 = 0"
    then have "bit ((ucast (port_blacklist m ?p OR 1) :: u32) AND push_bit DDOS_FILTER_TCP 1) 0 = False" by simp
    then show False by (simp add: DDOS_FILTER_TCP_def bit_simps)
  qed
  then have "fst (port_verdict DDOS_FILTER_TCP ?p ?m1) = XDP_DROP" by (simp add: port_verdict_def)
  moreover have "fst (port_verdict f q ?m1) = fst (port_verdict f q m)" if "q \<noteq> ?p" for f q
    using that by (simp add: port_verdict_def)
  ultimately show ?thesis using tool_port_add [OF assms] by blast
qed

theorem tool_udp_port_ignored_witness:
  "tool_main demo_tool [Tool_add, Tool_udp ''53''] False no_maps = Some (Tool_Exit EXIT_OK no_maps)"
proof -
  have "array_ok (te_arr demo_tool)" "te_open demo_tool = (\<lambda>_. True)"
    by (simp_all add: array_ok_def demo_tool_def demo_array_def)
  moreover have "atoi ''53'' = 53"
    by (simp add: atoi_def strtol_def Let_def is_space_def is_digit_def digits_value_def clamp_long_def)
  ultimately show ?thesis using tool_udp_port_ignored [of demo_tool "''53''" False no_maps] by simp
qed

section \<open>Subnets: a counter with a threshold\<close>

text \<open>What the kernel documents for the two maps of the subnets.\<close>

definition subnet_entries :: nat where "subnet_entries = 100000"

definition subnet_ok :: "subnet_ops \<Rightarrow> bool" where
  "subnet_ok ops \<longleftrightarrow>
     (\<forall>m k. m k = None \<longrightarrow> fst (sn_lookup ops m k) = -1) \<and> (\<forall>m k v. m k = Some v \<longrightarrow> sn_lookup ops m k = (0, v))
     \<and> (\<forall>m k v. m k \<noteq> None \<longrightarrow> sn_insert ops m k v = (-1, m))
     \<and> (\<forall>m k v. m k = None \<longrightarrow> finite (dom m) \<longrightarrow> card (dom m) < subnet_entries \<longrightarrow> sn_insert ops m k v = (0, m(k \<mapsto> v)))
     \<and> (\<forall>m k v. sn_replace ops m k v = (if m k = None then (-1, m) else (0, m(k \<mapsto> v))))
     \<and> (\<forall>m k. sn_delete ops m k = (if m k = None then (-1, m) else (0, m(k := None))))"

lemma subnet_okD:
  assumes "subnet_ok ops"
  shows "m k = None \<Longrightarrow> fst (sn_lookup ops m k) = -1" and "m k = Some v \<Longrightarrow> sn_lookup ops m k = (0, v)"
    and "m k = Some u \<Longrightarrow> sn_insert ops m k v = (-1, m)"
    and "m k = None \<Longrightarrow> finite (dom m) \<Longrightarrow> card (dom m) < subnet_entries \<Longrightarrow> sn_insert ops m k v = (0, m(k \<mapsto> v))"
    and "sn_replace ops m k v = (if m k = None then (-1, m) else (0, m(k \<mapsto> v)))"
    and "sn_delete ops m k = (if m k = None then (-1, m) else (0, m(k := None)))"
  using assms unfolding subnet_ok_def by simp_all

text \<open>The specification: the number of addresses of the subnet that were added and not deleted, and whether the subnet is
  blocked. It is blocked by the third address and unblocked with the last one. The third address of a subnet that is still
  blocked is counted, but reported as a failure.\<close>

fun subnet_spec :: "nat \<Rightarrow> nat \<times> bool \<Rightarrow> int \<times> nat \<times> bool" where
  "subnet_spec action (n, blocked) =
     (if action = ACTION_ADD
      then (if n = 2 \<and> blocked then EXIT_FAIL_MAP_KEY else EXIT_OK, n + 1, blocked \<or> n = 2)
      else if n = 0 then (EXIT_FAIL_MAP_KEY, n, blocked)
      else (EXIT_OK, n - 1, blocked \<and> n \<noteq> 1))"

definition subnet_room :: "bytes \<Rightarrow> bpf_map \<Rightarrow> bool" where
  "subnet_room k m \<longleftrightarrow> finite (dom m) \<and> card (dom m - {k}) < subnet_entries"

definition subnet_rel :: "bytes \<Rightarrow> bpf_map \<times> bpf_map \<Rightarrow> nat \<times> bool \<Rightarrow> bool" where
  "subnet_rel k ms st \<longleftrightarrow> (case (ms, st) of ((cache, black), (n, blocked)) \<Rightarrow>
     cache k = (if n = 0 then None else Some (of_nat n)) \<and> (black k \<noteq> None \<longleftrightarrow> blocked) \<and> (blocked \<longrightarrow> 0 < n)
     \<and> subnet_room k cache \<and> subnet_room k black)"

lemma subnet_room_upd [simp]: "subnet_room k (m(k := v)) \<longleftrightarrow> subnet_room k m"
proof -
  have "dom (m(k := v)) - {k} = dom m - {k}" by auto
  moreover have "finite (dom (m(k := v))) \<longleftrightarrow> finite (dom m)" by (cases v) auto
  ultimately show ?thesis by (simp add: subnet_room_def)
qed

lemma subnet_room_insert:
  assumes "subnet_ok ops" and "subnet_room k m" and "m k = None"
  shows "sn_insert ops m k v = (0, m(k \<mapsto> v))"
proof -
  have "dom m - {k} = dom m" using assms(3) by auto
  then show ?thesis using assms(2,3) subnet_okD(4) [OF assms(1)] by (simp add: subnet_room_def)
qed

lemma subnet_add_refines:
  assumes ok: "subnet_ok ops" and rel: "subnet_rel k ms (n, blocked)" and n: "n + 1 < 2 ^ 64"
  shows "\<exists>ms'. subnet_add ops k ms = (fst (subnet_spec ACTION_ADD (n, blocked)), ms')
    \<and> subnet_rel k ms' (snd (subnet_spec ACTION_ADD (n, blocked)))"
proof -
  obtain cache black where ms: "ms = (cache, black)" by (cases ms)
  note r = rel [unfolded subnet_rel_def ms prod.case]
  show ?thesis
  proof (cases "n = 0")
    case True
    then have "cache k = None" "\<not> blocked" using r by simp_all
    with True r subnet_okD(1) [OF ok, of cache k] subnet_room_insert [OF ok, of k cache 1] show ?thesis
      by (cases "sn_lookup ops cache k") (simp add: subnet_add_def ms subnet_rel_def)
  next
    case False
    then have c: "cache k = Some (of_nat n)" using r by simp
    have up: "of_nat n + 1 = (of_nat (n + 1) :: u64)" by simp
    have "unat (of_nat (n + 1) :: u64) = n + 1" using n by (simp only: unat_of_nat) simp
    then have three: "(of_nat (n + 1) :: u64) = SUBNET_THRESHOLD \<longleftrightarrow> n = 2"
      by (auto simp: SUBNET_THRESHOLD_def)
    note l = subnet_okD(2) [OF ok, of cache k, OF c] subnet_okD(5) [OF ok, of cache k "of_nat (n + 1)"]
    show ?thesis
    proof (cases "n = 2")
      case True
      show ?thesis
      proof (cases blocked)
        case True
        then obtain u where "black k = Some u" using r by auto
        with \<open>n = 2\<close> True r c l three subnet_okD(3) [OF ok, of black k u 0] show ?thesis
          by (simp add: subnet_add_def ms subnet_rel_def up)
      next
        case False
        with \<open>n = 2\<close> r c l three subnet_room_insert [OF ok, of k black 0] show ?thesis
          by (simp add: subnet_add_def ms subnet_rel_def up)
      qed
    next
      case nn: False
      then show ?thesis using False r c l three by (simp add: subnet_add_def ms subnet_rel_def up)
    qed
  qed
qed

lemma subnet_del_refines:
  assumes ok: "subnet_ok ops" and cpu: "sn_nr_cpus ops = 1" and rel: "subnet_rel k ms (n, blocked)" and n: "n < 2 ^ 64"
  shows "\<exists>ms'. subnet_del ops k ms = Some (fst (subnet_spec ACTION_DEL (n, blocked)), ms')
    \<and> subnet_rel k ms' (snd (subnet_spec ACTION_DEL (n, blocked)))"
proof -
  obtain cache black where ms: "ms = (cache, black)" by (cases ms)
  note r = rel [unfolded subnet_rel_def ms prod.case]
  have spec: "subnet_spec ACTION_DEL (n, blocked)
      = (if n = 0 then (EXIT_FAIL_MAP_KEY, n, blocked) else (EXIT_OK, n - 1, blocked \<and> n \<noteq> 1))"
    by (simp add: tool_actions)
  show ?thesis
  proof (cases "n = 0")
    case True
    with r subnet_okD(1) [OF ok, of cache k] show ?thesis
      unfolding spec by (cases "sn_lookup ops cache k") (auto simp: subnet_del_def ms subnet_rel_def)
  next
    case False
    then have c: "cache k = Some (of_nat n)" using r by simp
    have down: "of_nat n - 1 = (of_nat (n - 1) :: u64)" using False by (simp add: of_nat_diff)
    have u: "unat (of_nat (n - 1) :: u64) = n - 1" using n by (simp only: unat_of_nat) simp
    have zero: "(of_nat (n - 1) :: u64) = 0 \<longleftrightarrow> n = 1"
      using u False by (metis One_nat_def diff_is_0_eq le_antisym less_one not_less unat_eq_zero)
    note l = subnet_okD(2) [OF ok, of cache k, OF c] subnet_okD(5) [OF ok, of cache k "of_nat (n - 1)"]
      subnet_okD(6) [OF ok, of cache k] subnet_okD(6) [OF ok, of black k]
    show ?thesis
    proof (cases "n = 1")
      case True
      show ?thesis
      proof (cases "black k")
        case None
        with True r c l subnet_okD(1) [OF ok, of black k] show ?thesis
          unfolding spec by (cases "sn_lookup ops black k") (simp add: subnet_del_def ms subnet_rel_def)
      next
        case (Some u)
        with True r c l cpu subnet_okD(2) [OF ok, of black k, OF Some] show ?thesis
          unfolding spec by (simp add: subnet_del_def ms subnet_rel_def)
      qed
    next
      case nn: False
      define v where "v = (of_nat (n - 1) :: u64)"
      have v: "of_nat n - 1 = v" "v \<noteq> 0" using down zero nn by (simp_all only: v_def not_False_eq_True)
      then have one: "of_nat n \<noteq> (1 :: u64)" by auto
      have "subnet_del ops k ms = Some (EXIT_OK, cache(k \<mapsto> v), black)"
        using c l(1,2) [folded v_def] v one by (simp add: subnet_del_def ms)
      moreover have "subnet_rel k (cache(k \<mapsto> v), black) (n - 1, blocked)"
        using r False nn by (simp add: subnet_rel_def v_def)
      ultimately show ?thesis using False nn unfolding spec by simp
    qed
  qed
qed

text \<open>A sequence of calls of the tool.\<close>

fun subnet_calls :: "subnet_ops \<Rightarrow> pton \<Rightarrow> (nat \<times> string) list \<Rightarrow> bpf_map \<times> bpf_map \<Rightarrow> (int list \<times> bpf_map \<times> bpf_map) option" where
  "subnet_calls ops pton [] ms = Some ([], ms)"
| "subnet_calls ops pton ((action, s) # calls) ms =
     do {
       (code, ms') \<leftarrow> subnet_main ops pton (True, True) action (Some s) False ms;
       (codes, ms'') \<leftarrow> subnet_calls ops pton calls ms';
       Some (code # codes, ms'')
     }"

fun subnet_specs :: "nat list \<Rightarrow> nat \<times> bool \<Rightarrow> int list \<times> nat \<times> bool" where
  "subnet_specs [] st = ([], st)"
| "subnet_specs (a # as) st =
     (case subnet_spec a st of (code, st') \<Rightarrow> case subnet_specs as st' of (codes, st'') \<Rightarrow> (code # codes, st''))"

lemma subnet_main_refines:
  assumes ok: "subnet_ok ops" "sn_nr_cpus ops = 1" and rel: "subnet_rel k ms (n, blocked)" and n: "n + 1 < 2 ^ 64"
    and a: "action = ACTION_ADD \<or> action = ACTION_DEL" and s: "pton AF_INET6 s = (1, key6)" "take 8 key6 = k"
  shows "\<exists>ms'. subnet_main ops pton (True, True) action (Some s) False ms = Some (fst (subnet_spec action (n, blocked)), ms')
    \<and> subnet_rel k ms' (snd (subnet_spec action (n, blocked))) \<and> fst (snd (subnet_spec action (n, blocked))) \<le> n + 1"
proof -
  have n': "n < 2 ^ 64" using n by simp
  have bound: "fst (snd (subnet_spec action (n, blocked))) \<le> n + 1" by (simp add: le_SucI)
  have "action \<noteq> 0" using a by (auto simp: tool_actions)
  from a show ?thesis
  proof
    assume "action = ACTION_ADD"
    with s \<open>action \<noteq> 0\<close> bound subnet_add_refines [OF ok(1) rel n] show ?thesis
      by (auto simp: subnet_main_def blacklist_subnet_modify_def simp del: subnet_spec.simps)
  next
    assume "action = ACTION_DEL"
    moreover have "ACTION_DEL \<noteq> ACTION_ADD" by (simp add: tool_actions)
    ultimately show ?thesis using s \<open>action \<noteq> 0\<close> bound subnet_del_refines [OF ok rel n']
      by (auto simp: subnet_main_def blacklist_subnet_modify_def simp del: subnet_spec.simps)
  qed
qed


definition demo_subnet :: subnet_ops where
  "demo_subnet = \<lparr>sn_nr_cpus = 1, sn_lookup = (\<lambda>m k. case m k of None \<Rightarrow> (-1, 0) | Some v \<Rightarrow> (0, v)),
     sn_insert = (\<lambda>m k v. if m k = None then (0, m(k \<mapsto> v)) else (-1, m)),
     sn_replace = (\<lambda>m k v. if m k = None then (-1, m) else (0, m(k \<mapsto> v))),
     sn_delete = (\<lambda>m k. if m k = None then (-1, m) else (0, m(k := None)))\<rparr>"

definition demo_pton6 :: pton where
  "demo_pton6 d s = (if d = AF_INET6 then (1, [0x20, 1, 0xd, 0xb8, 0, 0, 0, 1] @ replicate 7 0 @ [of_nat (length s)]) else (0, []))"


end
