(* ===== verification/Udp_Server.thy ===== *)
theory Udp_Server
  imports Sf2b_Config Ip_To_Str Shm_Setup Fips_Ring Sf2b_Binary
begin

text \<open>
  The logging server \<open>src/programs/udp_server.c\<close>, which produces the log lines the ban program reads: the
  options, the four routines that write a log entry for the address of a client, and the event loop
  \<open>listen_and_reply\<close> with its four ways to deliver the entries.

  What the socket calls, the clock and \<open>io_uring\<close> deliver in a round is an environment record. A log buffer is
  memory: a line is stored at its position, whatever lies there, and the vector handed to the transport refers
  to positions, so that lines that do not fit are visible in the model.
\<close>

unbundle bit_operations_syntax

section \<open>Constants\<close>

definition str_bytes :: "string \<Rightarrow> bytes" where
  "str_bytes s = map of_char s"

definition NEWLINE_CHAR :: u8 where "NEWLINE_CHAR = 10"
definition MAX_MSG :: nat where "MAX_MSG = 1024"
definition DATE_FMT :: string where "DATE_FMT = ''DD-MMM-YYYY HH:MM:SS''"
definition DATE_SIZE :: nat where "DATE_SIZE = length DATE_FMT"
definition STR_SIZE_IP6 :: nat where
  "STR_SIZE_IP6 = length ''DDDD:DDDD:DDDD:DDDD:DDDD:DDDD:DDDD:DDDD''"
definition HOST_PREFIX :: string where "HOST_PREFIX = '' client ''"
definition MSG_STR :: string where
  "MSG_STR = '' exceeded request rate limit'' @ [CHR 0x0A]"
definition LOG_STR_FMT_IP6 :: string where
  "LOG_STR_FMT_IP6 = ''YYYY-MM-DD HH:MM:SS client DDDD:DDDD:DDDD:DDDD:DDDD:DDDD:DDDD:DDDD ''
     @ ''exceeded request rate limit'' @ [CHR 0x0A]"
definition LOG_BUF_SIZE_IP6 :: nat where "LOG_BUF_SIZE_IP6 = length LOG_STR_FMT_IP6"
definition DEFAULT_PORT :: u16 where "DEFAULT_PORT = 8080"
definition UDP_DEFAULT_LOG :: string where "UDP_DEFAULT_LOG = ''udpsvr.log''"
definition SHM_NLINES :: u32 where "SHM_NLINES = 100000"
definition NREADERS :: u8 where "NREADERS = 1"
definition RETURN_SUC :: int where "RETURN_SUC = 0"
definition RETURN_FAIL :: int where "RETURN_FAIL = -1"

section \<open>Options\<close>

record udp_globals =
  ug_ipc_type :: ipc_type_t
  ug_port :: u16
  ug_logshort :: bool
  ug_binary :: bool
  ug_thread_count :: u8

record udp_arguments =
  ua_ipc_set :: bool
  ua_logfile :: string
  ua_shm_key :: "string option"
  ua_shm_lines :: u32
  ua_shm_reader_count :: u8
  ua_overwrite :: bool

definition udp_defaults :: "udp_arguments \<times> udp_globals" where
  "udp_defaults =
     (\<lparr>ua_ipc_set = False, ua_logfile = UDP_DEFAULT_LOG, ua_shm_key = None, ua_shm_lines = 0,
       ua_shm_reader_count = 0, ua_overwrite = False\<rparr>,
      \<lparr>ug_ipc_type = DISK, ug_port = DEFAULT_PORT, ug_logshort = False, ug_binary = False,
       ug_thread_count = NTHREADS\<rparr>)"

datatype udp_key =
    Opt_x "string option" | Opt_f "string option" | Opt_t "string option" | Opt_b | Opt_l | Opt_z
  | Opt_s "string option" | Opt_n string | Opt_r string | Opt_o | Opt_p string | Opt_arg | Opt_other

datatype udp_parsed = Opt_Usage | Opt_Unknown | Opt_Parsed "udp_arguments \<times> udp_globals"

definition opt_ipc :: "ipc_type_t \<Rightarrow> (udp_arguments \<Rightarrow> udp_arguments) \<Rightarrow> udp_arguments \<times> udp_globals \<Rightarrow> udp_parsed" where
  "opt_ipc ty f ag =
     (case ag of (a, g) \<Rightarrow>
        if ua_ipc_set a then Opt_Usage
        else Opt_Parsed ((f a)\<lparr>ua_ipc_set := True\<rparr>, g\<lparr>ug_ipc_type := ty\<rparr>))"

definition set_logfile :: "string option \<Rightarrow> udp_arguments \<Rightarrow> udp_arguments" where
  "set_logfile arg a = (case arg of None \<Rightarrow> a | Some s \<Rightarrow> a\<lparr>ua_logfile := s\<rparr>)"

definition listener_threads :: "int \<Rightarrow> string option \<Rightarrow> u8" where
  "listener_threads nprocs arg =
     (case arg of
        None \<Rightarrow> word_of_int nprocs
      | Some s \<Rightarrow>
          let n = word_of_int (strtol s);
              n1 = (if nprocs < uint n then word_of_int nprocs else n)
          in if n1 = 0 then 1 else n1)"

text \<open>The number of processors and the success of \<open>stat\<close> are arguments.\<close>

definition parse_opt :: "int \<Rightarrow> (string \<Rightarrow> bool) \<Rightarrow> udp_key \<Rightarrow> udp_arguments \<times> udp_globals \<Rightarrow> udp_parsed" where
  "parse_opt nprocs stat_ok key ag =
     (case ag of (a, g) \<Rightarrow>
        (case key of
           Opt_x arg \<Rightarrow> opt_ipc POSIX_IO (set_logfile arg) ag
         | Opt_f arg \<Rightarrow> opt_ipc DISK (set_logfile arg) ag
         | Opt_t arg \<Rightarrow> Opt_Parsed (a, g\<lparr>ug_thread_count := listener_threads nprocs arg\<rparr>)
         | Opt_b \<Rightarrow> Opt_Parsed (a, g\<lparr>ug_binary := True\<rparr>)
         | Opt_l \<Rightarrow> Opt_Parsed (a, g\<lparr>ug_logshort := True\<rparr>)
         | Opt_z \<Rightarrow> opt_ipc FIPS (\<lambda>a. a) ag
         | Opt_s arg \<Rightarrow>
             (case arg of
                Some s \<Rightarrow>
                  if ua_ipc_set a \<or> \<not> stat_ok s then Opt_Usage
                  else opt_ipc SHM (\<lambda>a. a\<lparr>ua_shm_key := Some s\<rparr>) ag
              | None \<Rightarrow> opt_ipc SHM (\<lambda>a. a\<lparr>ua_shm_key := Some UDP_DEFAULT_LOG\<rparr>) ag)
         | Opt_n arg \<Rightarrow>
             let n = word_of_int (strtol arg) in
             Opt_Parsed (a\<lparr>ua_shm_lines := (if n < 2 then 2 else n)\<rparr>, g)
         | Opt_r arg \<Rightarrow>
             let n = word_of_int (strtol arg) in
             Opt_Parsed (a\<lparr>ua_shm_reader_count := (if n = 0 then 1 else n)\<rparr>, g)
         | Opt_o \<Rightarrow> Opt_Parsed (a\<lparr>ua_overwrite := True\<rparr>, g)
         | Opt_p arg \<Rightarrow>
             let n = word_of_int (strtol arg) in
             Opt_Parsed (a, g\<lparr>ug_port := (if n < 1023 then DEFAULT_PORT else n)\<rparr>)
         | Opt_arg \<Rightarrow> Opt_Parsed ag
         | Opt_other \<Rightarrow> Opt_Unknown))"

fun parse_opts :: "int \<Rightarrow> (string \<Rightarrow> bool) \<Rightarrow> udp_key list \<Rightarrow> udp_arguments \<times> udp_globals \<Rightarrow> udp_parsed" where
  "parse_opts nprocs stat_ok [] ag = Opt_Parsed ag"
| "parse_opts nprocs stat_ok (k # ks) ag =
     (case parse_opt nprocs stat_ok k ag of
        Opt_Parsed ag' \<Rightarrow> parse_opts nprocs stat_ok ks ag'
      | r \<Rightarrow> r)"

section \<open>Log entries\<close>

text \<open>\<open>IN6_IS_ADDR_V4MAPPED\<close>.\<close>

definition v4_mapped :: "bytes \<Rightarrow> bool" where
  "v4_mapped addr \<longleftrightarrow> take 12 addr = replicate 10 0 @ [255, 255]"

text \<open>The text of the address of a client and the number of its characters.\<close>

definition addr_text :: "bytes \<Rightarrow> u8 \<times> bytes" where
  "addr_text addr =
     (case (if v4_mapped addr then ipv4_to_str (drop 12 addr) else ipv6_to_str addr) of
        (n, s) \<Rightarrow> (n, str_bytes s))"

text \<open>Both text routines give their result and the bytes they store from the start of the buffer.\<close>

definition logstr_short :: "bytes \<Rightarrow> u16 \<times> bytes" where
  "logstr_short addr =
     (case addr_text addr of (addrlen, s) \<Rightarrow> (ucast addrlen + 1, s @ [NEWLINE_CHAR]))"

definition logstr_long :: "bytes \<Rightarrow> bytes \<Rightarrow> u16 \<times> bytes" where
  "logstr_long global_datetime_buf addr =
     (case addr_text addr of (n, s) \<Rightarrow>
        (of_nat DATE_SIZE + of_nat (length HOST_PREFIX) + ucast n + 1 + of_nat (length MSG_STR),
         take DATE_SIZE global_datetime_buf @ str_bytes HOST_PREFIX @ s @ [35] @ str_bytes MSG_STR))"

definition write_entry :: "bool \<Rightarrow> bytes \<Rightarrow> bytes \<Rightarrow> u16 \<times> bytes" where
  "write_entry logshort datebuf addr = (if logshort then logstr_short addr else logstr_long datebuf addr)"

text \<open>The binary routines store members of a \<open>fips_bin_message_t\<close>: the time at 0, the length of the address at
  8 and the address at 16. The short one does not store the time.\<close>

definition sizeof_bin_message :: nat where "sizeof_bin_message = 48"

definition le64 :: "int \<Rightarrow> bytes" where
  "le64 t = map (\<lambda>i. ucast (drop_bit (8 * i) (word_of_int t :: u64))) [0 ..< 8]"

definition put_address :: "nat \<Rightarrow> bytes \<Rightarrow> bytes \<Rightarrow> bytes option" where
  "put_address pos addr mem =
     (if v4_mapped addr
      then do { m1 \<leftarrow> mem_write mem (pos + 8) [4]; mem_write m1 (pos + 16) (drop 12 addr) }
      else do { m1 \<leftarrow> mem_write mem (pos + 8) [16]; mem_write m1 (pos + 16) addr })"

definition logstr_bin_short :: "nat \<Rightarrow> bytes \<Rightarrow> bytes \<Rightarrow> bytes option" where
  "logstr_bin_short pos addr mem = put_address pos addr mem"

definition logstr_bin_long :: "int \<Rightarrow> nat \<Rightarrow> bytes \<Rightarrow> bytes \<Rightarrow> bytes option" where
  "logstr_bin_long now pos addr mem = do { m1 \<leftarrow> mem_write mem pos (le64 now); put_address pos addr m1 }"

section \<open>Delivery\<close>

text \<open>A received packet: the address of its sender, and the date buffer and the time when it is logged.\<close>

record packet =
  pk_addr :: bytes
  pk_date :: bytes
  pk_time :: int

text \<open>Text entries for a file or the shared memory ring: the entries lie \<open>logbuf_size\<close> bytes apart in
  \<open>logstr_buf\<close>, the vector holds their positions and lengths.\<close>

fun log_lines :: "bool \<Rightarrow> nat \<Rightarrow> packet list \<Rightarrow> nat \<Rightarrow> bytes \<Rightarrow> (nat \<times> u16) list \<Rightarrow> (bytes \<times> (nat \<times> u16) list) option" where
  "log_lines logshort logbuf_size [] logstr_index buf iovs = Some (buf, iovs)"
| "log_lines logshort logbuf_size (p # ps) logstr_index buf iovs =
     (case write_entry logshort (pk_date p) (pk_addr p) of (logstr_len, s) \<Rightarrow>
        do {
          buf' \<leftarrow> mem_write buf logstr_index s;
          (if 0 < logstr_len
           then log_lines logshort logbuf_size ps (logstr_index + logbuf_size) buf' (iovs @ [(logstr_index, logstr_len)])
           else log_lines logshort logbuf_size ps logstr_index buf' iovs)
        })"

text \<open>With \<open>POSIX_IO\<close> every entry is stored at the start of the buffer, terminated, and printed to the file.\<close>

fun log_posix :: "bool \<Rightarrow> packet list \<Rightarrow> bytes \<Rightarrow> bytes \<Rightarrow> (bytes \<times> bytes) option" where
  "log_posix logshort [] buf file = Some (buf, file)"
| "log_posix logshort (p # ps) buf file =
     (case write_entry logshort (pk_date p) (pk_addr p) of (logstr_len, s) \<Rightarrow>
        do {
          buf1 \<leftarrow> mem_write buf 0 s;
          buf2 \<leftarrow> mem_write buf1 (unat logstr_len) [0];
          log_posix logshort ps buf2 (file @ takeWhile (\<lambda>b. b \<noteq> 0) buf2)
        })"

text \<open>The zero-copy buffer: the vector of claimed buffers, the number of those left, and the shared memory.
  The vector is empty until the first claim succeeds; the result of a claim and of a commit is ignored.\<close>

record fips_log =
  fl_available_iovs :: int
  fl_iovs :: "fips_iovec list"
  fl_shm :: fips_shm

definition claim_buffers :: "u32 \<Rightarrow> nat \<Rightarrow> fips_log \<Rightarrow> fips_log option" where
  "claim_buffers line_size seg_idx l =
     do {
       (ret, iovs, shm) \<leftarrow> fips_get_write_buffer line_size seg_idx MAX_MSG (fl_shm l);
       Some (l\<lparr>fl_available_iovs := int MAX_MSG, fl_iovs := (if ret = 0 then iovs else fl_iovs l), fl_shm := shm\<rparr>)
     }"

definition store_data :: "nat \<Rightarrow> (bytes \<Rightarrow> bytes option) \<Rightarrow> fips_shm \<Rightarrow> fips_shm option" where
  "store_data seg_idx f shm =
     do {
       seg \<leftarrow> nth_opt (fb_segments shm) seg_idx;
       d \<leftarrow> f (seg_data seg);
       Some (shm\<lparr>fb_segments := (fb_segments shm)[seg_idx := seg\<lparr>seg_data := d\<rparr>]\<rparr>)
     }"

definition commit_buffers :: "nat \<Rightarrow> fips_log \<Rightarrow> fips_log option" where
  "commit_buffers seg_idx l =
     (if fl_available_iovs l < 1
      then do { (_, shm) \<leftarrow> fips_buf_write seg_idx (fl_iovs l) (fl_shm l); Some (l\<lparr>fl_shm := shm\<rparr>) }
      else Some l)"

text \<open>One packet. A binary entry sets the length of the vector element \<open>invalid_count\<close>, a text entry that of the
  element it was written to.\<close>

definition log_fips_packet ::
  "u32 \<Rightarrow> nat \<Rightarrow> bool \<Rightarrow> bool \<Rightarrow> packet \<Rightarrow> nat \<times> nat \<times> fips_log \<Rightarrow> (nat \<times> nat \<times> fips_log) option" where
  "log_fips_packet line_size seg_idx binary logshort p st =
     (case st of (logstr_index0, invalid_count, l0) \<Rightarrow>
        do {
          (logstr_index, l) \<leftarrow>
            (if fl_available_iovs l0 < 1 then map_option (Pair 0) (claim_buffers line_size seg_idx l0)
             else Some (logstr_index0, l0));
          v \<leftarrow> nth_opt (fl_iovs l) logstr_index;
          (if binary
           then do {
             shm \<leftarrow> store_data seg_idx
               (if logshort then logstr_bin_short (fv_pos v) (pk_addr p) else logstr_bin_long (pk_time p) (fv_pos v) (pk_addr p))
               (fl_shm l);
             w \<leftarrow> nth_opt (fl_iovs l) invalid_count;
             l' \<leftarrow> commit_buffers seg_idx (l\<lparr>fl_available_iovs := fl_available_iovs l - 1, fl_shm := shm,
               fl_iovs := (fl_iovs l)[invalid_count := w\<lparr>fv_len := of_nat sizeof_bin_message\<rparr>]\<rparr>);
             Some (logstr_index + 1, invalid_count + 1, l')
           }
           else (case write_entry logshort (pk_date p) (pk_addr p) of (logstr_len, s) \<Rightarrow>
             do {
               shm \<leftarrow> store_data seg_idx (\<lambda>d. mem_write d (fv_pos v) s) (fl_shm l);
               (if 0 < logstr_len
                then do {
                  l' \<leftarrow> commit_buffers seg_idx (l\<lparr>fl_available_iovs := fl_available_iovs l - 1, fl_shm := shm,
                    fl_iovs := (fl_iovs l)[logstr_index := v\<lparr>fv_len := ucast logstr_len\<rparr>]\<rparr>);
                  Some (logstr_index + 1, invalid_count + 1, l')
                }
                else do {
                  l' \<leftarrow> commit_buffers seg_idx (l\<lparr>fl_shm := shm\<rparr>);
                  Some (logstr_index, invalid_count, l')
                })
             }))
        })"

fun log_fips :: "u32 \<Rightarrow> nat \<Rightarrow> bool \<Rightarrow> bool \<Rightarrow> packet list \<Rightarrow> nat \<times> nat \<times> fips_log \<Rightarrow> (nat \<times> nat \<times> fips_log) option" where
  "log_fips line_size seg_idx binary logshort [] st = Some st"
| "log_fips line_size seg_idx binary logshort (p # ps) st =
     do {
       st' \<leftarrow> log_fips_packet line_size seg_idx binary logshort p st;
       log_fips line_size seg_idx binary logshort ps st'
     }"

section \<open>The event loop\<close>

text \<open>The variables of \<open>listen_and_reply\<close>. The submission queue entry of the last write is represented by the
  vector that was submitted; the file and the two kinds of shared memory are what the thread writes to.\<close>

record udp_thread =
  ut_pkt_in :: u64
  ut_pkt_out :: u64
  ut_msg_out :: u64
  ut_msg_drop :: u64
  ut_logstr_buf :: bytes
  ut_sqe :: "(nat \<times> u16) list option"
  ut_file :: bytes
  ut_shm :: shm_region
  ut_fips :: fips_log

text \<open>The settings of a thread: its number, which is its segment of the ring, the argument of the ring, and the
  segment that \<open>fips_buf_attach\<close> gave it and the line size of the zero-copy buffer.\<close>

record udp_setting =
  us_globals :: udp_globals
  us_thread_id :: u8
  us_rbuf_arg :: "shmrbuf_writer_arg_t option"
  us_segment :: nat
  us_line_size :: u32

text \<open>What the system calls of a round deliver: the received packets or an error and whether it is one to
  retry, the result of the last asynchronous write, of the submission, and of sending the replies.\<close>

record udp_env =
  re_packets :: "packet list option"
  re_recv_retry :: bool
  re_cqe :: int
  re_submit :: int
  re_sent :: int
  re_send_retry :: bool

definition logbuf_size :: "udp_globals \<Rightarrow> nat" where
  "logbuf_size g = (if ug_logshort g then STR_SIZE_IP6 + 1 else LOG_BUF_SIZE_IP6)"

text \<open>The vector as the transport sees it.\<close>

definition vector_of :: "bytes \<Rightarrow> (nat \<times> u16) list \<Rightarrow> iovec list" where
  "vector_of buf iovs = map (\<lambda>(off, len). \<lparr>iov_base = drop off buf, iov_len = ucast len\<rparr>) iovs"

definition gather :: "bytes \<Rightarrow> (nat \<times> u16) list \<Rightarrow> bytes" where
  "gather buf iovs = concat (map (\<lambda>(off, len). take (unat len) (drop off buf)) iovs)"

text \<open>The check of the last asynchronous write; the flag is \<open>False\<close> when the function returns.\<close>

definition await_write :: "udp_setting \<Rightarrow> udp_env \<Rightarrow> udp_thread \<Rightarrow> bool \<times> udp_thread" where
  "await_write cfg env t =
     (case ut_sqe t of
        Some iovs \<Rightarrow>
          if ug_ipc_type (us_globals cfg) = DISK
          then if re_cqe env < 0 then (False, t\<lparr>ut_sqe := None\<rparr>)
               else (True, t\<lparr>ut_sqe := None, ut_file := ut_file t @ take (nat (re_cqe env)) (gather (ut_logstr_buf t) iovs)\<rparr>)
          else (True, t)
      | None \<Rightarrow> (True, t))"

text \<open>The loop over the packets and the delivery of the vector. A binary entry outside the zero-copy buffer is
  written through a null pointer.\<close>

definition deliver :: "udp_setting \<Rightarrow> udp_env \<Rightarrow> packet list \<Rightarrow> udp_thread \<Rightarrow> (bool \<times> udp_thread) option" where
  "deliver cfg env ps t =
     (let g = us_globals cfg in
      case ug_ipc_type g of
        FIPS \<Rightarrow> do {
          (_, invalid_count, l) \<leftarrow> log_fips (us_line_size cfg) (us_segment cfg) (ug_binary g) (ug_logshort g) ps
            (0, 0, ut_fips t);
          Some (True, t\<lparr>ut_fips := l, ut_msg_out := ut_msg_out t + of_nat invalid_count\<rparr>)
        }
      | POSIX_IO \<Rightarrow>
          if ug_binary g \<and> ps \<noteq> [] then None
          else do {
            (buf, file) \<leftarrow> log_posix (ug_logshort g) ps (ut_logstr_buf t) (ut_file t);
            Some (True, t\<lparr>ut_logstr_buf := buf, ut_file := file, ut_msg_out := ut_msg_out t + of_nat (length ps)\<rparr>)
          }
      | DISK \<Rightarrow>
          if ug_binary g \<and> ps \<noteq> [] then None
          else do {
            (buf, iovs) \<leftarrow> log_lines (ug_logshort g) (logbuf_size g) ps 0 (ut_logstr_buf t) [];
            let t1 = t\<lparr>ut_logstr_buf := buf\<rparr>;
            if iovs = [] then Some (True, t1)
            else if re_submit env = -1
            then Some (False, t1\<lparr>ut_sqe := Some iovs, ut_msg_drop := ut_msg_drop t + of_nat (length iovs)\<rparr>)
            else Some (True, t1\<lparr>ut_sqe := Some iovs, ut_msg_out := ut_msg_out t + of_nat (length iovs)\<rparr>)
          }
      | SHM \<Rightarrow>
          if ug_binary g \<and> ps \<noteq> [] then None
          else do {
            (buf, iovs) \<leftarrow> log_lines (ug_logshort g) (logbuf_size g) ps 0 (ut_logstr_buf t) [];
            let t1 = t\<lparr>ut_logstr_buf := buf\<rparr>;
            if iovs = [] then Some (True, t1)
            else do {
              (retval_ipc, shm) \<leftarrow> shmrbuf_writev (us_rbuf_arg cfg) (Some (vector_of buf iovs)) (of_nat (length iovs))
                (us_thread_id cfg) (ut_shm t);
              let t2 = t1\<lparr>ut_shm := shm\<rparr>;
              if retval_ipc < 0
              then Some (False, t2\<lparr>ut_msg_drop := ut_msg_drop t + of_nat (length iovs)\<rparr>)
              else if retval_ipc < int (length iovs)
              then Some (True, t2\<lparr>ut_msg_drop := ut_msg_drop t + of_int (int (length iovs) - retval_ipc),
                ut_msg_out := ut_msg_out t + of_int retval_ipc\<rparr>)
              else Some (True, t2\<lparr>ut_msg_out := ut_msg_out t + of_nat (length iovs)\<rparr>)
            }
          })"

text \<open>One round; the flag is \<open>False\<close> when the function returns \<open>RETURN_FAIL\<close>.\<close>

definition udp_round :: "udp_setting \<Rightarrow> udp_env \<Rightarrow> udp_thread \<Rightarrow> (bool \<times> udp_thread) option" where
  "udp_round cfg env t =
     (case re_packets env of
        None \<Rightarrow> Some (re_recv_retry env, t)
      | Some ps \<Rightarrow>
          (case await_write cfg env (t\<lparr>ut_pkt_in := ut_pkt_in t + of_nat (length ps)\<rparr>) of
             (False, t1) \<Rightarrow> Some (False, t1)
           | (True, t1) \<Rightarrow> do {
               (ok, t2) \<leftarrow> deliver cfg env ps t1;
               Some (if \<not> ok then (False, t2)
                     else if re_sent env = -1 then (re_send_retry env, t2)
                     else (True, t2\<lparr>ut_pkt_out := ut_pkt_out t2 + of_int (re_sent env)\<rparr>))
             }))"

fun listen_and_reply :: "udp_setting \<Rightarrow> udp_env list \<Rightarrow> udp_thread \<Rightarrow> (int \<times> udp_thread) option" where
  "listen_and_reply cfg [] t = Some (RETURN_SUC, t)"
| "listen_and_reply cfg (env # envs) t =
     do {
       (ok, t') \<leftarrow> udp_round cfg env t;
       if ok then listen_and_reply cfg envs t' else Some (RETURN_FAIL, t')
     }"

text \<open>The state at the start of the loop, and the parameters \<open>main\<close> creates the ring with.\<close>

definition start_thread :: "udp_globals \<Rightarrow> shm_region \<Rightarrow> fips_shm \<Rightarrow> udp_thread" where
  "start_thread g shm fshm =
     \<lparr>ut_pkt_in = 0, ut_pkt_out = 0, ut_msg_out = 0, ut_msg_drop = 0,
      ut_logstr_buf = replicate (MAX_MSG * logbuf_size g) 0, ut_sqe = None, ut_file = [], ut_shm = shm,
      ut_fips = \<lparr>fl_available_iovs = 0, fl_iovs = [], fl_shm = fshm\<rparr>\<rparr>"

definition ring_parameters :: "udp_arguments \<Rightarrow> udp_globals \<Rightarrow> shmrbuf_writer_arg_t" where
  "ring_parameters a g =
     \<lparr>w_shm_key = ua_shm_key a,
      w_line_size = of_nat (logbuf_size g),
      w_line_count = (if ua_shm_lines a \<noteq> 0 then ua_shm_lines a else SHM_NLINES),
      w_segment_count = ug_thread_count g,
      w_reader_count = (if ua_shm_reader_count a \<noteq> 0 then ua_shm_reader_count a else NREADERS),
      w_global_hdr = False, w_segment_hdrs = False,
      w_flags = (if ua_overwrite a then SHMRBUF_OVWR OR SHMRBUF_REATT OR SHMRBUF_FRCAT else SHMRBUF_REATT OR SHMRBUF_FRCAT),
      w_shm_id = 0\<rparr>"

end
