(* ===== verification/Udp_Props.thy ===== *)
theory Udp_Props
  imports Udp_Server Sf2b_Parse Sf2b_Ipc Shm_Ringbuf_Props Fips_Ring_Props
begin

text \<open>
  What the logging server delivers: the sizes of the entries, the contents of the vector, and what reaches the
  ring and the zero-copy buffer, with the two cases in which the server loses entries.
\<close>

section \<open>Sizes of the entries\<close>

lemma length_str_bytes [simp]: "length (str_bytes s) = length s"
  by (simp add: str_bytes_def)

lemma str_bytes_append: "str_bytes (s @ t) = str_bytes s @ str_bytes t"
  by (simp add: str_bytes_def)

lemma log_sizes:
  "DATE_SIZE = 20" "length HOST_PREFIX = 8" "length MSG_STR = 29" "LOG_BUF_SIZE_IP6 = 95" "STR_SIZE_IP6 = 39"
  by (simp_all add: DATE_SIZE_def DATE_FMT_def HOST_PREFIX_def MSG_STR_def LOG_BUF_SIZE_IP6_def LOG_STR_FMT_IP6_def
      STR_SIZE_IP6_def)

lemma addr_text_size:
  assumes "length addr = 16" and "addr_text addr = (n, s)"
  shows "unat n = length s" and "v4_mapped addr \<Longrightarrow> 7 \<le> length s \<and> length s \<le> 15"
    and "\<not> v4_mapped addr \<Longrightarrow> length s = 39"
proof -
  obtain m u where mu: "(if v4_mapped addr then ipv4_to_str (drop 12 addr) else ipv6_to_str addr) = (m, u)" "n = m" "s = str_bytes u"
    using assms(2) by (auto simp: addr_text_def split: prod.splits)
  have 4: "unat m = length u \<and> 7 \<le> length u \<and> length u \<le> 15" if "v4_mapped addr"
    using ipv4_to_str_octets [of "drop 12 addr" m u] mu(1) that assms(1) by simp
  have 6: "m = 39 \<and> length u = 39" if "\<not> v4_mapped addr"
    using ipv6_to_str_groups [of addr m u] mu(1) that assms(1) by simp
  show "unat n = length s" using 4 6 mu(2,3) by (cases "v4_mapped addr") simp_all
  show "v4_mapped addr \<Longrightarrow> 7 \<le> length s \<and> length s \<le> 15" using 4 mu(3) by simp
  show "\<not> v4_mapped addr \<Longrightarrow> length s = 39" using 6 mu(3) by simp
qed

text \<open>A packet is regular when its address has sixteen bytes and the date buffer holds a date.\<close>

definition packet_ok :: "packet \<Rightarrow> bool" where
  "packet_ok p \<longleftrightarrow> length (pk_addr p) = 16 \<and> DATE_SIZE \<le> length (pk_date p)"

abbreviation entry_of :: "bool \<Rightarrow> packet \<Rightarrow> bytes" where
  "entry_of short p \<equiv> snd (write_entry short (pk_date p) (pk_addr p))"

abbreviation entry_len :: "bool \<Rightarrow> packet \<Rightarrow> u16" where
  "entry_len short p \<equiv> fst (write_entry short (pk_date p) (pk_addr p))"

lemma unat_word_of_small: "n < 65536 \<Longrightarrow> unat (of_nat n :: u16) = n"
  by (simp add: unat_of_nat)

lemma ucast_u8_u16: "(ucast (n :: u8) :: u16) = of_nat (unat n)"
  by simp

lemma entry_size:
  assumes "packet_ok p"
  shows "unat (entry_len short p) = length (entry_of short p)" and "0 < length (entry_of short p)"
    and "length (entry_of short p) =
      (if short then 1 else 58) + length (snd (addr_text (pk_addr p)))"
proof -
  obtain n s where ns: "addr_text (pk_addr p) = (n, s)" by (cases "addr_text (pk_addr p)")
  note sz = addr_text_size [OF _ ns]
  have len: "length (pk_addr p) = 16" "20 \<le> length (pk_date p)" using assms by (simp_all add: packet_ok_def log_sizes)
  have n: "unat n = length s" by (rule sz(1)) (rule len)
  have bound: "length s \<le> 39" using sz(2,3) len(1) by (cases "v4_mapped (pk_addr p)") auto
  have short: "ucast n + 1 = (of_nat (length s + 1) :: u16)"
    unfolding ucast_u8_u16 n by simp
  have long: "of_nat DATE_SIZE + of_nat (length HOST_PREFIX) + ucast n + 1 + of_nat (length MSG_STR) = (of_nat (58 + length s) :: u16)"
    unfolding ucast_u8_u16 n log_sizes by simp
  show e: "length (entry_of short p) = (if short then 1 else 58) + length (snd (addr_text (pk_addr p)))"
    using len(2) by (simp add: write_entry_def logstr_short_def logstr_long_def ns log_sizes)
  show "0 < length (entry_of short p)" unfolding e by simp
  have "entry_len short p = of_nat (length (entry_of short p))"
    unfolding e using short long by (simp add: write_entry_def logstr_short_def logstr_long_def ns)
  moreover have "length (entry_of short p) < 65536" unfolding e using bound ns by simp
  ultimately show "unat (entry_len short p) = length (entry_of short p)"
    by (simp only: unat_word_of_small)
qed

text \<open>Every short entry fits into its part of the buffer, a long entry exactly for an IPv4 client.\<close>

lemma entry_fits_iff:
  assumes "packet_ok p"
  shows "length (entry_of short p) \<le> (if short then STR_SIZE_IP6 + 1 else LOG_BUF_SIZE_IP6)
    \<longleftrightarrow> short \<or> v4_mapped (pk_addr p)"
proof -
  obtain n s where ns: "addr_text (pk_addr p) = (n, s)" by (cases "addr_text (pk_addr p)")
  have len: "length (pk_addr p) = 16" using assms by (simp add: packet_ok_def)
  have "length s = 39 \<or> v4_mapped (pk_addr p) \<and> length s \<le> 15"
    using addr_text_size(2,3) [OF len ns] by blast
  moreover have "\<not> v4_mapped (pk_addr p) \<Longrightarrow> length s = 39" by (rule addr_text_size(3) [OF len ns])
  moreover have "v4_mapped (pk_addr p) \<Longrightarrow> length s \<le> 15" using addr_text_size(2) [OF len ns] by blast
  ultimately show ?thesis using entry_size(3) [OF assms, of short] ns by (auto simp: log_sizes)
qed

section \<open>The vector of a round\<close>

definition positions :: "bool \<Rightarrow> nat \<Rightarrow> nat \<Rightarrow> packet list \<Rightarrow> (nat \<times> u16) list" where
  "positions short cell idx ps = map (\<lambda>i. (idx + i * cell, entry_len short (ps ! i))) [0 ..< length ps]"

lemma positions_Cons:
  "positions short cell idx (p # ps) = (idx, entry_len short p) # positions short cell (idx + cell) ps"
  unfolding positions_def length_Cons
  by (subst upt_conv_Cons) (simp_all add: map_Suc_upt [symmetric] del: upt_Suc)

lemma length_positions [simp]: "length (positions short cell idx ps) = length ps"
  by (simp add: positions_def)

lemma entry_len_pos: "packet_ok p \<Longrightarrow> 0 < entry_len short p"
  using entry_size(1,2) [of p short] by (simp add: word_less_nat_alt)

lemma log_lines_result:
  assumes "\<forall>p\<in>set ps. packet_ok p \<and> length (entry_of short p) \<le> cell" and "idx + length ps * cell \<le> length buf"
  shows "\<exists>buf'. log_lines short cell ps idx buf iovs = Some (buf', iovs @ positions short cell idx ps)
    \<and> length buf' = length buf \<and> take idx buf' = take idx buf
    \<and> (\<forall>i < length ps. take (length (entry_of short (ps ! i))) (drop (idx + i * cell) buf') = entry_of short (ps ! i))"
  using assms
proof (induction ps arbitrary: idx buf iovs)
  case Nil
  then show ?case by (simp add: positions_def)
next
  case (Cons p ps)
  let ?s = "entry_of short p"
  have ok: "packet_ok p" "length ?s \<le> cell" using Cons.prems(1) by simp_all
  obtain buf1 where b1: "mem_write buf idx ?s = Some buf1"
    using Cons.prems(2) ok(2) by (simp add: mem_write_def)
  note l1 = mem_write_length [OF b1]
  obtain buf' where b': "log_lines short cell ps (idx + cell) buf1 (iovs @ [(idx, entry_len short p)])
      = Some (buf', (iovs @ [(idx, entry_len short p)]) @ positions short cell (idx + cell) ps)"
    "length buf' = length buf1" "take (idx + cell) buf' = take (idx + cell) buf1"
    "\<forall>i < length ps. take (length (entry_of short (ps ! i))) (drop (idx + cell + i * cell) buf') = entry_of short (ps ! i)"
    using Cons.IH [of "idx + cell" buf1 "iovs @ [(idx, entry_len short p)]"] Cons.prems l1 by (auto simp: algebra_simps)
  have "log_lines short cell (p # ps) idx buf iovs = Some (buf', iovs @ positions short cell idx (p # ps))"
    using b1 b'(1) entry_len_pos [OF ok(1), of short] by (simp add: positions_Cons split_beta)
  moreover have "take idx buf' = take idx buf"
  proof -
    have "take idx buf' = take idx (take (idx + cell) buf')" by simp
    also have "\<dots> = take idx buf1" unfolding b'(3) by simp
    also have "\<dots> = take idx buf" using mem_write_SomeD [OF b1] by simp
    finally show ?thesis .
  qed
  moreover have "take (length (entry_of short ((p # ps) ! i))) (drop (idx + i * cell) buf') = entry_of short ((p # ps) ! i)"
    if "i < length (p # ps)" for i
  proof (cases i)
    case 0
    have "take (length ?s) (drop idx buf') = take (length ?s) (drop idx (take (idx + cell) buf'))"
      using ok(2) by (simp add: drop_take min_absorb1)
    also have "\<dots> = take (length ?s) (drop idx buf1)" unfolding b'(3) using ok(2) by (simp add: drop_take min_absorb1)
    also have "\<dots> = ?s" by (rule mem_read_write_same [OF b1])
    finally show ?thesis using 0 by simp
  next
    case (Suc j)
    then show ?thesis using b'(4) [rule_format, of j] that by (simp add: ac_simps)
  qed
  moreover have "length buf' = length buf" using b'(2) l1 by simp
  ultimately show ?case by blast
qed

definition padded :: "nat \<Rightarrow> bytes \<Rightarrow> bytes" where
  "padded n s = s @ replicate (n - length s) 0"

lemma vector_of_positions:
  assumes "\<forall>p\<in>set ps. packet_ok p \<and> length (entry_of short p) \<le> cell" and "cell < 65536"
    and "\<forall>i < length ps. take (length (entry_of short (ps ! i))) (drop (idx + i * cell) buf) = entry_of short (ps ! i)"
  shows "map (iov_line (of_nat cell)) (vector_of buf (positions short cell idx ps)) = map (\<lambda>p. padded cell (entry_of short p)) ps"
    and "\<forall>iov\<in>set (vector_of buf (positions short cell idx ps)). iov_ok (of_nat cell) iov"
proof -
  have elem: "iov_line (of_nat cell) \<lparr>iov_base = drop (idx + i * cell) buf, iov_len = ucast (entry_len short (ps ! i))\<rparr>
      = padded cell (entry_of short (ps ! i))"
    "iov_ok (of_nat cell) \<lparr>iov_base = drop (idx + i * cell) buf, iov_len = ucast (entry_len short (ps ! i))\<rparr>"
    if i: "i < length ps" for i
  proof -
    let ?e = "entry_of short (ps ! i)"
    have p: "packet_ok (ps ! i)" "length ?e \<le> cell" using assms(1) i by simp_all
    note u = entry_size(1) [OF p(1), of short] and t = assms(3) [rule_format, OF i]
    have c: "(ucast (ucast (entry_len short (ps ! i)) :: u64) :: u16) = entry_len short (ps ! i)"
      by (rule bit_word_eqI) (simp add: bit_simps)
    have sz: "unat (of_nat cell :: u16) = cell" using assms(2) by (rule unat_word_of_small)
    show "iov_line (of_nat cell) \<lparr>iov_base = drop (idx + i * cell) buf, iov_len = ucast (entry_len short (ps ! i))\<rparr> = padded cell ?e"
      unfolding iov_line_def pad_line_def padded_def iovec.select_convs c u sz t ..
    have "length ?e \<le> length (drop (idx + i * cell) buf)" using arg_cong [OF t, of length] by simp
    then show "iov_ok (of_nat cell) \<lparr>iov_base = drop (idx + i * cell) buf, iov_len = ucast (entry_len short (ps ! i))\<rparr>"
      unfolding iov_ok_def iovec.select_convs c word_le_nat_alt u sz using p(2) by blast
  qed
  show "map (iov_line (of_nat cell)) (vector_of buf (positions short cell idx ps)) = map (\<lambda>p. padded cell (entry_of short p)) ps"
    by (rule nth_equalityI) (simp_all add: vector_of_def positions_def elem(1))
  show "\<forall>iov\<in>set (vector_of buf (positions short cell idx ps)). iov_ok (of_nat cell) iov"
    using elem(2) by (auto simp: vector_of_def positions_def)
qed

section \<open>The ring\<close>

text \<open>How many lines the ring takes: what was offered, limited by the free lines in front of every reader.\<close>

definition ring_room :: "shm_region \<Rightarrow> u8 \<Rightarrow> nat \<Rightarrow> nat" where
  "ring_room shm sid n = Min (insert (min (unat (g_line_count (global_hdr shm))) n)
     ((\<lambda>r. unat (g_line_count (global_hdr shm)) - 1 - length (pending (global_hdr shm) r (segment shm sid)))
       ` {..< unat (g_reader_count (global_hdr shm))}))"

lemma ring_room_le: "ring_room shm sid n \<le> n"
proof -
  have "ring_room shm sid n \<le> min (unat (g_line_count (global_hdr shm))) n"
    unfolding ring_room_def by (rule Min_le) simp_all
  then show ?thesis by simp
qed

text \<open>A thread that logs text to a ring whose lines have the size of its entries.\<close>

definition shm_thread :: "udp_setting \<Rightarrow> udp_thread \<Rightarrow> bool" where
  "shm_thread cfg t \<longleftrightarrow>
     (let g = us_globals cfg; shm = ut_shm t; sid = us_thread_id cfg in
      ug_ipc_type g = SHM \<and> \<not> ug_binary g
      \<and> (\<exists>a. us_rbuf_arg cfg = Some a \<and> w_segment_hdrs a \<and> sid < w_segment_count a)
      \<and> shm_wf shm \<and> sid < g_segment_count (global_hdr shm) \<and> \<not> g_overwrite (global_hdr shm)
      \<and> 0 < unat (g_reader_count (global_hdr shm)) \<and> unat (g_line_count (global_hdr shm)) \<le> 2 ^ 31
      \<and> g_line_size (global_hdr shm) = of_nat (logbuf_size g)
      \<and> length (ut_logstr_buf t) = MAX_MSG * logbuf_size g)"

lemma shm_threadE:
  assumes "shm_thread cfg t"
  obtains a where "us_rbuf_arg cfg = Some a" "w_segment_hdrs a" "us_thread_id cfg < w_segment_count a"
    "ug_ipc_type (us_globals cfg) = SHM" "\<not> ug_binary (us_globals cfg)" "shm_wf (ut_shm t)"
    "us_thread_id cfg < g_segment_count (global_hdr (ut_shm t))" "\<not> g_overwrite (global_hdr (ut_shm t))"
    "0 < unat (g_reader_count (global_hdr (ut_shm t)))" "unat (g_line_count (global_hdr (ut_shm t))) \<le> 2 ^ 31"
    "g_line_size (global_hdr (ut_shm t)) = of_nat (logbuf_size (us_globals cfg))"
    "length (ut_logstr_buf t) = MAX_MSG * logbuf_size (us_globals cfg)"
  using assms unfolding shm_thread_def Let_def by (elim conjE exE) (rule that; assumption)

lemma logbuf_size_bound: "logbuf_size g < 65536"
  by (simp add: logbuf_size_def log_sizes)

lemma shm_round_vector:
  assumes "shm_thread cfg t" and "re_packets env = Some ps" and "length ps \<le> MAX_MSG"
    and "\<forall>p\<in>set ps. packet_ok p \<and> (ug_logshort (us_globals cfg) \<or> v4_mapped (pk_addr p))"
  shows "\<exists>buf. log_lines (ug_logshort (us_globals cfg)) (logbuf_size (us_globals cfg)) ps 0 (ut_logstr_buf t) []
      = Some (buf, positions (ug_logshort (us_globals cfg)) (logbuf_size (us_globals cfg)) 0 ps)
    \<and> map (iov_line (of_nat (logbuf_size (us_globals cfg))))
        (vector_of buf (positions (ug_logshort (us_globals cfg)) (logbuf_size (us_globals cfg)) 0 ps))
      = map (\<lambda>p. padded (logbuf_size (us_globals cfg)) (entry_of (ug_logshort (us_globals cfg)) p)) ps
    \<and> (\<forall>iov\<in>set (vector_of buf (positions (ug_logshort (us_globals cfg)) (logbuf_size (us_globals cfg)) 0 ps)).
        iov_ok (of_nat (logbuf_size (us_globals cfg))) iov)"
proof -
  let ?g = "us_globals cfg"
  let ?short = "ug_logshort ?g" and ?n = "logbuf_size ?g"
  have fit: "\<forall>p\<in>set ps. packet_ok p \<and> length (entry_of ?short p) \<le> ?n"
    using assms(4) entry_fits_iff [of _ ?short] by (auto simp: logbuf_size_def)
  have "0 + length ps * ?n \<le> length (ut_logstr_buf t)"
    using assms(1,3) by (simp add: shm_thread_def Let_def)
  from log_lines_result [OF fit this, of "[]"] obtain buf where
    buf: "log_lines ?short ?n ps 0 (ut_logstr_buf t) [] = Some (buf, positions ?short ?n 0 ps)"
    "\<forall>i < length ps. take (length (entry_of ?short (ps ! i))) (drop (0 + i * ?n) buf) = entry_of ?short (ps ! i)"
    by auto
  from buf(1) vector_of_positions [OF fit logbuf_size_bound buf(2)] show ?thesis by blast
qed

lemma deliver_shm:
  assumes "ug_ipc_type (us_globals cfg) = SHM" and "\<not> ug_binary (us_globals cfg)"
    and "log_lines (ug_logshort (us_globals cfg)) (logbuf_size (us_globals cfg)) ps 0 (ut_logstr_buf t) [] = Some (buf, v)"
    and "v \<noteq> []"
    and "shmrbuf_writev (us_rbuf_arg cfg) (Some (vector_of buf v)) (of_nat (length v)) (us_thread_id cfg) (ut_shm t) = Some (r, shm')"
  shows "deliver cfg env ps t =
    (if r < 0 then Some (False, t\<lparr>ut_logstr_buf := buf, ut_shm := shm', ut_msg_drop := ut_msg_drop t + of_nat (length v)\<rparr>)
     else if r < int (length v)
     then Some (True, t\<lparr>ut_logstr_buf := buf, ut_shm := shm', ut_msg_drop := ut_msg_drop t + of_int (int (length v) - r),
       ut_msg_out := ut_msg_out t + of_int r\<rparr>)
     else Some (True, t\<lparr>ut_logstr_buf := buf, ut_shm := shm', ut_msg_out := ut_msg_out t + of_nat (length v)\<rparr>))"
  unfolding deliver_def Let_def assms(1) ipc_type_t.case assms(3)
  using assms(2,4,5) by (simp only: bind.simps prod.case if_False simp_thms)

lemma deliver_shm_written:
  assumes "ug_ipc_type (us_globals cfg) = SHM" and "\<not> ug_binary (us_globals cfg)"
    and "log_lines (ug_logshort (us_globals cfg)) (logbuf_size (us_globals cfg)) ps 0 (ut_logstr_buf t) [] = Some (buf, v)"
    and "v \<noteq> []"
    and "shmrbuf_writev (us_rbuf_arg cfg) (Some (vector_of buf v)) (of_nat (length v)) (us_thread_id cfg) (ut_shm t) = Some (int k, shm')"
    and "k \<le> length v"
  shows "\<exists>t'. deliver cfg env ps t = Some (True, t') \<and> ut_shm t' = shm' \<and> ut_pkt_in t' = ut_pkt_in t
    \<and> ut_msg_out t' = ut_msg_out t + of_nat k \<and> ut_msg_drop t' = ut_msg_drop t + of_nat (length v - k)"
  using assms(6) unfolding deliver_shm [OF assms(1-5)] by (cases "k = length v") (simp_all add: of_nat_diff)

lemma await_shm: "ug_ipc_type (us_globals cfg) = SHM \<Longrightarrow> await_write cfg env t = (True, t)"
  by (simp add: await_write_def split: option.split)

lemma udp_round_delivered:
  assumes "re_packets env = Some ps" and "await_write cfg env (t\<lparr>ut_pkt_in := ut_pkt_in t + of_nat (length ps)\<rparr>) = (True, t1)"
    and "deliver cfg env ps t1 = Some (ok, t2)"
  shows "\<exists>t'. udp_round cfg env t = Some (ok \<and> (re_sent env \<noteq> -1 \<or> re_send_retry env), t')
    \<and> ut_shm t' = ut_shm t2 \<and> ut_pkt_in t' = ut_pkt_in t2 \<and> ut_msg_out t' = ut_msg_out t2 \<and> ut_msg_drop t' = ut_msg_drop t2
    \<and> ut_file t' = ut_file t2 \<and> ut_fips t' = ut_fips t2"
  using assms by (simp add: udp_round_def)


definition log_region :: shm_region where
  "log_region = \<lparr>global_hdr = \<lparr>g_checksum = 0, g_segment_count = 1, g_reader_count = 1, g_line_size = 95, g_line_count = 4,
      g_overwrite = False, g_writer_att = True, g_reader_att = [True]\<rparr>,
    segments = [\<lparr>s_write_index = 0, s_read_index = [0], s_data = replicate 380 0\<rparr>]\<rparr>"

definition log_setting :: "ipc_type_t \<Rightarrow> udp_setting" where
  "log_setting ty = \<lparr>us_globals = (snd udp_defaults)\<lparr>ug_ipc_type := ty\<rparr>, us_thread_id = 0,
     us_rbuf_arg = Some (chan_writer\<lparr>w_segment_count := 1\<rparr>), us_segment = 0, us_line_size = 6\<rparr>"

definition log_packet :: "bytes \<Rightarrow> packet" where
  "log_packet addr = \<lparr>pk_addr = addr, pk_date = str_bytes ''13-May-2025 09:21:59'', pk_time = 0\<rparr>"

definition log_env :: "packet list \<Rightarrow> udp_env" where
  "log_env ps = \<lparr>re_packets = Some ps, re_recv_retry = True, re_cqe = 0, re_submit = 1, re_sent = int (length ps), re_send_retry = True\<rparr>"

definition client4 :: bytes where "client4 = replicate 10 0 @ [255, 255, 192, 0, 2, 1]"
definition client6 :: bytes where "client6 = [0x20, 1, 0xd, 0xb8] @ replicate 12 1"

lemma log_packet_ok: "packet_ok (log_packet client4)" "packet_ok (log_packet client6)"
    "v4_mapped (pk_addr (log_packet client4))" "\<not> v4_mapped (pk_addr (log_packet client6))"
  by (simp_all add: packet_ok_def log_packet_def client4_def client6_def log_sizes v4_mapped_def numeral_eq_Suc)

lemma log_thread: "shm_thread (log_setting SHM) (start_thread (us_globals (log_setting SHM)) log_region demo_shm)"
  by (simp add: shm_thread_def start_thread_def log_setting_def log_region_def udp_defaults_def logbuf_size_def log_sizes
      chan_writer_def wf_simps)

lemma log_region_room: "ring_room log_region 0 1 = 1"
  by (simp add: ring_room_def log_region_def pending_def ring_list_def lessThan_Suc)


lemma last_line_left:
  fixes wi lc :: u32
  assumes "unat wi < unat lc" and "\<not> wi < (wi + 1) mod lc"
  shows "lc - wi = 1"
proof -
  have "unat (wi + 1) = unat wi + 1"
    using assms(1) unat_u32_less [of lc] by (simp add: unat_word_ariths)
  then have "\<not> unat wi < (unat wi + 1) mod unat lc" using assms(2) by (simp add: word_less_nat_alt unat_mod)
  then have "unat lc = unat wi + 1" using assms(1) by (cases "unat wi + 1 < unat lc") simp_all
  then have "unat (lc - wi) = 1" using assms(1) by (simp add: unat_sub word_le_nat_alt)
  then show ?thesis by (simp add: word_unat_eq_iff)
qed

lemma copy_one_too_long:
  assumes "unat wi < unat lc" and "ls < ucast (iov_len iov)"
  shows "copy_lines ls lc wi [iov] 1 m = Some (False, m)"
proof -
  have put: "put_lines ls [iov] off (Suc 0) m = Some (False, m)" for off
    using assms(2) by (simp add: Let_def)
  show ?thesis
  proof (cases "wi < (wi + 1) mod lc")
    case True
    then show ?thesis using put by (simp add: copy_lines_def)
  next
    case False
    then show ?thesis using put by (simp add: copy_lines_def last_line_left [OF assms(1) False] Let_def)
  qed
qed

lemma writev_too_long:
  assumes wf: "shm_wf shm" and sid: "sid < g_segment_count (global_hdr shm)"
    and a: "w_segment_hdrs a" "sid < w_segment_count a"
    and mode: "\<not> g_overwrite (global_hdr shm)"
    and room: "0 < ring_room shm sid 1" and long: "g_line_size (global_hdr shm) < ucast (iov_len iov)"
  shows "shmrbuf_writev (Some a) (Some [iov]) 1 sid shm = Some (IO_IPC_SIZE_ERR, shm)"
proof -
  let ?g = "global_hdr shm" and ?seg = "segment shm sid"
  note seg = shm_wf_segment [OF wf sid]
  define vs where "vs = limit_vsize (g_line_count ?g) (s_write_index ?seg)
    (take (unat (g_reader_count ?g)) (s_read_index ?seg))
    (if g_line_count ?g < ucast (1 :: u16) then ucast (g_line_count ?g) else 1)"
  have "unat vs = ring_room shm sid 1"
    unfolding vs_def ring_room_def using unat_writev_count [OF seg(2), of "1 :: u16"] by (simp only: unat_1)
  then have vs: "vs = 1" using room ring_room_le [of shm sid 1] by (simp add: word_unat_eq_iff)
  have wi: "unat (s_write_index ?seg) < unat (g_line_count ?g)" using seg(2) by (simp add: seg_wf_def)
  then have lc0: "g_line_count ?g \<noteq> 0" by auto
  have "\<not> w_segment_count a \<le> sid" using a(2) by simp
  moreover have "shm\<lparr>segments := (segments shm)[unat sid := ?seg\<lparr>s_data := s_data ?seg\<rparr>]\<rparr> = shm" by simp
  ultimately show ?thesis
    unfolding shmrbuf_writev_def Let_def
    using a(1) seg(1) mode lc0 copy_one_too_long [OF wi long, of "s_data ?seg"]
    by (simp only: nth_opt_simps prod.case option.case bind.simps vs_def [symmetric] vs if_False if_True simp_thms
        unat_eq_zero zero_neq_one not_False_eq_True one_neq_zero)
qed

text \<open>C34. One IPv6 client stops a listener thread: the size of an entry is computed from a shorter date format and
  without the character behind the address, so the long entry of an IPv6 client has 97 bytes where the lines of the
  ring have 95. The vectored write refuses it, the thread counts the packet as dropped and returns
  \<open>RETURN_FAIL\<close>, whatever comes after.\<close>

theorem udp_ipv6_stops_listener:
  assumes "shm_thread cfg t" and "\<not> ug_logshort (us_globals cfg)" and "re_packets env = Some [p]"
    and "packet_ok p" and "\<not> v4_mapped (pk_addr p)" and "0 < ring_room (ut_shm t) (us_thread_id cfg) 1"
  shows "\<exists>t'. listen_and_reply cfg (env # envs) t = Some (RETURN_FAIL, t') \<and> ut_shm t' = ut_shm t
    \<and> ut_msg_out t' = ut_msg_out t \<and> ut_msg_drop t' = ut_msg_drop t + 1"
proof -
  obtain a where a: "us_rbuf_arg cfg = Some a" "w_segment_hdrs a" "us_thread_id cfg < w_segment_count a"
    and c: "ug_ipc_type (us_globals cfg) = SHM" "\<not> ug_binary (us_globals cfg)" "shm_wf (ut_shm t)"
      "us_thread_id cfg < g_segment_count (global_hdr (ut_shm t))" "\<not> g_overwrite (global_hdr (ut_shm t))"
      "g_line_size (global_hdr (ut_shm t)) = of_nat (logbuf_size (us_globals cfg))"
      "length (ut_logstr_buf t) = MAX_MSG * logbuf_size (us_globals cfg)"
    by (rule shm_threadE [OF assms(1)]) (rule that; assumption)
  have n: "logbuf_size (us_globals cfg) = 95" using assms(2) by (simp add: logbuf_size_def log_sizes)
  have len: "length (entry_of False p) = 97"
    using entry_size(3) [OF assms(4), of False] addr_text_size(3) [of "pk_addr p"] assms(4,5)
    by (cases "addr_text (pk_addr p)") (simp add: packet_ok_def)
  have el: "unat (entry_len False p) = 97" using entry_size(1) [OF assms(4), of False] len by simp
  obtain buf where buf: "mem_write (ut_logstr_buf t) 0 (entry_of False p) = Some buf"
    using c(7) len n by (simp add: mem_write_def MAX_MSG_def)
  have ll: "log_lines False 95 [p] 0 (ut_logstr_buf t) [] = Some (buf, [(0, entry_len False p)])"
    using buf entry_len_pos [OF assms(4), of False] by (simp add: split_beta)
  have long: "g_line_size (global_hdr (ut_shm t)) < ucast (ucast (entry_len False p) :: u64)"
  proof -
    have "(ucast (ucast (entry_len False p) :: u64) :: u16) = entry_len False p" by (rule bit_word_eqI) (simp add: bit_simps)
    then show ?thesis unfolding c(6) n word_less_nat_alt using el by simp
  qed
  let ?t1 = "t\<lparr>ut_pkt_in := ut_pkt_in t + of_nat (length [p])\<rparr>"
  have w: "shmrbuf_writev (us_rbuf_arg cfg) (Some (vector_of buf [(0, entry_len False p)])) (of_nat (length [(0 :: nat, entry_len False p)]))
      (us_thread_id cfg) (ut_shm ?t1) = Some (IO_IPC_SIZE_ERR, ut_shm t)"
    using writev_too_long [OF c(3,4) a(2,3) c(5) assms(6), of "\<lparr>iov_base = drop 0 buf, iov_len = ucast (entry_len False p)\<rparr>"] long
    by (simp add: vector_of_def a(1))
  have "deliver cfg env [p] ?t1 = Some (False, ?t1\<lparr>ut_logstr_buf := buf, ut_msg_drop := ut_msg_drop t + 1\<rparr>)"
    using deliver_shm [OF c(1,2) _ _ w, of "[p]" env] ll n assms(2) by (simp add: IO_IPC_SIZE_ERR_def)
  then show ?thesis using assms(3) await_shm [OF c(1)] by (simp add: udp_round_def)
qed

theorem udp_ipv6_stops_listener_witness:
  "\<exists>t'. listen_and_reply (log_setting SHM) [log_env [log_packet client6], log_env [log_packet client4]]
      (start_thread (us_globals (log_setting SHM)) log_region demo_shm) = Some (RETURN_FAIL, t') \<and> ut_msg_out t' = 0"
proof -
  let ?cfg = "log_setting SHM" and ?env = "log_env [log_packet client6]"
  let ?t = "start_thread (us_globals ?cfg) log_region demo_shm"
  have h: "\<not> ug_logshort (us_globals ?cfg)" "re_packets ?env = Some [log_packet client6]"
    "0 < ring_room (ut_shm ?t) (us_thread_id ?cfg) 1" "ut_msg_out ?t = 0"
    using log_region_room by (simp_all add: start_thread_def log_setting_def udp_defaults_def log_env_def)
  show ?thesis
    using udp_ipv6_stops_listener [OF log_thread h(1,2) log_packet_ok(2,4) h(3), of "[log_env [log_packet client4]]"] h(4) by auto
qed

section \<open>The zero-copy buffer\<close>

lemma log_fips_one:
  assumes "1 < fl_available_iovs l" and "fl_iovs l = v # vs" and "sg < length (fb_segments (fl_shm l))"
    and "mem_write (seg_data (fb_segments (fl_shm l) ! sg)) (fv_pos v) (entry_of short p) = Some d" and "packet_ok p"
  shows "log_fips ls sg False short [p] (0, 0, l) = Some (1, 1, l\<lparr>fl_available_iovs := fl_available_iovs l - 1,
      fl_shm := (fl_shm l)\<lparr>fb_segments := (fb_segments (fl_shm l))[sg := (fb_segments (fl_shm l) ! sg)\<lparr>seg_data := d\<rparr>]\<rparr>,
      fl_iovs := v\<lparr>fv_len := ucast (entry_len short p)\<rparr> # vs\<rparr>)"
proof -
  have "nth_opt (v # vs) 0 = Some v" by (simp add: nth_opt_def)
  then show ?thesis
    using assms entry_len_pos [OF assms(5), of short]
    by (simp add: log_fips_packet_def store_data_def commit_buffers_def split_beta)
qed

lemma await_fips: "ug_ipc_type (us_globals cfg) = FIPS \<Longrightarrow> await_write cfg env t = (True, t)"
  by (simp add: await_write_def split: option.split)

text \<open>A round with one packet while buffers are left.\<close>

lemma fips_round_one:
  assumes "ug_ipc_type (us_globals cfg) = FIPS" and "\<not> ug_binary (us_globals cfg)" and "re_packets env = Some [p]"
    and "re_sent env \<noteq> -1" and "packet_ok p" and "1 < fl_available_iovs (ut_fips t)" and "fl_iovs (ut_fips t) = v # vs"
    and "us_segment cfg < length (fb_segments (fl_shm (ut_fips t)))"
    and "mem_write (seg_data (fb_segments (fl_shm (ut_fips t)) ! us_segment cfg)) (fv_pos v)
      (entry_of (ug_logshort (us_globals cfg)) p) = Some d"
  shows "\<exists>t'. udp_round cfg env t = Some (True, t') \<and> ut_msg_out t' = ut_msg_out t + 1
    \<and> fl_available_iovs (ut_fips t') = fl_available_iovs (ut_fips t) - 1
    \<and> fl_iovs (ut_fips t') = v\<lparr>fv_len := ucast (entry_len (ug_logshort (us_globals cfg)) p)\<rparr> # vs
    \<and> fl_shm (ut_fips t') = (fl_shm (ut_fips t))\<lparr>fb_segments := (fb_segments (fl_shm (ut_fips t)))[us_segment cfg :=
        (fb_segments (fl_shm (ut_fips t)) ! us_segment cfg)\<lparr>seg_data := d\<rparr>]\<rparr>"
proof -
  let ?t1 = "t\<lparr>ut_pkt_in := ut_pkt_in t + of_nat (length [p])\<rparr>"
  obtain t2 where d: "deliver cfg env [p] ?t1 = Some (True, t2)" "ut_msg_out t2 = ut_msg_out t + 1"
    "ut_fips t2 = (ut_fips t)\<lparr>fl_available_iovs := fl_available_iovs (ut_fips t) - 1,
      fl_shm := (fl_shm (ut_fips t))\<lparr>fb_segments := (fb_segments (fl_shm (ut_fips t)))[us_segment cfg :=
        (fb_segments (fl_shm (ut_fips t)) ! us_segment cfg)\<lparr>seg_data := d\<rparr>]\<rparr>,
      fl_iovs := v\<lparr>fv_len := ucast (entry_len (ug_logshort (us_globals cfg)) p)\<rparr> # vs\<rparr>"
    using log_fips_one [OF assms(6-9,5), of "us_line_size cfg"] assms(1,2)
    by (simp add: deliver_def Let_def del: log_fips.simps)
  from udp_round_delivered [OF assms(3) await_fips [OF assms(1)] d(1)] assms(4) d(2,3) show ?thesis by auto
qed

text \<open>C35. Entries are lost in the zero-copy buffer: the position in the claimed vector starts at zero in every
  round, while the number of claimed buffers is kept. When a round receives one packet and the next round another,
  with buffers left, the second entry is written over the first: the shared memory and the vector are what they
  would be without the first packet, but two entries are counted as logged and two buffers as used.\<close>

theorem udp_fips_overwrites:
  assumes "ug_ipc_type (us_globals cfg) = FIPS" and "\<not> ug_binary (us_globals cfg)"
    and "re_packets env = Some [p]" "re_sent env \<noteq> -1" "packet_ok p"
    and "re_packets env' = Some [q]" "re_sent env' \<noteq> -1" "packet_ok q"
    and "2 < fl_available_iovs (ut_fips t)" and "fl_iovs (ut_fips t) = v # vs"
    and "us_segment cfg < length (fb_segments (fl_shm (ut_fips t)))"
    and "length (entry_of (ug_logshort (us_globals cfg)) p) \<le> length (entry_of (ug_logshort (us_globals cfg)) q)"
    and "fv_pos v + length (entry_of (ug_logshort (us_globals cfg)) q)
      \<le> length (seg_data (fb_segments (fl_shm (ut_fips t)) ! us_segment cfg))"
  shows "\<exists>t1 t2. listen_and_reply cfg [env, env'] t = Some (RETURN_SUC, t1)
    \<and> listen_and_reply cfg [env'] t = Some (RETURN_SUC, t2)
    \<and> fl_shm (ut_fips t1) = fl_shm (ut_fips t2) \<and> fl_iovs (ut_fips t1) = fl_iovs (ut_fips t2)
    \<and> ut_msg_out t1 = ut_msg_out t + 2 \<and> fl_available_iovs (ut_fips t1) = fl_available_iovs (ut_fips t) - 2"
proof -
  let ?sg = "us_segment cfg" and ?short = "ug_logshort (us_globals cfg)" and ?l = "ut_fips t"
  let ?seg = "fb_segments (fl_shm ?l) ! ?sg"
  let ?d = "seg_data ?seg" and ?p = "fv_pos v"
  have fits: "?p + length (entry_of ?short p) \<le> length ?d" using assms(12,13) by linarith
  define d1 where "d1 = take ?p ?d @ entry_of ?short p @ drop (?p + length (entry_of ?short p)) ?d"
  define d2 where "d2 = take ?p ?d @ entry_of ?short q @ drop (?p + length (entry_of ?short q)) ?d"
  have m1: "mem_write ?d ?p (entry_of ?short p) = Some d1" using fits by (simp add: d1_def)
  have m2: "mem_write ?d ?p (entry_of ?short q) = Some d2" using assms(13) by (simp add: d2_def)
  have m3: "mem_write d1 ?p (entry_of ?short q) = Some d2"
    using assms(12,13) fits by (simp add: mem_write_def d1_def d2_def min_absorb1 add.commute)
  have one: "1 < fl_available_iovs ?l" using assms(9) by simp
  obtain ta where ta: "udp_round cfg env t = Some (True, ta)" "ut_msg_out ta = ut_msg_out t + 1"
    "fl_available_iovs (ut_fips ta) = fl_available_iovs ?l - 1"
    "fl_iovs (ut_fips ta) = v\<lparr>fv_len := ucast (entry_len ?short p)\<rparr> # vs"
    "fl_shm (ut_fips ta) = (fl_shm ?l)\<lparr>fb_segments := (fb_segments (fl_shm ?l))[?sg := ?seg\<lparr>seg_data := d1\<rparr>]\<rparr>"
    using fips_round_one [OF assms(1-5) one assms(10,11) m1] by blast
  obtain tb where tb: "udp_round cfg env' t = Some (True, tb)"
    "fl_iovs (ut_fips tb) = v\<lparr>fv_len := ucast (entry_len ?short q)\<rparr> # vs"
    "fl_shm (ut_fips tb) = (fl_shm ?l)\<lparr>fb_segments := (fb_segments (fl_shm ?l))[?sg := ?seg\<lparr>seg_data := d2\<rparr>]\<rparr>"
    using fips_round_one [OF assms(1,2,6-8) one assms(10,11) m2] by blast
  have sga: "fb_segments (fl_shm (ut_fips ta)) ! ?sg = ?seg\<lparr>seg_data := d1\<rparr>" "?sg < length (fb_segments (fl_shm (ut_fips ta)))"
    unfolding ta(5) using assms(11) by simp_all
  have onea: "1 < fl_available_iovs (ut_fips ta)" using ta(3) assms(9) by simp
  have m3': "mem_write (seg_data (fb_segments (fl_shm (ut_fips ta)) ! ?sg)) (fv_pos (v\<lparr>fv_len := ucast (entry_len ?short p)\<rparr>))
      (entry_of ?short q) = Some d2"
    unfolding sga(1) using m3 by simp
  obtain tc where tc: "udp_round cfg env' ta = Some (True, tc)" "ut_msg_out tc = ut_msg_out ta + 1"
    "fl_available_iovs (ut_fips tc) = fl_available_iovs (ut_fips ta) - 1"
    "fl_iovs (ut_fips tc) = v\<lparr>fv_len := ucast (entry_len ?short p), fv_len := ucast (entry_len ?short q)\<rparr> # vs"
    "fl_shm (ut_fips tc) = (fl_shm (ut_fips ta))\<lparr>fb_segments := (fb_segments (fl_shm (ut_fips ta)))[?sg :=
        (fb_segments (fl_shm (ut_fips ta)) ! ?sg)\<lparr>seg_data := d2\<rparr>]\<rparr>"
    using fips_round_one [OF assms(1,2,6-8) onea ta(4) sga(2) m3'] by blast
  have "fl_shm (ut_fips tc) = fl_shm (ut_fips tb)" unfolding tc(5) sga(1) unfolding ta(5) tb(3) by simp
  moreover have "fl_iovs (ut_fips tc) = fl_iovs (ut_fips tb)" unfolding tc(4) tb(2) by simp
  moreover have "listen_and_reply cfg [env, env'] t = Some (RETURN_SUC, tc)" "listen_and_reply cfg [env'] t = Some (RETURN_SUC, tb)"
    using ta(1) tb(1) tc(1) by simp_all
  moreover have "ut_msg_out tc = ut_msg_out t + 2" "fl_available_iovs (ut_fips tc) = fl_available_iovs ?l - 2"
    using ta(2,3) tc(2,3) by simp_all
  ultimately show ?thesis by blast
qed

definition claimed_thread :: udp_thread where
  "claimed_thread = (start_thread (us_globals (log_setting FIPS)) log_region demo_shm)
     \<lparr>ut_fips := \<lparr>fl_available_iovs = 4, fl_iovs = [\<lparr>fv_pos = 2, fv_len = 6\<rparr>],
        fl_shm = demo_shm\<lparr>fb_segments := [(fb_segments demo_shm ! 0)\<lparr>seg_data := replicate 300 0\<rparr>]\<rparr>\<rparr>\<rparr>"

theorem udp_fips_overwrites_witness:
  "\<exists>t1 t2. listen_and_reply (log_setting FIPS) [log_env [log_packet client4], log_env [log_packet client6]] claimed_thread
      = Some (RETURN_SUC, t1)
    \<and> listen_and_reply (log_setting FIPS) [log_env [log_packet client6]] claimed_thread = Some (RETURN_SUC, t2)
    \<and> fl_shm (ut_fips t1) = fl_shm (ut_fips t2) \<and> ut_msg_out t1 = 2"
proof -
  let ?cfg = "log_setting FIPS" and ?e = "log_env [log_packet client4]" and ?e' = "log_env [log_packet client6]"
  have h: "ug_ipc_type (us_globals ?cfg) = FIPS" "\<not> ug_binary (us_globals ?cfg)" "re_packets ?e = Some [log_packet client4]"
    "re_sent ?e \<noteq> -1" "re_packets ?e' = Some [log_packet client6]" "re_sent ?e' \<noteq> -1"
    "2 < fl_available_iovs (ut_fips claimed_thread)" "fl_iovs (ut_fips claimed_thread) = \<lparr>fv_pos = 2, fv_len = 6\<rparr> # []"
    "us_segment ?cfg < length (fb_segments (fl_shm (ut_fips claimed_thread)))"
    by (simp_all add: log_setting_def udp_defaults_def log_env_def claimed_thread_def)
  have e4: "length (entry_of (ug_logshort (us_globals ?cfg)) (log_packet client4)) \<le> 73"
    using entry_size(3) [OF log_packet_ok(1), of "ug_logshort (us_globals ?cfg)"] addr_text_size(2) [OF _ prod.collapse [symmetric], of client4]
      log_packet_ok(3) by (simp add: log_packet_def client4_def split: if_splits)
  have e6: "length (entry_of (ug_logshort (us_globals ?cfg)) (log_packet client6)) = 97"
    using entry_size(3) [OF log_packet_ok(2), of "ug_logshort (us_globals ?cfg)"] addr_text_size(3) [OF _ prod.collapse [symmetric], of client6]
      log_packet_ok(4) by (simp add: log_packet_def client6_def log_setting_def udp_defaults_def)
  have fit: "fv_pos \<lparr>fv_pos = 2, fv_len = 6\<rparr> + length (entry_of (ug_logshort (us_globals ?cfg)) (log_packet client6))
      \<le> length (seg_data (fb_segments (fl_shm (ut_fips claimed_thread)) ! us_segment ?cfg))"
    unfolding e6 by (simp add: claimed_thread_def log_setting_def)
  have le: "length (entry_of (ug_logshort (us_globals ?cfg)) (log_packet client4))
      \<le> length (entry_of (ug_logshort (us_globals ?cfg)) (log_packet client6))" using e4 e6 by linarith
  have "ut_msg_out claimed_thread = 0" by (simp add: claimed_thread_def start_thread_def)
  with udp_fips_overwrites [OF h(1-4) log_packet_ok(1) h(5,6) log_packet_ok(2) h(7-9) le fit] show ?thesis by auto
qed

end
