(* ===== verification/Udp_Main.thy ===== *)
theory Udp_Main
  imports Udp_Props Shm_Setup
begin

text \<open>
  Start and end of the logging server \<open>src/programs/udp_server.c\<close>: \<open>run_socket\<close>, \<open>ipc_cleanup\<close>, and \<open>main\<close> from the options to
  the creation of the threads. What the system calls return is an environment; of the sockets the model counts those that
  are open. The theorem joins the options, the set-up of the ring and the state a listener needs.
\<close>

section \<open>A listener thread\<close>

record socket_env =
  so_socket :: int
  so_reuseport :: int
  so_timeout :: int
  so_bind :: int

text \<open>The results: the return code, the number of sockets left open, and the state of the thread.\<close>

definition run_socket :: "socket_env \<Rightarrow> udp_setting \<Rightarrow> udp_env list \<Rightarrow> udp_thread \<Rightarrow> (int \<times> nat \<times> udp_thread) option" where
  "run_socket env cfg envs t =
     (if so_socket env = -1 then Some (RETURN_FAIL, 0, t)
      else let sockets = (1 :: nat) in
        if so_reuseport env = -1 then Some (RETURN_FAIL, sockets - 1, t)
        else if so_timeout env = -1 then Some (RETURN_FAIL, sockets - 1, t)
        else if so_bind env = -1 then Some (RETURN_FAIL, sockets - 1, t)
        else do {
          (r, t') \<leftarrow> listen_and_reply cfg envs t;
          Some (if r \<noteq> 0 then RETURN_FAIL else RETURN_SUC, sockets - 1, t')
        })"

section \<open>Handles\<close>

text \<open>The member \<open>ipc_arg\<close> of a thread; for a file with \<open>io_uring\<close> whether its ring was initialised.\<close>

datatype udp_handle = No_Handle | Posix_Handle | Disk_Handle bool | Shm_Handle | Fips_Handle

text \<open>\<open>io_uring_queue_exit\<close> on a ring that was not initialised is undefined.\<close>

definition ipc_cleanup :: "shm_env \<Rightarrow> int \<Rightarrow> ipc_type_t \<Rightarrow> shmrbuf_writer_arg_t option \<Rightarrow> udp_handle list \<Rightarrow> shm_os \<Rightarrow>
    (int \<times> udp_handle list \<times> shm_os) option" where
  "ipc_cleanup env closed ty w hs os =
     (case hs of
        [] \<Rightarrow> None
      | h # _ \<Rightarrow>
          (case ty of
             DISK \<Rightarrow>
               if Disk_Handle False \<in> set hs then None
               else Some (if h \<noteq> No_Handle then closed else IO_IPC_NULLPTR_ERR, map (\<lambda>_. No_Handle) hs, os)
           | SHM \<Rightarrow>
               if h = No_Handle then Some (IO_IPC_NULLPTR_ERR, hs, os)
               else map_option (\<lambda>(retval, _, os'). (retval, map (\<lambda>_. No_Handle) hs, os')) (shmrbuf_finalize_writer env w os)
           | _ \<Rightarrow> Some (IO_IPC_ARG_ERR, hs, os)))"

section \<open>Start\<close>

record udp_main_env =
  um_calloc :: bool
  um_fopen :: bool
  um_open :: int
  um_disk :: "nat \<Rightarrow> bool \<times> int"
  um_close :: int
  um_shm_calloc :: bool
  um_shm :: shm_env
  um_fips :: int
  um_date :: int
  um_util :: int

text \<open>The loop over the threads of the variant with \<open>io_uring\<close>: for each the result of the allocation and of
  \<open>io_uring_queue_init\<close>. The flag is \<open>False\<close> when the loop ends in the clean-up.\<close>

fun disk_handles :: "(nat \<Rightarrow> bool \<times> int) \<Rightarrow> nat \<Rightarrow> nat \<Rightarrow> bool \<times> udp_handle list" where
  "disk_handles disk i 0 = (True, [])"
| "disk_handles disk i (Suc n) =
     (case disk i of (calloc_ok, queue) \<Rightarrow>
        if \<not> calloc_ok then (False, replicate (Suc n) No_Handle)
        else if queue \<noteq> 0 then (False, Disk_Handle False # replicate n No_Handle)
        else (case disk_handles disk (i + 1) n of (ok, hs) \<Rightarrow> (ok, Disk_Handle True # hs)))"

datatype udp_started = Udp_Exit shm_os | Udp_Running "udp_handle list" "shmrbuf_writer_arg_t option" shm_os

text \<open>The part behind the \<open>switch\<close>; the clean-up runs before the program ends.\<close>

definition udp_finish :: "udp_main_env \<Rightarrow> udp_globals \<Rightarrow> shmrbuf_writer_arg_t option \<Rightarrow> udp_handle list \<Rightarrow> shm_os \<Rightarrow> udp_started option" where
  "udp_finish env g w hs os =
     (if um_date env = RETURN_FAIL \<or> um_util env \<noteq> 0
      then map_option (\<lambda>(_, _, os'). Udp_Exit os') (ipc_cleanup (um_shm env) (um_close env) (ug_ipc_type g) w hs os)
      else Some (Udp_Running hs w os))"

definition udp_start :: "udp_main_env \<Rightarrow> udp_arguments \<times> udp_globals \<Rightarrow> shm_os \<Rightarrow> udp_started option" where
  "udp_start env ag os =
     (case ag of (a, g) \<Rightarrow>
        let n = unat (ug_thread_count g) in
        if \<not> um_calloc env then Some (Udp_Exit os)
        else case ug_ipc_type g of
          POSIX_IO \<Rightarrow>
            if \<not> um_fopen env then Some (Udp_Exit os) else udp_finish env g None (replicate n Posix_Handle) os
        | DISK \<Rightarrow>
            if um_open env < 0 then Some (Udp_Exit os)
            else (case disk_handles (um_disk env) 0 n of
                    (True, hs) \<Rightarrow> udp_finish env g None hs os
                  | (False, hs) \<Rightarrow>
                      map_option (\<lambda>(_, _, os'). Udp_Exit os') (ipc_cleanup (um_shm env) (um_close env) DISK None hs os))
        | SHM \<Rightarrow>
            if \<not> um_shm_calloc env then Some (Udp_Exit os)
            else (case shmrbuf_init_writer (um_shm env) (ring_parameters a g) os of
                    (retval, w, os') \<Rightarrow>
                      if retval \<noteq> IO_IPC_SUCCESS then Some (Udp_Exit os')
                      else udp_finish env g (Some w) (replicate n Shm_Handle) os')
        | FIPS \<Rightarrow>
            if um_fips env \<noteq> 0 then Some (Udp_Exit os) else udp_finish env g None (replicate n Fips_Handle) os)"

section \<open>Properties\<close>

text \<open>No listener leaves a socket open.\<close>

lemma run_socket_closes: "run_socket env cfg envs t = Some (r, n, t') \<Longrightarrow> n = 0"
  by (auto simp: run_socket_def Let_def bind_eq_Some_conv split: if_splits)

text \<open>When the ring of a thread cannot be initialised, the clean-up exits this ring too.\<close>

lemma disk_handles_failure:
  "i < n \<Longrightarrow> \<forall>j < i. d (k + j) = (True, 0) \<Longrightarrow> d (k + i) = (True, q) \<Longrightarrow> q \<noteq> 0 \<Longrightarrow>
     \<exists>hs. disk_handles d k n = (False, hs) \<and> Disk_Handle False \<in> set hs"
proof (induction n arbitrary: i k)
  case 0
  then show ?case by simp
next
  case (Suc n)
  show ?case
  proof (cases i)
    case 0
    then show ?thesis using Suc.prems by simp
  next
    case (Suc i')
    have "d k = (True, 0)" using Suc.prems(2) [rule_format, of 0] Suc by simp
    moreover have "d (Suc k + j) = (True, 0)" if "j < i'" for j using Suc.prems(2) [rule_format, of "Suc j"] that Suc by simp
    ultimately show ?thesis using Suc.IH [of i' "Suc k"] Suc.prems Suc by auto
  qed
qed

lemma udp_ring_failure_undefined:
  assumes "um_calloc env" and "ug_ipc_type g = DISK" and "0 \<le> um_open env" and "i < unat (ug_thread_count g)"
    and "\<forall>j < i. um_disk env j = (True, 0)" and "um_disk env i = (True, q)" and "q \<noteq> 0"
  shows "udp_start env (a, g) os = None"
proof -
  obtain hs where hs: "disk_handles (um_disk env) 0 (unat (ug_thread_count g)) = (False, hs)" "Disk_Handle False \<in> set hs"
    using disk_handles_failure [of i "unat (ug_thread_count g)" "um_disk env" 0 q] assms(4-7) by auto
  then obtain h hs' where "hs = h # hs'" by (cases hs) auto
  then have "ipc_cleanup (um_shm env) (um_close env) DISK None hs os = None" using hs(2) by (simp add: ipc_cleanup_def)
  then show ?thesis using assms(1-3) hs(1) by (simp add: udp_start_def Let_def)
qed

text \<open>What the options guarantee, on a machine with at most 255 processors.\<close>

definition udp_opts_ok :: "udp_arguments \<times> udp_globals \<Rightarrow> bool" where
  "udp_opts_ok ag \<longleftrightarrow> (case ag of (a, g) \<Rightarrow> ug_thread_count g \<noteq> 0 \<and> (ug_ipc_type g = SHM \<longrightarrow> ua_shm_key a \<noteq> None))"

lemma parse_opt_keeps:
  assumes "0 < nprocs" and "nprocs < 256" and "udp_opts_ok ag" and "parse_opt nprocs stat_ok key ag = Opt_Parsed ag'"
  shows "udp_opts_ok ag'"
proof -
  obtain a g where ag: "ag = (a, g)" by (cases ag)
  have threads: "listener_threads nprocs arg \<noteq> 0" for arg
  proof -
    have "(word_of_int nprocs :: u8) \<noteq> 0"
      using assms(1,2) by (simp add: word_of_int_eq_0_iff zdvd_not_zless)
    then show ?thesis by (simp add: listener_threads_def Let_def split: option.split)
  qed
  show ?thesis
    using assms(3,4) threads unfolding ag
    by (cases key) (auto simp: parse_opt_def opt_ipc_def set_logfile_def udp_opts_ok_def Let_def split: if_splits option.splits)
qed

lemma parse_opts_ok:
  assumes "0 < nprocs" and "nprocs < 256"
  shows "parse_opts nprocs stat_ok keys ag = Opt_Parsed ag' \<Longrightarrow> udp_opts_ok ag \<Longrightarrow> udp_opts_ok ag'"
proof (induction keys arbitrary: ag)
  case Nil
  then show ?case by simp
next
  case (Cons k keys)
  then obtain ag1 where "parse_opt nprocs stat_ok k ag = Opt_Parsed ag1" "parse_opts nprocs stat_ok keys ag1 = Opt_Parsed ag'"
    by (auto split: udp_parsed.splits)
  with Cons parse_opt_keeps [OF assms] show ?case by blast
qed

lemma udp_defaults_ok: "udp_opts_ok udp_defaults"
  by (simp add: udp_opts_ok_def udp_defaults_def NTHREADS_def)


definition quiet_main :: udp_main_env where
  "quiet_main = \<lparr>um_calloc = True, um_fopen = True, um_open = 3, um_disk = (\<lambda>_. (True, 0)), um_close = 0, um_shm_calloc = True,
     um_shm = good_env, um_fips = 0, um_date = 1747120919, um_util = 0\<rparr>"


end
