(* ===== verification/Log_Trip.thy ===== *)
theory Log_Trip
  imports Udp_Props
begin

text \<open>
  From the logging server to the ban program: a line that \<open>udp_server\<close> puts into the ring for an IPv4 client is
  read by \<open>get_lines_ipc\<close>, its newline cut, and \<open>parse_str\<close> finds the address of the client in it. The pattern
  matcher and \<open>inet_pton\<close> are parameters: the matcher reports the word \<open>client\<close> and the address with the
  character behind it, \<open>inet_pton\<close> reads the dotted decimal form.

  The second part is the binary form: what \<open>logstr_bin_long\<close> stores is the message \<open>ban_clients\<close> of the binary
  variant works on.
\<close>

section \<open>Text\<close>

lemma hex_digit_nonzero: "d < 16 \<Longrightarrow> hex_digit d \<noteq> CHR 0x00 \<and> hex_digit d \<noteq> CHR 0x0A"
proof -
  have "list_all (\<lambda>d. hex_digit d \<noteq> CHR 0x00 \<and> hex_digit d \<noteq> CHR 0x0A) [0 ..< 16]" by code_simp
  then show "d < 16 \<Longrightarrow> ?thesis" by (simp add: list_all_iff)
qed

lemma dec_map_nonzero:
  assumes "c < 256" and "x \<in> set (dec_map c)"
  shows "x \<noteq> CHR 0x00"
proof -
  have d: "c div 100 < 16" "c div 10 mod 10 < 16" "c mod 10 < 16" using assms(1) by simp_all
  have "c < 100 \<Longrightarrow> c div 10 < 16" by simp
  moreover have "c < 10 \<Longrightarrow> c < 16" by simp
  ultimately show ?thesis using assms(2) hex_digit_nonzero [OF d(1)] hex_digit_nonzero [OF d(2)] hex_digit_nonzero [OF d(3)]
      hex_digit_nonzero [of "c div 10"] hex_digit_nonzero [of c]
    by (auto simp: dec_map_def split: if_splits)
qed

lemma v4_loop_nonzero: "x \<in> set (v4_loop i src) \<Longrightarrow> x \<noteq> CHR 0x00"
  by (induction i src rule: v4_loop.induct)
    (auto simp: v4_octet_dec split: if_splits dest: dec_map_nonzero [OF unat_u8_less])

lemma of_char_zero: "(of_char x :: u8) = 0 \<longleftrightarrow> x = CHR 0x00"
  by (cases x) (auto simp: of_char_def)

lemma str_bytes_nonzero: "(0 :: u8) \<in> set (str_bytes s) \<longleftrightarrow> CHR 0x00 \<in> set s"
  by (auto simp: str_bytes_def of_char_zero image_iff)

lemma addr_text_nonzero:
  assumes "v4_mapped addr"
  shows "0 \<notin> set (snd (addr_text addr))"
  using assms v4_loop_nonzero by (auto simp: addr_text_def str_bytes_nonzero ipv4_to_str_def Let_def)

text \<open>Reading cuts the newline at the end of the entry.\<close>

lemma cut_newline_zeros: "cut_newline (length xs + n) (xs @ replicate n 0 @ zs) = cut_newline (length xs) (xs @ replicate n 0 @ zs)"
proof (induction n arbitrary: zs)
  case 0
  then show ?case by simp
next
  case (Suc n)
  have "xs @ replicate (Suc n) 0 @ zs = xs @ replicate n 0 @ (0 # zs)"
    by (simp add: replicate_app_Cons_same)
  moreover have "(xs @ replicate n 0 @ (0 # zs)) ! (length xs + n) = 0" by (simp add: nth_append)
  ultimately show ?case using Suc.IH [of "0 # zs"] by simp
qed

lemma cut_newline_padded:
  assumes "length (x @ [10]) \<le> n"
  shows "cut_newline n (padded n (x @ [10])) = padded n x"
proof -
  have "n = length (x @ [10 :: u8]) + (n - length (x @ [10 :: u8]))" using assms by simp
  then have "cut_newline n (padded n (x @ [10])) = cut_newline (length (x @ [10 :: u8])) ((x @ [10]) @ replicate (n - length (x @ [10 :: u8])) 0 @ [])"
    unfolding padded_def using cut_newline_zeros [of "x @ [10]" "n - length (x @ [10 :: u8])" "[]"] by simp
  also have "\<dots> = x @ 0 # replicate (n - length (x @ [10 :: u8])) 0"
    by (simp add: nth_append list_update_append)
  also have "\<dots> = padded n x"
    using assms by (simp add: padded_def Suc_diff_Suc flip: replicate_Suc)
  finally show ?thesis .
qed

lemma c_string_at: "length xs = i \<Longrightarrow> 0 \<notin> set s \<Longrightarrow> c_string (xs @ s @ 0 # ys) i = Some s"
proof -
  assume "length xs = i" "0 \<notin> set s"
  moreover from this have "takeWhile (\<lambda>b. b \<noteq> 0) (s @ 0 # ys) = s" by (induction s) auto
  ultimately show ?thesis by (simp add: c_string_def)
qed

text \<open>The parts of a long entry.\<close>

definition line_head :: "packet \<Rightarrow> bytes" where
  "line_head p = take 20 (pk_date p) @ str_bytes HOST_PREFIX"

definition line_tail :: bytes where
  "line_tail = str_bytes '' exceeded request rate limit''"

lemma entry_parts: "entry_of False p = (line_head p @ snd (addr_text (pk_addr p)) @ 35 # line_tail) @ [10]"
  by (cases "addr_text (pk_addr p)")
    (simp add: write_entry_def logstr_long_def line_head_def line_tail_def MSG_STR_def str_bytes_def log_sizes)

lemma tail_nonzero: "0 \<notin> set line_tail" "0 \<notin> set (str_bytes HOST_PREFIX)"
  by (simp_all add: line_tail_def HOST_PREFIX_def str_bytes_def)

lemma line_head_props:
  assumes "packet_ok p"
  shows "length (line_head p) = 28" and "0 \<notin> set (pk_date p) \<Longrightarrow> 0 \<notin> set (line_head p)"
  using assms tail_nonzero(2) by (auto simp: line_head_def packet_ok_def log_sizes dest: in_set_takeD)

lemma line_read:
  assumes "packet_ok p" and "v4_mapped (pk_addr p)"
  shows "\<exists>z. cut_newline 95 (padded 95 (entry_of False p))
    = line_head p @ snd (addr_text (pk_addr p)) @ 35 # line_tail @ 0 # replicate z 0"
proof -
  let ?x = "line_head p @ snd (addr_text (pk_addr p)) @ 35 # line_tail"
  have len: "length (?x @ [10]) \<le> 95"
    using entry_fits_iff [OF assms(1), of False] assms(2) unfolding entry_parts by (simp add: log_sizes)
  have "cut_newline 95 (padded 95 (entry_of False p)) = padded 95 ?x"
    unfolding entry_parts by (rule cut_newline_padded [OF len])
  moreover have "95 - length ?x = Suc (94 - length ?x)" using len by simp
  ultimately show ?thesis unfolding padded_def by (intro exI [of _ "94 - length ?x"]) simp
qed

lemma scan_line:
  assumes "length h = 28" and "0 \<notin> set s" and "pton AF_INET s = Some ip"
    and "hc_logstr c = h @ s @ b # t" and "\<not> hc_match c"
  shows "hs_scan pton res [(RATE_LIMIT_REGEX_ID, 21, 27), (IP4_REGEX_ID, 28, 29 + length s)] c
    = Some (HS_SCAN_TERMINATED, (set_ip ip (c\<lparr>hc_rate_limit_match := True, hc_match := True,
        hc_logstr := h @ s @ 0 # t, hc_from := 28\<rparr>))\<lparr>hc_domain := AF_INET\<rparr>)"
proof -
  have put: "put_byte (28 + length s) 0 (h @ s @ b # t) = Some (h @ s @ 0 # t)"
    using assms(1) by (simp add: put_byte_def list_update_append)
  have str: "c_string (h @ s @ 0 # t) 28 = Some s" by (rule c_string_at [OF assms(1,2)])
  show ?thesis using assms(3-5) put str by (simp add: regex_match_handler_def regex_ids)
qed


definition trip_env :: parse_env where
  "trip_env = \<lparr>pe_time = 100, pe_date = (\<lambda>_. Some 90),
     pe_pton = (\<lambda>d s. if d = AF_INET \<and> s = str_bytes ''192.0.2.1'' then Some [192, 0, 2, 1] else None),
     pe_matches = [(RATE_LIMIT_REGEX_ID, 21, 27), (IP4_REGEX_ID, 28, 38)], pe_scan = HS_SUCCESS\<rparr>"


section \<open>Binary messages\<close>

lemma le_nat_le64: "le_nat (map (\<lambda>i. ucast (drop_bit (8 * i) (w :: u64))) [0 ..< n]) = unat w mod 256 ^ n"
proof (induction n)
  case 0
  then show ?case by simp
next
  case (Suc n)
  have "unat (ucast (drop_bit (8 * n) w) :: u8) = unat w div 256 ^ n mod 256"
    unfolding unsigned_ucast_eq unat_drop_bit_eq by (simp add: drop_bit_eq_div take_bit_eq_mod power_mult)
  moreover have "unat w mod 256 ^ Suc n = unat w mod 256 ^ n + 256 ^ n * (unat w div 256 ^ n mod 256)"
    using mod_mult2_eq [of "unat w" "256 ^ n" 256] by (simp add: mult.commute)
  ultimately show ?case using Suc.IH by (simp add: le_nat_append)
qed

lemma le64_value: "- (2 ^ 63) \<le> t \<Longrightarrow> t < 2 ^ 63 \<Longrightarrow> sint (word_of_nat (le_nat (le64 t)) :: u64) = t"
proof -
  assume t: "- (2 ^ 63) \<le> t" "t < 2 ^ 63"
  let ?w = "word_of_int t :: u64"
  have "unat ?w < 256 ^ 8" using unsigned_less [of ?w, where ?'a = nat] by simp
  then have "le_nat (le64 t) = unat ?w" unfolding le64_def le_nat_le64 by simp
  then have "(word_of_nat (le_nat (le64 t)) :: u64) = ?w" by simp
  moreover have "sint ?w = t" using t by (simp add: signed_of_int signed_take_bit_int_eq_self_iff)
  ultimately show ?thesis by simp
qed

lemma length_le64 [simp]: "length (le64 t) = 8"
  by (simp add: le64_def)

lemma put_address_result:
  assumes "put_address pos addr mem = Some mem'" and "length addr = 16" and "pos + 32 \<le> length mem"
  shows "length mem' = length mem" and "take 8 (drop pos mem') = take 8 (drop pos mem)"
    and "mem' ! (pos + 8) = (if v4_mapped addr then 4 else 16)"
    and "take (if v4_mapped addr then 4 else 16) (drop (pos + 16) mem') = (if v4_mapped addr then drop 12 addr else addr)"
proof -
  let ?n = "if v4_mapped addr then 4 else (16 :: u8)" and ?a = "if v4_mapped addr then drop 12 addr else addr"
  obtain m1 where m: "mem_write mem (pos + 8) [?n] = Some m1" "mem_write m1 (pos + 16) ?a = Some mem'"
    using assms(1) by (auto simp: put_address_def bind_eq_Some_conv split: if_splits)
  have la: "length ?a = (if v4_mapped addr then 4 else 16)" using assms(2) by simp
  show len: "length mem' = length mem" using mem_write_length [OF m(1)] mem_write_length [OF m(2)] by simp
  show "take 8 (drop pos mem') = take 8 (drop pos mem)"
    using mem_read_write_before [OF m(2), of pos 8] mem_read_write_before [OF m(1), of pos 8] by simp
  show "take (if v4_mapped addr then 4 else 16) (drop (pos + 16) mem') = ?a"
    using mem_read_write_same [OF m(2)] unfolding la .
  have "take 1 (drop (pos + 8) mem') = [?n]"
    using mem_read_write_before [OF m(2), of "pos + 8" 1] mem_read_write_same [OF m(1)] by simp
  then show "mem' ! (pos + 8) = ?n" using len assms(3) by (simp add: take_Suc_conv_app_nth hd_drop_conv_nth take_Suc)
qed

text \<open>C21. The binary entry of a packet is a message with its time and the address of its sender, four bytes long for an
  IPv4 client and sixteen for an IPv6 client.\<close>

theorem udp_message_roundtrip:
  assumes "logstr_bin_long now pos addr mem = Some mem'" and "length addr = 16"
    and "pos + sizeof_bin_message \<le> length mem" and "- (2 ^ 63) \<le> now" and "now < 2 ^ 63"
  shows "\<exists>m. message_at mem' pos = Some m \<and> bm_timestamp m = now
    \<and> (if v4_mapped addr then bm_address_len m = 4 \<and> take 4 (bm_address m) = drop 12 addr
       else bm_address_len m = 16 \<and> bm_address m = addr)"
proof -
  obtain m1 where m1: "mem_write mem pos (le64 now) = Some m1" "put_address pos addr m1 = Some mem'"
    using assms(1) by (auto simp: logstr_bin_long_def bind_eq_Some_conv)
  have fit: "pos + 32 \<le> length m1" using assms(3) mem_write_length [OF m1(1)] by (simp add: sizeof_bin_message_def)
  note r = put_address_result [OF m1(2) assms(2) fit]
  have ts: "take 8 (drop pos mem') = le64 now"
    unfolding r(2) using mem_read_write_same [OF m1(1)] by simp
  have reads: "mem_read mem' pos 8 = Some (le64 now)" "nth_opt mem' (pos + 8) = Some (if v4_mapped addr then 4 else 16)"
    "mem_read mem' (pos + 16) 16 = Some (take 16 (drop (pos + 16) mem'))"
    using fit ts by (simp_all add: mem_read_def nth_opt_def r(1,3))
  show ?thesis
    using reads r(4) le64_value [OF assms(4,5)] by (cases "v4_mapped addr") (simp_all add: message_at_def)
qed

theorem udp_message_roundtrip_witness:
  "\<exists>mem' m. logstr_bin_long 1747120919 0 client4 (replicate 48 0) = Some mem' \<and> message_at mem' 0 = Some m
    \<and> bm_timestamp m = 1747120919 \<and> take 4 (bm_address m) = [192, 0, 2, 1]"
proof -
  have v: "v4_mapped client4" "length client4 = 16" "drop 12 client4 = [192, 0, 2, 1]"
    by (simp_all add: client4_def v4_mapped_def)
  obtain mem' where m: "logstr_bin_long 1747120919 0 client4 (replicate 48 0) = Some mem'"
    using v by (simp add: logstr_bin_long_def put_address_def mem_write_def)
  from udp_message_roundtrip [OF m v(2)] v m show ?thesis by (auto simp: sizeof_bin_message_def)
qed

end
