(* ===== verification/Syslog.thy ===== *)
theory Syslog
  imports Shm_Setup Fips_Ring
begin

text \<open>
  The replacement of the \<open>syslog\<close> functions, \<open>src/lib/syslog.c\<close>, which is loaded into a logging program and sends
  its messages to the shared memory. The file has three variants, chosen when it is compiled: one write to the ring
  buffer per message, a vectored write per sixteen messages (\<open>WRITEV\<close>), and the zero-copy buffer (\<open>ZERO_COPY\<close>).

  In the first two variants the message is what \<open>vsnprintf\<close> produces, an argument of the model. The third does not
  call it: its loop takes one string argument for every percent sign of the format and copies nothing else.
  \<open>exit\<close> is a result of its own.
\<close>

unbundle bit_operations_syntax

section \<open>Data\<close>

definition SEGMENT_COUNT :: nat where "SEGMENT_COUNT = 17"
definition LINE_SIZE :: nat where "LINE_SIZE = 254"
definition LINE_COUNT :: u32 where "LINE_COUNT = 1000000"
definition BUFFER_SIZE :: nat where "BUFFER_SIZE = 16"

text \<open>The global variables of the process.\<close>

record syslog_process =
  writer_struct :: "shmrbuf_writer_arg_t option"
  thread_counter :: int
  missed_writes :: int
  sp_shm :: shm_region

datatype 'a call = Exit | Return 'a

text \<open>The parameters \<open>openlog\<close> creates the ring with.\<close>

definition openlog_arg :: shmrbuf_writer_arg_t where
  "openlog_arg = \<lparr>w_shm_key = Some ''./udpsvr.log'', w_line_size = of_nat LINE_SIZE, w_line_count = LINE_COUNT,
     w_segment_count = of_nat SEGMENT_COUNT, w_reader_count = 2, w_global_hdr = False, w_segment_hdrs = False,
     w_flags = SHMRBUF_REATT OR SHMRBUF_FRCAT OR SHMRBUF_OVWR, w_shm_id = 0\<rparr>"

text \<open>\<open>openlog\<close>: whether registering the exit handler and the allocation succeed are arguments. When the ring cannot be
  set up, the process ends.\<close>

definition openlog :: "bool \<Rightarrow> bool \<Rightarrow> shm_env \<Rightarrow> shm_os \<Rightarrow> syslog_process \<Rightarrow> (syslog_process \<times> shm_os) call" where
  "openlog atexit_ok calloc_ok env os s =
     (if \<not> atexit_ok \<or> \<not> calloc_ok then Exit
      else case shmrbuf_init_writer env openlog_arg os of (retval, a, os') \<Rightarrow>
        if retval \<noteq> IO_IPC_SUCCESS then Exit
        else Return (s\<lparr>writer_struct := Some a,
          sp_shm := (case os_region os' of None \<Rightarrow> sp_shm s | Some shm \<Rightarrow> shm)\<rparr>, os'))"

section \<open>One write per message\<close>

text \<open>The segment of the calling thread: the first call of a thread takes the next number.\<close>

definition take_segment :: "int \<Rightarrow> syslog_process \<Rightarrow> (int \<times> syslog_process) call" where
  "take_segment thread_segment s =
     (let (n, s1) = (if thread_segment = -1 then (thread_counter s, s\<lparr>thread_counter := thread_counter s + 1\<rparr>)
                     else (thread_segment, s))
      in if n > int SEGMENT_COUNT - 1 then Exit else Return (n, s1))"

text \<open>The line: the output of \<open>vsnprintf\<close> without its terminator, a newline, zero bytes up to the line size.\<close>

definition local_line :: "bytes \<Rightarrow> bytes" where
  "local_line msg = (let s = take (LINE_SIZE - 1) msg in s @ [10] @ replicate (LINE_SIZE - 1 - length s) 0)"

definition syslog_write :: "bytes \<Rightarrow> int \<Rightarrow> syslog_process \<Rightarrow> (int \<times> syslog_process) call option" where
  "syslog_write msg thread_segment s =
     (case take_segment thread_segment s of
        Exit \<Rightarrow> Some Exit
      | Return (n, s1) \<Rightarrow> do {
          (wsize, shm) \<leftarrow> shmrbuf_write (writer_struct s1) (Some (local_line msg)) (of_nat LINE_SIZE) (word_of_int n) (sp_shm s1);
          Some (Return (n, s1\<lparr>sp_shm := shm,
            missed_writes := (if wsize < 0 then missed_writes s1 + 1 else missed_writes s1)\<rparr>))
        })"

section \<open>A vectored write per sixteen messages\<close>

text \<open>The variables of a thread; the vector holds the lines stored so far.\<close>

record writev_thread =
  wt_segment :: int
  wt_iovec_counter :: nat
  wt_iovecs :: "iovec list"

definition syslog_writev :: "bytes \<Rightarrow> writev_thread \<Rightarrow> syslog_process \<Rightarrow> (writev_thread \<times> syslog_process) call option" where
  "syslog_writev msg t s =
     (case take_segment (wt_segment t) s of
        Exit \<Rightarrow> Some Exit
      | Return (n, s1) \<Rightarrow>
          let t1 = t\<lparr>wt_segment := n\<rparr> in
          if wt_iovec_counter t1 < BUFFER_SIZE
          then let line = take (LINE_SIZE - 1) msg @ [10]
               in Some (Return (t1\<lparr>wt_iovec_counter := wt_iovec_counter t1 + 1,
                    wt_iovecs := take (wt_iovec_counter t1) (wt_iovecs t1)
                      @ [\<lparr>iov_base = line, iov_len = of_nat (length line)\<rparr>]\<rparr>, s1))
          else do {
            (elements_writev, shm) \<leftarrow> shmrbuf_writev (writer_struct s1) (Some (wt_iovecs t1)) (of_nat (wt_iovec_counter t1))
              (word_of_int n) (sp_shm s1);
            Some (if elements_writev < 0 then Exit
                  else Return (t1\<lparr>wt_iovec_counter := 0\<rparr>, s1\<lparr>sp_shm := shm\<rparr>))
          })"

section \<open>The zero-copy buffer\<close>

text \<open>The loop over the format: the bytes copied so far and the arguments not yet taken; \<open>None\<close> when there are too
  few. The first argument is the number of characters the loop may still look at.\<close>

fun copy_args :: "nat \<Rightarrow> string \<Rightarrow> bytes list \<Rightarrow> bytes \<Rightarrow> bytes option" where
  "copy_args 0 fmt as out = Some out"
| "copy_args (Suc n) [] as out = Some out"
| "copy_args (Suc n) (c # fmt) as out =
     (if c = CHR ''%''
      then (case as of
              [] \<Rightarrow> None
            | a # as' \<Rightarrow> copy_args n fmt as' (out @ take (LINE_SIZE - length out) a))
      else copy_args n fmt as out)"

record zero_thread =
  zt_buffer_position :: nat
  zt_iov :: "fips_iovec list"

text \<open>The line is stored in the buffer at \<open>pos\<close>: first the terminator, then the text, then the newline and a
  terminator behind at most 252 bytes. The result is the length and the new contents.\<close>

definition store_line :: "nat \<Rightarrow> string \<Rightarrow> bytes list \<Rightarrow> bytes \<Rightarrow> (nat \<times> bytes) option" where
  "store_line pos fmt as d =
     do {
       d0 \<leftarrow> mem_write d pos [0];
       out \<leftarrow> copy_args LINE_SIZE fmt as [];
       d1 \<leftarrow> mem_write d0 pos out;
       let length' = (if LINE_SIZE - 2 < length out then LINE_SIZE - 2 else length out);
       d2 \<leftarrow> mem_write d1 (pos + length') [10, 0];
       Some (length', d2)
     }"

text \<open>A call of a thread attached to segment \<open>sg\<close>.\<close>

definition syslog_zero :: "u32 \<Rightarrow> nat \<Rightarrow> string \<Rightarrow> bytes list \<Rightarrow> zero_thread \<Rightarrow> fips_shm \<Rightarrow>
    (zero_thread \<times> fips_shm) call option" where
  "syslog_zero line_size sg fmt as t shm =
     do {
       (ret, iov, shm1) \<leftarrow> (if zt_buffer_position t = 0 then fips_get_write_buffer line_size sg BUFFER_SIZE shm
                            else Some (FIPS_BUF_SUCCESS, zt_iov t, shm));
       if ret \<noteq> FIPS_BUF_SUCCESS then Some Exit
       else do {
         seg \<leftarrow> nth_opt (fb_segments shm1) sg;
         v \<leftarrow> nth_opt iov (zt_buffer_position t);
         (len, d) \<leftarrow> store_line (fv_pos v) fmt as (seg_data seg);
         let shm2 = shm1\<lparr>fb_segments := (fb_segments shm1)[sg := seg\<lparr>seg_data := d\<rparr>]\<rparr>;
         let t1 = \<lparr>zt_buffer_position = (zt_buffer_position t + 1) mod BUFFER_SIZE,
                   zt_iov = iov[zt_buffer_position t := v\<lparr>fv_len := of_nat (len + 1)\<rparr>]\<rparr>;
         if zt_buffer_position t1 = 0
         then do { (_, shm3) \<leftarrow> fips_buf_write sg (zt_iov t1) shm2; Some (Return (t1, shm3)) }
         else Some (Return (t1, shm2))
       }
     }"

section \<open>Every thread has its segment\<close>

text \<open>The calls of the threads of a process, in the order in which they happen. A thread keeps its number from its
  first call on; the others have \<open>-1\<close>.\<close>

fun syslog_calls :: "(nat \<times> bytes) list \<Rightarrow> (nat \<Rightarrow> int) \<times> syslog_process \<Rightarrow> ((nat \<Rightarrow> int) \<times> syslog_process) call option" where
  "syslog_calls [] x = Some (Return x)"
| "syslog_calls ((i, msg) # calls) (segs, s) =
     do {
       r \<leftarrow> syslog_write msg (segs i) s;
       (case r of Exit \<Rightarrow> Some Exit | Return (n, s') \<Rightarrow> syslog_calls calls (segs(i := n), s'))
     }"

definition segments_inv :: "(nat \<Rightarrow> int) \<times> syslog_process \<Rightarrow> bool" where
  "segments_inv x \<longleftrightarrow> (case x of (segs, s) \<Rightarrow>
     0 \<le> thread_counter s \<and> thread_counter s \<le> int SEGMENT_COUNT
     \<and> (\<forall>i. segs i = -1 \<or> 0 \<le> segs i \<and> segs i < thread_counter s)
     \<and> (\<forall>i j. segs i \<noteq> -1 \<longrightarrow> segs i = segs j \<longrightarrow> i = j))"

lemma take_segment_cases:
  assumes "take_segment n s = Return (m, s')"
  shows "m < int SEGMENT_COUNT" and "n = -1 \<Longrightarrow> m = thread_counter s \<and> thread_counter s' = thread_counter s + 1"
    and "n \<noteq> -1 \<Longrightarrow> m = n \<and> s' = s"
  using assms by (auto simp: take_segment_def Let_def split: if_splits)

lemma syslog_write_segment:
  assumes "syslog_write msg n s = Some (Return (m, s'))"
  shows "\<exists>s1. take_segment n s = Return (m, s1) \<and> thread_counter s' = thread_counter s1"
  using assms by (auto simp: syslog_write_def bind_eq_Some_conv split: call.splits)

lemma segments_inv_step:
  assumes inv: "segments_inv (segs, s)" and w: "syslog_write msg (segs i) s = Some (Return (n, s'))"
  shows "segments_inv (segs(i := n), s')" and "0 \<le> n"
proof -
  obtain s1 where s1: "take_segment (segs i) s = Return (n, s1)" "thread_counter s' = thread_counter s1"
    using syslog_write_segment [OF w] by blast
  note t = take_segment_cases [OF s1(1)]
  have inv': "0 \<le> thread_counter s" "thread_counter s \<le> int SEGMENT_COUNT"
    "segs j = -1 \<or> 0 \<le> segs j \<and> segs j < thread_counter s" "segs j \<noteq> -1 \<Longrightarrow> segs j = segs k \<Longrightarrow> j = k" for j k
    using inv by (auto simp: segments_inv_def)
  have "segments_inv (segs(i := n), s') \<and> 0 \<le> n"
  proof (cases "segs i = -1")
    case True
    then have n: "n = thread_counter s" "thread_counter s' = thread_counter s + 1" using t(2) s1(2) by simp_all
    have other: "segs j \<noteq> n" for j using inv'(1) inv'(3) [of j] n(1) by linarith
    have range: "(segs(i := n)) j = -1 \<or> 0 \<le> (segs(i := n)) j \<and> (segs(i := n)) j < thread_counter s'" for j
      using inv'(1) inv'(3) [of j] n by (cases "j = i") auto
    have inj: "j = k" if "(segs(i := n)) j \<noteq> -1" "(segs(i := n)) j = (segs(i := n)) k" for j k
      using that inv'(4) [of j k] other [of j] other [of k] by (cases "j = i"; cases "k = i") simp_all
    have "0 \<le> thread_counter s'" "thread_counter s' \<le> int SEGMENT_COUNT" "0 \<le> n" using inv'(1) t(1) n by linarith+
    then show ?thesis unfolding segments_inv_def prod.case using range inj by blast
  next
    case False
    then have "n = segs i" "s1 = s" using t(3) by simp_all
    moreover from this have "segs(i := n) = segs" by simp
    moreover have "0 \<le> segs i" using False inv'(3) [of i] by linarith
    moreover have "segments_inv (segs, s')" using inv s1(2) \<open>s1 = s\<close> unfolding segments_inv_def prod.case by simp
    ultimately show ?thesis by simp
  qed
  then show "segments_inv (segs(i := n), s')" "0 \<le> n" by simp_all
qed

lemma syslog_calls_segments:
  "syslog_calls calls (segs, s) = Some (Return (segs', s')) \<Longrightarrow> segments_inv (segs, s) \<Longrightarrow>
     segments_inv (segs', s') \<and> (\<forall>i. segs i \<noteq> -1 \<longrightarrow> segs' i = segs i) \<and> (\<forall>c\<in>set calls. segs' (fst c) \<noteq> -1)"
proof (induction calls arbitrary: segs s)
  case Nil
  then show ?case by simp
next
  case (Cons c calls)
  obtain i msg where c: "c = (i, msg)" by (cases c)
  obtain r where r: "syslog_write msg (segs i) s = Some r"
    "(case r of Exit \<Rightarrow> Some Exit | Return (n, s') \<Rightarrow> syslog_calls calls (segs(i := n), s')) = Some (Return (segs', s'))"
    using Cons.prems(1) by (auto simp: c bind_eq_Some_conv)
  from r(2) obtain n s1 where n: "r = Return (n, s1)" by (cases r) auto
  have w: "syslog_write msg (segs i) s = Some (Return (n, s1))"
    and rest: "syslog_calls calls (segs(i := n), s1) = Some (Return (segs', s'))"
    using r n by simp_all
  note st = segments_inv_step [OF Cons.prems(2) w]
  note ih = Cons.IH [OF rest st(1)]
  have old: "segs' j = segs j" if "segs j \<noteq> -1" for j
  proof (cases "j = i")
    case True
    then have "n = segs i"
      using syslog_write_segment [OF w] take_segment_cases(3) [of "segs i" s n] that by blast
    then show ?thesis using ih st(2) True by auto
  next
    case False
    then show ?thesis using ih that by simp
  qed
  have "segs' i \<noteq> -1"
  proof -
    have "(segs(i := n)) i \<noteq> -1" using st(2) by simp
    then have "segs' i = n" using ih by (metis fun_upd_same)
    then show ?thesis using st(2) by simp
  qed
  then show ?case using ih old by (simp add: c)
qed

text \<open>C36. Every logging thread has a segment of its own: in every sequence of calls of the threads of a process that
  does not end in \<open>exit\<close>, each thread that has logged has a segment of the ring, and no two threads share one. (The
  eighteenth thread to log ends the process.)\<close>

theorem syslog_segments_unique:
  assumes "thread_counter s = 0" and "syslog_calls calls (\<lambda>_. -1, s) = Some (Return (segs, s'))"
  shows "inj_on segs (fst ` set calls) \<and> (\<forall>i \<in> fst ` set calls. 0 \<le> segs i \<and> segs i < int SEGMENT_COUNT)"
proof -
  have "segments_inv (\<lambda>_. -1, s)" using assms(1) by (simp add: segments_inv_def SEGMENT_COUNT_def)
  note r = syslog_calls_segments [OF assms(2) this]
  have used: "segs i \<noteq> -1" if "i \<in> fst ` set calls" for i using r that by auto
  have inv: "\<And>i j. segs i \<noteq> -1 \<Longrightarrow> segs i = segs j \<Longrightarrow> i = j"
    "\<And>i. segs i = -1 \<or> 0 \<le> segs i \<and> segs i < thread_counter s'" "thread_counter s' \<le> int SEGMENT_COUNT"
    using r unfolding segments_inv_def prod.case by blast+
  have "inj_on segs (fst ` set calls)" by (rule inj_onI) (use used inv(1) in blast)
  moreover have "0 \<le> segs i \<and> segs i < int SEGMENT_COUNT" if "i \<in> fst ` set calls" for i
    using used [OF that] inv(2) [of i] inv(3) by linarith
  ultimately show ?thesis by blast
qed

text \<open>A process whose ring was created by another program with shorter lines: every write is refused and counted.\<close>

definition short_ring :: syslog_process where
  "short_ring = \<lparr>writer_struct = Some (openlog_arg\<lparr>w_segment_hdrs := True\<rparr>), thread_counter = 0, missed_writes = 0,
     sp_shm = \<lparr>global_hdr = \<lparr>g_checksum = 0, g_segment_count = 2, g_reader_count = 1, g_line_size = 95, g_line_count = 2,
         g_overwrite = True, g_writer_att = True, g_reader_att = [True]\<rparr>,
       segments = replicate 2 \<lparr>s_write_index = 0, s_read_index = [0], s_data = replicate 190 0\<rparr>\<rparr>\<rparr>"

theorem syslog_segments_unique_witness:
  "\<exists>segs s'. syslog_calls [(4, [72]), (7, [73]), (4, [74])] (\<lambda>_. -1, short_ring) = Some (Return (segs, s'))
    \<and> inj_on segs {4, 7} \<and> missed_writes s' = 3"
proof -
  have c: "thread_counter short_ring = 0" by (simp add: short_ring_def)
  obtain segs s' where r: "syslog_calls [(4, [72]), (7, [73]), (4, [74])] (\<lambda>_. -1, short_ring) = Some (Return (segs, s'))"
    "missed_writes s' = 3"
    by (simp add: short_ring_def syslog_write_def take_segment_def SEGMENT_COUNT_def shmrbuf_write_def LINE_SIZE_def
        openlog_arg_def IO_IPC_ARG_ERR_def Let_def)
  from syslog_segments_unique [OF c r(1)] r show ?thesis by auto
qed

text \<open>The call that finds sixteen stored lines writes them and does not store its own message.\<close>

lemma syslog_writev_loses:
  "wt_iovec_counter t = BUFFER_SIZE \<Longrightarrow> syslog_writev msg t s = syslog_writev msg' t s"
  by (simp add: syslog_writev_def split: call.split)

section \<open>Lines of the zero-copy variant\<close>

definition percents :: "string \<Rightarrow> nat" where
  "percents fmt = length (filter (\<lambda>c. c = CHR ''%'') fmt)"

lemma copy_args_concat:
  "percents (take n fmt) \<le> length as \<Longrightarrow> length out \<le> LINE_SIZE \<Longrightarrow>
     copy_args n fmt as out = Some (take LINE_SIZE (out @ concat (take (percents (take n fmt)) as)))"
proof (induction n fmt as out rule: copy_args.induct)
  case (1 fmt as out)
  then show ?case by (simp add: percents_def)
next
  case (2 n as out)
  then show ?case by (simp add: percents_def)
next
  case (3 n c fmt as out)
  show ?case
  proof (cases "c = CHR ''%''")
    case True
    then obtain a as' where as: "as = a # as'" using 3 by (cases as) (auto simp: percents_def)
    have p: "percents (take (Suc n) (c # fmt)) = Suc (percents (take n fmt))" using True by (simp add: percents_def)
    have "copy_args n fmt as' (out @ take (LINE_SIZE - length out) a)
        = Some (take LINE_SIZE ((out @ take (LINE_SIZE - length out) a) @ concat (take (percents (take n fmt)) as')))"
      by (rule 3(1) [OF True as]) (use 3(3,4) p as in auto)
    moreover have "take LINE_SIZE ((out @ take (LINE_SIZE - length out) a) @ rest) = take LINE_SIZE (out @ a @ rest)" for rest
      using 3(4) by (simp add: min_def)
    ultimately show ?thesis using True as p by simp
  next
    case False
    then have "percents (take (Suc n) (c # fmt)) = percents (take n fmt)" by (simp add: percents_def)
    then show ?thesis using 3(2) [OF False] 3(3,4) False by simp
  qed
qed

text \<open>C37. What a call of the zero-copy variant stores: the text is the concatenation of the arguments that belong to
  the percent signs among the first 254 characters of the format, cut at 252 bytes, followed by a newline and a
  terminator; no byte outside the 254 bytes of the buffer changes.\<close>

theorem syslog_zero_line:
  assumes "percents (take LINE_SIZE fmt) \<le> length as" and "pos + LINE_SIZE \<le> length d"
    and "msg = concat (take (percents (take LINE_SIZE fmt)) as)"
  shows "\<exists>d'. store_line pos fmt as d = Some (min 252 (length msg), d') \<and> length d' = length d
    \<and> take (min 252 (length msg) + 2) (drop pos d') = take 252 msg @ [10, 0]
    \<and> (\<forall>i. i < pos \<or> pos + LINE_SIZE \<le> i \<longrightarrow> d' ! i = d ! i)"
proof -
  let ?out = "take LINE_SIZE msg" and ?n = "min 252 (length msg)"
  have out: "copy_args LINE_SIZE fmt as [] = Some ?out"
    using copy_args_concat [OF assms(1), of "[]"] assms(3) by simp
  have lo: "length ?out \<le> 254" by (simp add: LINE_SIZE_def)
  have n: "(if LINE_SIZE - 2 < length ?out then LINE_SIZE - 2 else length ?out) = ?n"
    by (auto simp: LINE_SIZE_def)
  have fit: "pos + 254 \<le> length d" using assms(2) by (simp add: LINE_SIZE_def)
  obtain d0 where d0: "mem_write d pos [0] = Some d0" using fit by (simp add: mem_write_def)
  note l0 = mem_write_length [OF d0]
  obtain d1 where d1: "mem_write d0 pos ?out = Some d1" using fit l0 lo by (simp add: mem_write_def)
  note l1 = mem_write_length [OF d1]
  have "pos + ?n + length [10 :: u8, 0] \<le> length d1" using fit l0 l1 min.cobounded1 [of 252 "length msg"] by simp
  then obtain d2 where d2: "mem_write d1 (pos + ?n) [10, 0] = Some d2" by (simp add: mem_write_def)
  note l2 = mem_write_length [OF d2]
  have "store_line pos fmt as d = Some (?n, d2)"
    unfolding store_line_def Let_def d0 out bind.simps d1 n d2 ..
  moreover have "length d2 = length d" using l0 l1 l2 by simp
  moreover have "take (?n + 2) (drop pos d2) = take 252 msg @ [10, 0]"
  proof -
    have "take ?n (drop pos d2) = take ?n (drop pos d1)" by (rule mem_read_write_before [OF d2]) simp
    also have "\<dots> = take ?n (take (length ?out) (drop pos d1))" by (simp add: LINE_SIZE_def)
    also have "\<dots> = take 252 msg" unfolding mem_read_write_same [OF d1] by (simp add: LINE_SIZE_def min_def)
    finally have a: "take ?n (drop pos d2) = take 252 msg" .
    have "take 2 (drop (pos + ?n) d2) = [10, 0]" using mem_read_write_same [OF d2] by (simp add: numeral_2_eq_2)
    then have "take 2 (drop ?n (drop pos d2)) = [10, 0]" by (simp add: add.commute)
    then show ?thesis using a take_add [of ?n 2 "drop pos d2"] by simp
  qed
  moreover have "d2 ! i = d ! i" if "i < pos \<or> pos + LINE_SIZE \<le> i" for i
  proof -
    have same: "m' ! i = m ! i" if "mem_write m off bs = Some m'" "i < off \<or> off + length bs \<le> i" for m m' :: bytes and off bs
      using mem_write_SomeD [OF that(1)] that(2) by (auto simp: nth_append)
    have "d2 ! i = d1 ! i" by (rule same [OF d2]) (use that in \<open>auto simp: LINE_SIZE_def\<close>)
    also have "\<dots> = d0 ! i" by (rule same [OF d1]) (use that lo in \<open>auto simp: LINE_SIZE_def\<close>)
    also have "\<dots> = d ! i" by (rule same [OF d0]) (use that in \<open>auto simp: LINE_SIZE_def\<close>)
    finally show ?thesis .
  qed
  ultimately show ?thesis by blast
qed

theorem syslog_zero_line_witness:
  "\<exists>d'. store_line 2 ''%s: %s'' [[104, 105], [111]] (replicate 300 1) = Some (3, d')
    \<and> take 5 (drop 2 d') = [104, 105, 111, 10, 0]"
proof -
  have h: "percents (take LINE_SIZE ''%s: %s'') \<le> length [[104, 105], [111 :: u8]]" "2 + LINE_SIZE \<le> length (replicate 300 (1 :: u8))"
    "[104, 105, 111] = concat (take (percents (take LINE_SIZE ''%s: %s'')) [[104, 105], [111 :: u8]])"
    by (simp_all add: percents_def LINE_SIZE_def)
  have e: "min 252 (length [104, 105, 111 :: u8]) = 3" "take 252 [104, 105, 111 :: u8] = [104, 105, 111]" by simp_all
  obtain d' where "store_line 2 ''%s: %s'' [[104, 105], [111]] (replicate 300 1) = Some (3, d')"
    "take (3 + 2) (drop 2 d') = [104, 105, 111] @ [10, 0]"
    using syslog_zero_line [OF h] unfolding e by blast
  then show ?thesis by auto
qed

end
