(* ===== verification/Shm_Reader.thy ===== *)
theory Shm_Reader
  imports Sf2b_Ipc "HOL-Library.Multiset"
begin

text \<open>
  The program \<open>src/programs/shm_reader.c\<close>, which writes the log lines of the shared memory to a file: the reading
  loops of its modes and the pool of local buffers behind the asynchronous writes. A buffer is taken from the
  pool for a batch, the batch is submitted to \<open>io_uring\<close>, and the completion, which may come in any order, gives the
  buffer back. The free buffers are the part of the array \<open>buffer_position\<close> from \<open>idx\<close> on.

  The pool is the same for single lines, for batches and for the zero-copy buffer; the contents of a buffer, the
  lines or the tag of the claimed range, are a type parameter. What the kernel writes is the contents of the
  buffer when the write completes. The field \<open>rd_taken\<close> is a history of the batches submitted.
\<close>

section \<open>Options\<close>

definition RING_SIZE :: nat where "RING_SIZE = 10"
definition BUF_SIZE :: nat where "BUF_SIZE = 10"

datatype io_uring_mode =
  SINGLE_READ_SINGLE_WRITE | SINGLE_READ_BATCH_WRITE | BATCH_READ_SINGLE_WRITE | BATCH_READ_BATCH_WRITE

definition thread_number :: "string \<Rightarrow> int" where
  "thread_number arg = (let n = atoi arg in if n < 0 \<or> 17 < n then 1 else n)"

definition mode_of :: "string \<Rightarrow> io_uring_mode \<Rightarrow> io_uring_mode" where
  "mode_of arg old =
     (if atoi arg = 0 then SINGLE_READ_SINGLE_WRITE
      else if atoi arg = 1 then SINGLE_READ_BATCH_WRITE
      else if atoi arg = 2 then BATCH_READ_SINGLE_WRITE
      else if atoi arg = 3 then BATCH_READ_BATCH_WRITE
      else old)"

section \<open>Reading\<close>

text \<open>The length of a line is \<open>strlen\<close> of its buffer; a line without terminator is read past its end.\<close>

definition line_text :: "bytes \<Rightarrow> bytes option" where
  "line_text l = (if 0 \<in> set l then Some (takeWhile (\<lambda>b. b \<noteq> 0) l) else None)"

fun line_texts :: "bytes list \<Rightarrow> bytes list option" where
  "line_texts [] = Some []"
| "line_texts (l # ls) = do { t \<leftarrow> line_text l; ts \<leftarrow> line_texts ls; Some (t # ts) }"

text \<open>The segments of a thread, from the array that \<open>main\<close> sets up and the loop at the start of every mode. A number of
  threads of 0 is accepted by the options and then divided by.\<close>

definition reader_range :: "nat \<Rightarrow> nat \<Rightarrow> nat \<Rightarrow> (nat \<times> nat) option" where
  "reader_range segment_count threads thread_id =
     (if threads = 0 \<or> threads \<le> thread_id then None
      else let seg_count = segment_count div threads;
               remainder = segment_count mod threads;
               shares = 0 # map (\<lambda>i. if i < remainder then seg_count + 1 else seg_count) [0 ..< threads]
           in Some (sum_list (take (Suc thread_id) shares), sum_list (take (Suc thread_id) (tl shares))))"

text \<open>One read of a batch from the ring into buffers with the contents \<open>old\<close>; the call fails, nothing is there, or
  the lines to write. The length of every buffer is taken, also of those that got no line.\<close>

datatype 'c read_result = Read_Failed | Nothing_Read | Batch 'c

definition read_batch :: "shmrbuf_reader_arg_t \<Rightarrow> u16 \<Rightarrow> u8 \<times> u8 \<Rightarrow> bytes list \<Rightarrow> u8 \<Rightarrow> u8 \<Rightarrow> shm_region \<Rightarrow>
    (bytes list read_result \<times> u8 \<times> u8 \<times> shm_region) option" where
  "read_batch args line_size rng old segment_index steal_index shm =
     do {
       (rsize, ls, si, sti, _, shm') \<leftarrow> shmrbuf_readv_rng args (of_nat BUF_SIZE) line_size (fst rng) (snd rng) False
          segment_index steal_index shm;
       if rsize < 0 then Some (Read_Failed, si, sti, shm')
       else if rsize = 0 then Some (Nothing_Read, si, sti, shm')
       else do {
         ts \<leftarrow> line_texts (ls @ drop (length ls) old);
         Some (Batch (take (nat rsize) ts), si, sti, shm')
       }
     }"

text \<open>One read of a line into a buffer with the contents \<open>old\<close>.\<close>

definition read_single :: "shmrbuf_reader_arg_t \<Rightarrow> u16 \<Rightarrow> u8 \<times> u8 \<Rightarrow> bytes \<Rightarrow> u8 \<Rightarrow> u8 \<Rightarrow> shm_region \<Rightarrow>
    (bytes read_result \<times> u8 \<times> u8 \<times> shm_region) option" where
  "read_single args line_size rng old segment_index steal_index shm =
     do {
       (rsize, bs, si, sti, _, shm') \<leftarrow> shmrbuf_read_rng args line_size (fst rng) (snd rng) False segment_index steal_index shm;
       if rsize < 0 then Some (Read_Failed, si, sti, shm')
       else if rsize = 0 then Some (Nothing_Read, si, sti, shm')
       else do { t \<leftarrow> line_text (bs @ drop (length bs) old); Some (Batch t, si, sti, shm') }
     }"

section \<open>A write per read\<close>

text \<open>The modes that submit every read at once and wait for its completion; the last argument is the file. A failed
  read of a line is ignored, since the statement for it has no effect; a failed read of a batch ends the program, which
  is \<open>False\<close>. The single-line mode replaces the last character of the line by a newline.\<close>

definition single_text :: "bytes \<Rightarrow> bytes option" where
  "single_text t = (if t = [] then None else Some (butlast t @ [10]))"

definition single_write_round :: "shmrbuf_reader_arg_t \<Rightarrow> u16 \<Rightarrow> u8 \<times> u8 \<Rightarrow> u8 \<Rightarrow> u8 \<Rightarrow> shm_region \<Rightarrow> bytes \<Rightarrow>
    (u8 \<times> u8 \<times> shm_region \<times> bytes) option" where
  "single_write_round args line_size rng segment_index steal_index shm file =
     do {
       (r, si, sti, shm') \<leftarrow> read_single args line_size rng (replicate (unat line_size) 0) segment_index steal_index shm;
       (case r of
          Batch t \<Rightarrow> do { l \<leftarrow> single_text t; Some (si, sti, shm', file @ l) }
        | _ \<Rightarrow> Some (si, sti, shm', file))
     }"

definition batch_write_round :: "shmrbuf_reader_arg_t \<Rightarrow> u16 \<Rightarrow> u8 \<times> u8 \<Rightarrow> bytes list \<Rightarrow> u8 \<Rightarrow> u8 \<Rightarrow> shm_region \<Rightarrow> bytes \<Rightarrow>
    (bool \<times> u8 \<times> u8 \<times> shm_region \<times> bytes) option" where
  "batch_write_round args line_size rng old segment_index steal_index shm file =
     do {
       (r, si, sti, shm') \<leftarrow> read_batch args line_size rng old segment_index steal_index shm;
       (case r of
          Read_Failed \<Rightarrow> Some (False, si, sti, shm', file)
        | Nothing_Read \<Rightarrow> Some (True, si, sti, shm', file)
        | Batch ts \<Rightarrow> Some (True, si, sti, shm', file @ concat ts))
     }"

text \<open>The threads share the segments without gap or overlap.\<close>

lemma sum_shares: "n \<le> tc \<Longrightarrow> sum_list (map (\<lambda>i. if i < sc mod tc then sc div tc + 1 else sc div tc) [0 ..< n]) = share_start sc tc n"
proof (induction n)
  case 0
  then show ?case by (simp add: share_start_def)
next
  case (Suc n)
  then show ?case by (simp add: share_start_Suc share_def)
qed

lemma reader_range_share:
  assumes "i < tc"
  shows "reader_range sc tc i = Some (share_start sc tc i, share_start sc tc (Suc i))"
  using assms sum_shares [of i tc sc] sum_shares [of "Suc i" tc sc] by (simp add: reader_range_def Let_def take_map)

lemma reader_ranges_partition:
  assumes "0 < tc" and "s < sc"
  shows "\<exists>!i. i < tc \<and> (\<exists>lo hi. reader_range sc tc i = Some (lo, hi) \<and> lo \<le> s \<and> s < hi)"
proof -
  obtain i where i: "i < tc" "share_start sc tc i \<le> s" "s < share_start sc tc (Suc i)"
    using start_interval [of s sc tc tc] share_start_end [OF assms(1)] assms(2) by auto
  show ?thesis
  proof (rule ex1I [of _ i])
    show "i < tc \<and> (\<exists>lo hi. reader_range sc tc i = Some (lo, hi) \<and> lo \<le> s \<and> s < hi)"
      using i by (simp add: reader_range_share)
  next
    fix j assume "j < tc \<and> (\<exists>lo hi. reader_range sc tc j = Some (lo, hi) \<and> lo \<le> s \<and> s < hi)"
    then have "share_start sc tc j \<le> s" "s < share_start sc tc (Suc j)" by (auto simp: reader_range_share)
    with i show "j = i" using start_interval_unique by blast
  qed
qed

section \<open>The pool of buffers\<close>

record 'c reader_io =
  rd_idx :: nat
  rd_position :: "nat list"
  rd_bufs :: "nat \<Rightarrow> 'c"
  rd_flight :: "nat list"
  rd_done :: "'c list"
  rd_taken :: "'c list"

definition start_io :: "(nat \<Rightarrow> 'c) \<Rightarrow> 'c reader_io" where
  "start_io bufs = \<lparr>rd_idx = 0, rd_position = [0 ..< RING_SIZE], rd_bufs = bufs, rd_flight = [], rd_done = [], rd_taken = []\<rparr>"

text \<open>The body of the filling loop once something was read; the flag is \<open>False\<close> when the loop is left because there
  is no submission entry. The batch is already in the buffer then.\<close>

definition fill_slot :: "'c \<Rightarrow> bool \<Rightarrow> 'c reader_io \<Rightarrow> (bool \<times> 'c reader_io) option" where
  "fill_slot batch sqe st =
     do {
       buffer_idx \<leftarrow> nth_opt (rd_position st) (rd_idx st);
       let st1 = st\<lparr>rd_bufs := (rd_bufs st)(buffer_idx := batch)\<rparr>;
       Some (if sqe
             then (True, st1\<lparr>rd_idx := rd_idx st + 1, rd_flight := rd_flight st @ [buffer_idx], rd_taken := rd_taken st @ [batch]\<rparr>)
             else (False, st1))
     }"

text \<open>The loop reads until the pool is exhausted, nothing is left to read, or no submission entry is available.\<close>

fun fill_loop :: "('c \<times> bool) list \<Rightarrow> 'c reader_io \<Rightarrow> 'c reader_io option" where
  "fill_loop [] st = Some st"
| "fill_loop ((batch, sqe) # rs) st =
     (if rd_idx st = RING_SIZE then Some st
      else do {
        (more, st') \<leftarrow> fill_slot batch sqe st;
        if more then fill_loop rs st' else Some st'
      })"

text \<open>A completion of the \<open>k\<close>-th of the writes in flight.\<close>

definition complete_slot :: "nat \<Rightarrow> 'c reader_io \<Rightarrow> 'c reader_io option" where
  "complete_slot k st =
     do {
       data \<leftarrow> nth_opt (rd_flight st) k;
       (if rd_idx st = 0 then None else Some ());
       Some (st\<lparr>rd_idx := rd_idx st - 1, rd_position := (rd_position st)[rd_idx st - 1 := data],
         rd_flight := take k (rd_flight st) @ drop (Suc k) (rd_flight st),
         rd_done := rd_done st @ [rd_bufs st data]\<rparr>)
     }"

fun consume_loop :: "nat list \<Rightarrow> 'c reader_io \<Rightarrow> 'c reader_io option" where
  "consume_loop [] st = Some st"
| "consume_loop (k # ks) st =
     do {
       st' \<leftarrow> complete_slot k st;
       if rd_idx st' = 0 then Some st' else consume_loop ks st'
     }"

fun reader_rounds :: "(('c \<times> bool) list \<times> nat list) list \<Rightarrow> 'c reader_io \<Rightarrow> 'c reader_io option" where
  "reader_rounds [] st = Some st"
| "reader_rounds ((reads, completions) # rounds) st =
     do {
       st1 \<leftarrow> fill_loop reads st;
       st2 \<leftarrow> consume_loop completions st1;
       reader_rounds rounds st2
     }"

section \<open>No buffer is reused too early\<close>

definition pool_inv :: "'c reader_io \<Rightarrow> bool" where
  "pool_inv st \<longleftrightarrow> length (rd_position st) = RING_SIZE \<and> rd_idx st = length (rd_flight st) \<and> rd_idx st \<le> RING_SIZE
     \<and> distinct (rd_flight st @ drop (rd_idx st) (rd_position st))
     \<and> mset (rd_taken st) = mset (rd_done st) + mset (map (rd_bufs st) (rd_flight st))"

lemma start_io_inv: "pool_inv (start_io bufs)"
  by (simp add: pool_inv_def start_io_def)

lemma fill_slot_inv:
  assumes inv: "pool_inv st" and idx: "rd_idx st \<noteq> RING_SIZE"
  shows "\<exists>more st'. fill_slot batch sqe st = Some (more, st') \<and> pool_inv st'"
proof -
  let ?i = "rd_idx st" and ?p = "rd_position st"
  have i: "?i < length ?p" using inv idx by (simp add: pool_inv_def)
  have split: "drop ?i ?p = ?p ! ?i # drop (Suc ?i) ?p" using i by (simp add: Cons_nth_drop_Suc)
  have d: "distinct (rd_flight st @ ?p ! ?i # drop (Suc ?i) ?p)" using inv unfolding pool_inv_def split by blast
  have "map ((rd_bufs st)(?p ! ?i := batch)) (rd_flight st) = map (rd_bufs st) (rd_flight st)"
    using d by (intro map_cong) auto
  then have same: "image_mset ((rd_bufs st)(?p ! ?i := batch)) (mset (rd_flight st)) = image_mset (rd_bufs st) (mset (rd_flight st))"
    by (simp only: mset_map [symmetric])
  have facts: "length ?p = RING_SIZE" "?i = length (rd_flight st)" "?i \<le> RING_SIZE"
    "mset (rd_taken st) = mset (rd_done st) + mset (map (rd_bufs st) (rd_flight st))"
    using inv unfolding pool_inv_def by blast+
  show ?thesis
  proof (cases sqe)
    case True
    have "distinct ((rd_flight st @ [?p ! ?i]) @ drop (Suc ?i) ?p)" using d by simp
    then have "pool_inv (st\<lparr>rd_bufs := (rd_bufs st)(?p ! ?i := batch), rd_idx := ?i + 1, rd_flight := rd_flight st @ [?p ! ?i],
        rd_taken := rd_taken st @ [batch]\<rparr>)"
      using i facts same unfolding pool_inv_def by auto
    then show ?thesis using True i by (auto simp: fill_slot_def)
  next
    case False
    have "distinct (rd_flight st @ drop ?i ?p)" using d split by simp
    then have "pool_inv (st\<lparr>rd_bufs := (rd_bufs st)(?p ! ?i := batch)\<rparr>)" using facts same unfolding pool_inv_def by simp
    then show ?thesis using False i by (auto simp: fill_slot_def)
  qed
qed

lemma pool_inv_update:
  "pool_inv (st\<lparr>rd_idx := i, rd_position := p, rd_flight := f, rd_done := d\<rparr>) \<longleftrightarrow>
     length p = RING_SIZE \<and> i = length f \<and> i \<le> RING_SIZE \<and> distinct (f @ drop i p)
     \<and> mset (rd_taken st) = mset d + mset (map (rd_bufs st) f)"
  by (simp add: pool_inv_def)

lemma complete_slot_inv:
  assumes inv: "pool_inv st" and k: "k < length (rd_flight st)"
  shows "\<exists>st'. complete_slot k st = Some st' \<and> pool_inv st'"
proof -
  let ?i = "rd_idx st" and ?p = "rd_position st" and ?f = "rd_flight st"
  have facts: "length ?p = RING_SIZE" "?i = length ?f" "?i \<le> RING_SIZE" "distinct (?f @ drop ?i ?p)"
    "mset (rd_taken st) = mset (rd_done st) + mset (map (rd_bufs st) ?f)"
    using inv unfolding pool_inv_def by blast+
  have f: "?f = take k ?f @ ?f ! k # drop (Suc k) ?f" using k by (simp add: id_take_nth_drop)
  have pos: "0 < ?i" using k facts(2) by linarith
  let ?f' = "take k ?f @ drop (Suc k) ?f" and ?p' = "?p[?i - 1 := ?f ! k]"
  let ?st' = "st\<lparr>rd_idx := ?i - 1, rd_position := ?p', rd_flight := ?f', rd_done := rd_done st @ [rd_bufs st (?f ! k)]\<rparr>"
  have dr: "drop (?i - 1) ?p' = ?f ! k # drop ?i ?p"
    using pos facts(1,3) by (simp add: Cons_nth_drop_Suc [symmetric] drop_update_cancel)
  have di: "distinct (?f' @ ?f ! k # drop ?i ?p)" using facts(4) by (subst (asm) f) auto
  have ms: "mset (map (rd_bufs st) ?f) = mset (map (rd_bufs st) ?f') + {#rd_bufs st (?f ! k)#}" by (subst f) simp
  have len: "length ?f' = ?i - 1" using k facts(2) by simp
  have "distinct (?f' @ drop (?i - 1) ?p')" unfolding dr by (rule di)
  moreover have "mset (rd_taken st) = mset (rd_done st @ [rd_bufs st (?f ! k)]) + mset (map (rd_bufs st) ?f')"
    unfolding facts(5) ms by simp
  moreover have "length ?p' = RING_SIZE" "?i - 1 = length ?f'" "?i - 1 \<le> RING_SIZE" using facts(1,3) len by simp_all
  ultimately have "pool_inv ?st'" unfolding pool_inv_update by blast
  moreover have "complete_slot k st = Some ?st'" using k pos by (simp add: complete_slot_def)
  ultimately show ?thesis by blast
qed

lemma fill_loop_inv: "pool_inv st \<Longrightarrow> \<exists>st'. fill_loop reads st = Some st' \<and> pool_inv st'"
proof (induction reads st rule: fill_loop.induct)
  case (1 st)
  then show ?case by simp
next
  case (2 batch sqe rs st)
  show ?case
  proof (cases "rd_idx st = RING_SIZE")
    case True
    then show ?thesis using 2(2) by simp
  next
    case False
    then obtain more st' where f: "fill_slot batch sqe st = Some (more, st')" "pool_inv st'"
      using fill_slot_inv [OF 2(2) False] by blast
    then show ?thesis using 2(1) [OF False] False by (cases more) simp_all
  qed
qed

lemma consume_loop_inv: "pool_inv st \<Longrightarrow> consume_loop ks st = Some st' \<Longrightarrow> pool_inv st'"
proof (induction ks arbitrary: st)
  case Nil
  then show ?case by simp
next
  case (Cons k ks)
  obtain st1 where s: "complete_slot k st = Some st1" "(if rd_idx st1 = 0 then Some st1 else consume_loop ks st1) = Some st'"
    using Cons.prems(2) by (auto simp: bind_eq_Some_conv)
  have "k < length (rd_flight st)"
    using s(1) by (auto simp: complete_slot_def bind_eq_Some_conv nth_opt_Some_iff)
  then have "pool_inv st1" using complete_slot_inv [OF Cons.prems(1)] s(1) by fastforce
  then show ?case using s(2) Cons.IH by (auto split: if_splits)
qed

lemma reader_rounds_inv: "pool_inv st \<Longrightarrow> reader_rounds rounds st = Some st' \<Longrightarrow> pool_inv st'"
proof (induction rounds st rule: reader_rounds.induct)
  case (1 st)
  then show ?case by simp
next
  case (2 reads completions rounds st)
  obtain st1 where s1: "fill_loop reads st = Some st1" "pool_inv st1" using fill_loop_inv [OF 2(2)] by blast
  then obtain st2 where s2: "consume_loop completions st1 = Some st2" "reader_rounds rounds st2 = Some st'"
    using 2(3) by (auto simp: bind_eq_Some_conv)
  show ?case by (rule 2(1) [OF s1(1) s2(1) consume_loop_inv [OF s1(2) s2(1)] s2(2)])
qed



section \<open>The zero-copy reader\<close>

text \<open>A batch is the tag of the range that was claimed; its completion returns the range.\<close>

definition read_zero :: "u8 \<Rightarrow> fips_buf_thread_arg_t \<Rightarrow> fips_shm \<Rightarrow> (fips_buf_range_t option \<times> fips_read_result) option" where
  "read_zero rotation t shm =
     do {
       r \<leftarrow> fips_buf_read BUF_SIZE 0 rotation t shm;
       Some (if rr_code r \<noteq> FIPS_BUF_SUCCESS then None else rr_tag r, r)
     }"

definition complete_zero :: "nat \<Rightarrow> fips_buf_range_t reader_io \<Rightarrow> fips_shm \<Rightarrow> (fips_buf_range_t reader_io \<times> fips_shm) option" where
  "complete_zero k st shm =
     do {
       data \<leftarrow> nth_opt (rd_flight st) k;
       st' \<leftarrow> complete_slot k st;
       (_, shm') \<leftarrow> fips_buf_return (rd_bufs st data) shm;
       Some (st', shm')
     }"

end
