(* ===== verification/Logstash.thy ===== *)
theory Logstash
  imports Shm_Ringbuf
begin

text \<open>
  The program \<open>src/programs/simplelogstash.c\<close>: \<open>write_routine\<close> reads the lines of all segments of the ring in batches
  and writes them to a file with two buffers, so that one is filled while the other is written. The result of the
  read is an argument of a round, as are those of the \<open>io_uring\<close> calls; \<open>logstash_read\<close> is the call it comes from. The
  kernel writes what the buffer holds when the write completes. The length of every vector element stays the size of
  the buffer, so a line is written with the zeros behind it.
\<close>

section \<open>Rounds\<close>

record logstash =
  second_buf :: bool
  io_buf1 :: "bytes list"
  io_buf2 :: "bytes list"
  lg_sqe :: "(bool \<times> nat) option"
  lg_file :: "bytes list"
  lg_rcv_count :: u64
  lg_write_count :: u64

definition LG_QUEUE_SIZE :: nat where "LG_QUEUE_SIZE = 100"
definition LG_LINEBUF_SIZE :: nat where "LG_LINEBUF_SIZE = 128"

record logstash_env =
  le_read_index :: int
  le_lines :: "bytes list"
  le_wait_ok :: bool
  le_sqe_ok :: bool
  le_submit_ok :: bool

definition buffer_of :: "bool \<Rightarrow> logstash \<Rightarrow> bytes list" where
  "buffer_of b s = (if b then io_buf2 s else io_buf1 s)"

text \<open>The read stores its lines at the start of the buffer.\<close>

definition fill_buffer :: "bool \<Rightarrow> bytes list \<Rightarrow> logstash \<Rightarrow> logstash" where
  "fill_buffer b ls s =
     (if b then s\<lparr>io_buf2 := ls @ drop (length ls) (io_buf2 s)\<rparr> else s\<lparr>io_buf1 := ls @ drop (length ls) (io_buf1 s)\<rparr>)"

text \<open>The read of a round: the return value and the elements of the vector that got a line; the cursors are thread-local
  variables of the ring buffer.\<close>

definition logstash_read :: "shmrbuf_reader_arg_t \<Rightarrow> u8 \<Rightarrow> u8 \<Rightarrow> shm_region \<Rightarrow> (int \<times> bytes list \<times> u8 \<times> u8 \<times> shm_region) option" where
  "logstash_read rbuf_arg segment_index steal_index shm =
     do {
       (read_index, ls, si, sti, _, shm') \<leftarrow> shmrbuf_readv_rng rbuf_arg (of_nat LG_QUEUE_SIZE) (of_nat LG_LINEBUF_SIZE) 0
         (g_segment_count (global_hdr shm)) False segment_index steal_index shm;
       Some (read_index, map (\<lambda>l. l @ replicate (LG_LINEBUF_SIZE - length l) 0) ls, si, sti, shm')
     }"

text \<open>Waiting for the last write.\<close>

definition await_last :: "logstash_env \<Rightarrow> logstash \<Rightarrow> bool \<times> logstash" where
  "await_last env s =
     (case lg_sqe s of
        None \<Rightarrow> (True, s)
      | Some (b, n) \<Rightarrow>
          if \<not> le_wait_ok env then (False, s)
          else (True, s\<lparr>lg_sqe := None, lg_file := lg_file s @ take n (buffer_of b s)\<rparr>))"

text \<open>One round; the flag is \<open>False\<close> when the loop is left with an error.\<close>

definition write_round :: "logstash_env \<Rightarrow> logstash \<Rightarrow> bool \<times> logstash" where
  "write_round env s =
     (if le_read_index env < 0 then (False, s)
      else let s1 = fill_buffer (second_buf s) (le_lines env) s in
        case await_last env s1 of
          (False, s2) \<Rightarrow> (False, s2)
        | (True, s2) \<Rightarrow>
            if 0 < le_read_index env
            then let s3 = s2\<lparr>lg_rcv_count := lg_rcv_count s2 + of_int (le_read_index env)\<rparr> in
              if \<not> le_sqe_ok env then (False, s3)
              else if \<not> le_submit_ok env then (False, s3\<lparr>lg_sqe := Some (second_buf s3, nat (le_read_index env))\<rparr>)
              else (True, s3\<lparr>lg_sqe := Some (second_buf s3, nat (le_read_index env)),
                lg_write_count := lg_write_count s3 + of_int (le_read_index env), second_buf := \<not> second_buf s3\<rparr>)
            else (True, s2))"

fun write_routine :: "logstash_env list \<Rightarrow> logstash \<Rightarrow> bool \<times> logstash" where
  "write_routine [] s = (True, s)"
| "write_routine (env # envs) s =
     (case write_round env s of
        (False, s') \<Rightarrow> (False, s')
      | (True, s') \<Rightarrow> write_routine envs s')"

section \<open>Every line reaches the file once and in order\<close>

text \<open>What has been written or is being written.\<close>

definition lg_output :: "logstash \<Rightarrow> bytes list" where
  "lg_output s = lg_file s @ (case lg_sqe s of None \<Rightarrow> [] | Some (b, n) \<Rightarrow> take n (buffer_of b s))"

definition buffers_apart :: "logstash \<Rightarrow> bool" where
  "buffers_apart s \<longleftrightarrow> (case lg_sqe s of None \<Rightarrow> True | Some (b, n) \<Rightarrow> b \<noteq> second_buf s)"

text \<open>A read returns the number of lines it delivers.\<close>

definition read_ok :: "logstash_env \<Rightarrow> bool" where
  "read_ok env \<longleftrightarrow> 0 \<le> le_read_index env \<longrightarrow> length (le_lines env) = nat (le_read_index env)"

lemma fill_buffer_simps [simp]:
  "lg_sqe (fill_buffer b ls s) = lg_sqe s" "lg_file (fill_buffer b ls s) = lg_file s"
  "second_buf (fill_buffer b ls s) = second_buf s" "lg_rcv_count (fill_buffer b ls s) = lg_rcv_count s"
  "lg_write_count (fill_buffer b ls s) = lg_write_count s"
  by (simp_all add: fill_buffer_def)

lemma buffer_of_fill:
  "buffer_of b (fill_buffer b' ls s) = (if b = b' then ls @ drop (length ls) (buffer_of b s) else buffer_of b s)"
  by (cases b; cases b') (simp_all add: buffer_of_def fill_buffer_def)

lemma buffer_of_update [simp]:
  "buffer_of b (s\<lparr>lg_sqe := q\<rparr>) = buffer_of b s" "buffer_of b (s\<lparr>lg_file := f\<rparr>) = buffer_of b s"
  "buffer_of b (s\<lparr>lg_rcv_count := c\<rparr>) = buffer_of b s" "buffer_of b (s\<lparr>lg_write_count := c\<rparr>) = buffer_of b s"
  "buffer_of b (s\<lparr>second_buf := x\<rparr>) = buffer_of b s"
  by (simp_all add: buffer_of_def)

lemma await_last_ok:
  assumes "await_last env s = (True, s')"
  shows "lg_sqe s' = None" and "lg_file s' = lg_output s" and "second_buf s' = second_buf s" and "buffer_of b s' = buffer_of b s"
    and "lg_rcv_count s' = lg_rcv_count s" and "lg_write_count s' = lg_write_count s"
  using assms by (auto simp: await_last_def lg_output_def split: option.splits if_splits)

lemma write_round_result:
  assumes "buffers_apart s" and "read_ok env" and "write_round env s = (True, s')"
  shows "lg_output s' = lg_output s @ le_lines env" and "buffers_apart s'"
    and "lg_rcv_count s' = lg_rcv_count s + of_nat (length (le_lines env))"
    and "lg_write_count s' = lg_write_count s + of_nat (length (le_lines env))"
proof -
  let ?b = "second_buf s" and ?ls = "le_lines env"
  let ?s1 = "fill_buffer ?b ?ls s"
  have nn: "0 \<le> le_read_index env" using assms(3) by (auto simp: write_round_def split: if_splits)
  then have len: "length ?ls = nat (le_read_index env)" using assms(2) by (simp add: read_ok_def)
  obtain s2 where s2: "await_last env ?s1 = (True, s2)"
    using assms(3) nn by (cases "await_last env ?s1") (auto simp: write_round_def Let_def split: if_splits bool.splits)
  note a = await_last_ok [OF s2]
  have o1: "lg_output ?s1 = lg_output s"
    using assms(1) by (cases "lg_sqe s") (auto simp: lg_output_def buffers_apart_def buffer_of_fill)
  have buf: "take (nat (le_read_index env)) (buffer_of ?b s2) = ?ls"
    unfolding a(4) buffer_of_fill using len by simp
  have r: "write_round env s = (if 0 < le_read_index env
      then let s3 = s2\<lparr>lg_rcv_count := lg_rcv_count s2 + of_int (le_read_index env)\<rparr> in
              if \<not> le_sqe_ok env then (False, s3)
              else if \<not> le_submit_ok env then (False, s3\<lparr>lg_sqe := Some (second_buf s3, nat (le_read_index env))\<rparr>)
              else (True, s3\<lparr>lg_sqe := Some (second_buf s3, nat (le_read_index env)),
                lg_write_count := lg_write_count s3 + of_int (le_read_index env), second_buf := \<not> second_buf s3\<rparr>)
      else (True, s2))"
    unfolding write_round_def Let_def using nn s2 by simp
  have "lg_output s' = lg_output s @ ?ls \<and> buffers_apart s' \<and> lg_rcv_count s' = lg_rcv_count s + of_nat (length ?ls)
    \<and> lg_write_count s' = lg_write_count s + of_nat (length ?ls)"
  proof (cases "0 < le_read_index env")
    case True
    then have "s' = s2\<lparr>lg_rcv_count := lg_rcv_count s2 + of_int (le_read_index env), lg_sqe := Some (?b, nat (le_read_index env)),
        lg_write_count := lg_write_count s2 + of_int (le_read_index env), second_buf := \<not> ?b\<rparr>"
      using assms(3) unfolding r Let_def by (auto simp: a(3) split: if_splits)
    moreover have "(of_int (le_read_index env) :: u64) = of_nat (length ?ls)" using len nn by simp
    ultimately show ?thesis using a o1 buf by (simp add: lg_output_def buffers_apart_def)
  next
    case False
    then have "s' = s2" "?ls = []" using assms(3) len unfolding r by simp_all
    then show ?thesis using a o1 by (simp add: lg_output_def buffers_apart_def)
  qed
  then show "lg_output s' = lg_output s @ ?ls" "buffers_apart s'" "lg_rcv_count s' = lg_rcv_count s + of_nat (length ?ls)"
    "lg_write_count s' = lg_write_count s + of_nat (length ?ls)" by simp_all
qed

text \<open>The call delivers as many lines as it says.\<close>

lemma get_lines_length: "get_lines ls off n m = Some lines \<Longrightarrow> length lines = n"
  by (induction ls off n m arbitrary: lines rule: get_lines.induct) (auto simp: bind_eq_Some_conv)

lemma ucast_16_le: "(x :: u32) < ucast (y :: u16) \<Longrightarrow> (ucast x :: u16) \<le> y"
  using order.trans [OF take_bit_nat_less_eq_self [of 16 "unat x"], of "unat y"]
  by (simp add: word_le_nat_alt word_less_nat_alt unsigned_ucast_eq)

lemma shmrbuf_readv_length:
  assumes "shmrbuf_readv args True vsize bufsize idx shm = Some (retval, ls, shm')" and "0 \<le> retval"
  shows "length ls = nat retval" and "retval \<le> uint vsize"
proof -
  have "retval = 0 \<and> ls = [] \<or> (\<exists>sz off (v :: u16) m. retval = uint v \<and> v \<le> vsize \<and> get_lines sz off (unat v) m = Some ls)"
    using assms by (auto simp: shmrbuf_readv_def Let_def bind_eq_Some_conv IO_IPC_NULLPTR_ERR_def IO_IPC_ARG_ERR_def
        IO_IPC_SIZE_ERR_def split: option.splits if_splits intro: ucast_16_le)
  then have "length ls = nat retval \<and> retval \<le> uint vsize"
    by (auto dest: get_lines_length simp: word_le_def)
  then show "length ls = nat retval" "retval \<le> uint vsize" by simp_all
qed

lemma readv_scan_length:
  "readv_scan n nxt args bufsize rd vsize acc idx shm = Some (stop, retval, rd', vsize', ls, idx', shm') \<Longrightarrow>
     length acc = unat rd \<Longrightarrow> unat rd + unat vsize < 2 ^ 16 \<Longrightarrow> 0 \<le> retval \<Longrightarrow> length ls = nat retval"
proof (induction n arbitrary: rd vsize acc idx shm)
  case 0
  then show ?case by auto
next
  case (Suc n)
  obtain r l shm1 where r: "shmrbuf_readv args True vsize bufsize (nxt idx) shm = Some (r, l, shm1)"
    using Suc.prems(1) by (auto simp: bind_eq_Some_conv)
  consider "r < 0" | "r = 0" | "0 < r" by linarith
  then show ?case
  proof cases
    case 1
    then show ?thesis using Suc.prems r by simp
  next
    case 2
    then show ?thesis using Suc.prems r Suc.IH [of rd vsize acc "nxt idx + 1" shm1] by simp
  next
    case 3
    define v where "v = (word_of_int r :: u16)"
    have len: "length l = nat r" "r \<le> uint vsize" using shmrbuf_readv_length [OF r] 3 by simp_all
    have "uint vsize < 65536" using uint_lt2p [of vsize] by simp
    then have "0 \<le> r" "r < 65536" using 3 len(2) by linarith+
    then have v: "r = uint v" by (simp add: v_def uint_word_of_int)
    have le: "unat v \<le> unat vsize" using len(2) unfolding v word_le_nat_alt [symmetric] word_le_def .
    then have rd: "unat (rd + v) = unat rd + unat v" "unat (vsize - v) = unat vsize - unat v"
      using Suc.prems(3) by (simp_all add: unat_word_ariths unat_sub word_le_nat_alt)
    have acc: "length (acc @ l) = unat (rd + v)" using Suc.prems(2) len(1) v rd(1) by simp
    show ?thesis
    proof (cases "r = uint vsize")
      case True
      then have "retval = uint (rd + v)" "ls = acc @ l" using Suc.prems(1) r 3 by (auto simp: v_def Let_def)
      then show ?thesis using acc by simp
    next
      case False
      then have "readv_scan n nxt args bufsize (rd + v) (vsize - v) (acc @ l) (nxt idx + 1) shm1
          = Some (stop, retval, rd', vsize', ls, idx', shm')"
        using Suc.prems(1) r 3 by (simp add: v_def Let_def)
      from Suc.IH [OF this acc] show ?thesis using rd le Suc.prems(3,4) by simp
    qed
  qed
qed

text \<open>So a round that gets its lines from the ring satisfies the assumption on the read.\<close>

lemma logstash_read_ok:
  assumes "logstash_read a si sti shm = Some (n, ls, si', sti', shm')" and "le_read_index env = n" and "le_lines env = ls"
  shows "read_ok env"
proof -
  have "length ls = nat n" if "0 \<le> n"
    using assms(1) that
    by (auto simp: logstash_read_def shmrbuf_readv_rng_def Let_def bind_eq_Some_conv LG_QUEUE_SIZE_def IO_IPC_ARG_ERR_def
        dest!: readv_scan_length split: if_splits)
  then show ?thesis using assms(2,3) by (simp add: read_ok_def)
qed

text \<open>C27. The log writer neither loses, repeats nor reorders lines: as long as no call fails, the file followed by the
  write in flight holds exactly the lines read so far, in the order in which they were read; the buffer in flight is
  never the one that is filled next; and both counters grow by the number of lines.\<close>

theorem write_routine_lossless:
  assumes "write_routine envs s = (True, s')" and "buffers_apart s" and "\<forall>env\<in>set envs. read_ok env"
  shows "lg_output s' = lg_output s @ concat (map le_lines envs) \<and> buffers_apart s'
    \<and> lg_rcv_count s' = lg_rcv_count s + of_nat (length (concat (map le_lines envs)))
    \<and> lg_write_count s' = lg_write_count s + of_nat (length (concat (map le_lines envs)))"
  using assms
proof (induction envs arbitrary: s)
  case Nil
  then show ?case by simp
next
  case (Cons env envs)
  obtain s1 where s1: "write_round env s = (True, s1)" "write_routine envs s1 = (True, s')"
    using Cons.prems(1) by (auto split: prod.splits bool.splits)
  have ok: "read_ok env" "\<forall>env\<in>set envs. read_ok env" using Cons.prems(3) by simp_all
  note r = write_round_result [OF Cons.prems(2) ok(1) s1(1)]
  from Cons.IH [OF s1(2) r(2) ok(2)] r show ?case by simp
qed

definition quiet_logstash :: logstash where
  "quiet_logstash = \<lparr>second_buf = False, io_buf1 = [], io_buf2 = [], lg_sqe = None, lg_file = [], lg_rcv_count = 0, lg_write_count = 0\<rparr>"

definition good_read :: "bytes list \<Rightarrow> logstash_env" where
  "good_read ls = \<lparr>le_read_index = int (length ls), le_lines = ls, le_wait_ok = True, le_sqe_ok = True, le_submit_ok = True\<rparr>"

theorem write_routine_lossless_witness:
  "\<exists>s'. write_routine [good_read [[1], [2]], good_read [], good_read [[3]]] quiet_logstash = (True, s')
    \<and> lg_output s' = [[1], [2], [3]] \<and> lg_file s' = [[1], [2]]"
proof -
  let ?envs = "[good_read [[1], [2]], good_read [], good_read [[3]]]"
  obtain s' where s': "write_routine ?envs quiet_logstash = (True, s')" "lg_file s' = [[1], [2]]"
    by (simp add: write_round_def await_last_def good_read_def quiet_logstash_def fill_buffer_def buffer_of_def Let_def)
  have "buffers_apart quiet_logstash" "\<forall>env\<in>set ?envs. read_ok env" "lg_output quiet_logstash = []"
    by (simp_all add: buffers_apart_def quiet_logstash_def read_ok_def good_read_def lg_output_def)
  with write_routine_lossless [OF s'(1)] s' show ?thesis by (simp add: good_read_def)
qed

end
