(* ===== verification/Spec2Isabelle.thy ===== *)
theory Spec2Isabelle
  imports Ip_Hashtable Ip_Llist Shm_Ringbuf_Props Shm_Setup Fips_Ring_Props Fips_Assign_Props
    Fips_Read Fips_Init Xdp_Blacklist Ip_To_Str Uring_Getline Sf2b_System
    Sf2b_Parse Sf2b_Binary Sf2b_Ipc Sf2b_Source Sf2b_Main Blacklist_Tool
    Udp_Main Log_Trip Syslog Shm_Reader Logstash
begin

text \<open>
  A verification library for FIPS IPC: the shared memory transports for log messages, the ban program
  \<open>simplefail2ban\<close> that reads them and blocks clients in the kernel, and the programs around them. All paths below are
  relative to \<open>src/src/\<close>.

  \<^bold>\<open>The program.\<close> A logging program (\<open>programs/udp_server.c\<close>, or any program with the \<open>syslog\<close> replacement
  \<open>lib/syslog.c\<close>) writes log entries to a file, to the ring of \<open>lib/shm_ringbuf.c\<close> or to the zero-copy buffer of
  \<open>lib/fips_buf.c\<close>. The ban program (\<open>programs/sf2b/\<close>) reads them, counts the lines of a client in \<open>lib/ip_hashtable.c\<close>, and
  when the count reaches the limit puts the client on the list of \<open>lib/ip_llist.c\<close> and into a map of the packet filter
  \<open>lib/ip_blacklist.bpf.c\<close>, which drops its packets; the unbanning thread undoes this when the ban time is over. The maps can
  also be changed by hand with \<open>cmdline_prog/\<close>. \<open>programs/shm_reader.c\<close> and \<open>programs/simplelogstash.c\<close> write the messages of
  the shared memory to a file.

  \<^bold>\<open>Theories.\<close> \<open>Prelude\<close> has the types, the memory and option lemmas and the collections of simplification rules.
  Interfaces are locales: \<open>Counting_Table\<close> (a table of sightings with a window, and its extension with a reset) and
  \<open>Message_Queue\<close> (one writer, many readers); \<open>Ring_Lines\<close> has the arithmetic of positions in a ring.

  \<^item> \<open>Ip_Hashtable\<close>: \<open>lib/ip_hashtable.c\<close>. Every operation with its locks and allocations; interprets the counting table for
    both families. Counting of a log, initialisation, destruction after a refill.
  \<^item> \<open>Ip_Llist\<close>: \<open>lib/ip_llist.c\<close> on an explicit heap. Push, removal, and that destruction ends and frees every node.
  \<^item> \<open>Shm_Ringbuf\<close>, \<open>Shm_Ringbuf_Props\<close>, \<open>Shm_Setup\<close>: \<open>lib/shm_ringbuf.c\<close>, data path and life cycle; interprets the message
    queue. Delivery in order to every reader for every interleaving, each call on each branch, creation and attachment.
  \<^item> \<open>Fips_Layout\<close>, \<open>Fips_Ring\<close>, \<open>Fips_Ring_Inv\<close>, \<open>Fips_Channel\<close>, \<open>Fips_Ring_Props\<close>, \<open>Fips_Assign\<close>, \<open>Fips_Assign_Props\<close>,
    \<open>Fips_Read\<close>, \<open>Fips_Init\<close>: \<open>lib/fips_buf.c\<close>. The layout of the memory, the ring discipline of the claim and commit
    operations, the message queue it implements, the assignment of segments to threads, the reading call with its
    rotation, and the registration of processes.
  \<^item> \<open>Xdp_Blacklist\<close>: \<open>lib/ip_blacklist.bpf.c\<close> on a packet as a list of bytes. No read behind the packet, the verdicts for
    IPv4 and IPv6 frames.
  \<^item> \<open>Ip_To_Str\<close>: \<open>lib/ip_to_str.c\<close>. \<open>Uring_Getline\<close>: \<open>lib/uring_getline.c\<close>, which refines reading a file line by line.
  \<^item> \<open>Sf2b_Config\<close>, \<open>Sf2b_Parse\<close>, \<open>Sf2b_Ban\<close>, \<open>Sf2b_Binary\<close>, \<open>Sf2b_Unban\<close>, \<open>Sf2b_Ipc\<close>, \<open>Sf2b_Source\<close>, \<open>Sf2b_Main\<close>,
    \<open>Sf2b_System\<close>: \<open>programs/sf2b/\<close> and \<open>lib/ebpf_utils.c\<close>. Options and whitelist, the parser of a line, banning and its
    refinement to an abstract machine of counts and bans, the binary variant, unbanning, the four line sources, start and
    end, and the interleaving of the threads as a step relation with its invariant.
  \<^item> \<open>Blacklist_Tool\<close>: \<open>cmdline_prog/xdp_ddos01_blacklist_cmdline.c\<close>, its header and the subnet tool. What a change does to the
    verdicts of the filter, and the subnet counter.
  \<^item> \<open>Udp_Server\<close>, \<open>Udp_Props\<close>, \<open>Udp_Main\<close>: \<open>programs/udp_server.c\<close>. Options, log entries, the event loop with its four
    transports, start and clean-up. \<open>Log_Trip\<close> joins it with the ban program: what it logs is parsed back.
  \<^item> \<open>Syslog\<close>: \<open>lib/syslog.c\<close>. \<open>Shm_Reader\<close>: \<open>programs/shm_reader.c\<close>. \<open>Logstash\<close>: \<open>programs/simplelogstash.c\<close>.
  \<^item> This theory has the property that spans the table, the list, the ban loop and the packet filter.

  \<^bold>\<open>Conventions.\<close> Structures are records with a prefix on the fields where names would clash, enumerations are datatypes,
  integers have the width of the code, and only counters that cannot wrap are \<open>int\<close> or \<open>nat\<close>. The result type \<open>option\<close> stands
  for defined behaviour: \<open>None\<close> is a read or write outside an object, a use of a freed or uninitialised object, or a division
  by zero. Return codes are values. Shared memory and buffers are lists of bytes with checked reads and writes. Results of
  system and library calls that the code reacts to (allocation, locks, sockets, \<open>io_uring\<close>, time) are environment records,
  arguments of the operation that calls them; libraries outside the repository (Hyperscan, \<open>inet_pton\<close>, \<open>strptime\<close>, the eBPF
  system calls) are parameters, with what the kernel documents as predicates such as \<open>bpf_ok\<close>, \<open>array_ok\<close> and \<open>subnet_ok\<close>,
  each with an instance in a witness. Sizes of structures and the byte order are those of x86-64 Linux.

  \<^bold>\<open>Loops and bounds.\<close> Event loops are functions over the list of what happens in their rounds, so a finite run of any length
  is covered. The loops over segments, bins, tries and extension headers have the bound of the code as an argument of the
  recursion. The only loop whose end is not structural, the destruction of a linked list, is a partial function that is
  proved to return on every well-formed list. The calls of a thread are atomic steps in \<open>Sf2b_System\<close> and in the
  interleavings of the message queues: the code protects them with a mutex, or a position has a single writer that publishes
  it after the data; torn or reordered accesses of the memory are outside the model.

  \<^bold>\<open>Where the code fails.\<close> Some theorems state a defect as the code has it: they start with the situation and end in a wrong
  result, a refusal or \<open>None\<close>. Theorems on the intended behaviour carry the condition under which it holds.

  \<^bold>\<open>Not modelled.\<close> Printing, statistics and their floating point rates; the creation of threads, sockets and rings beyond
  their results; the compilation of the patterns (\<open>programs/sf2b/hs.c\<close>, one library call); the builds with \<open>GRPC\<close>, \<open>DEBUG\<close>,
  \<open>LONGTERM\<close>, \<open>SUBNET\<close> in the kernel, \<open>CPUSTATS\<close> and \<open>BIN_TO_STRING\<close>; the \<open>gRPC\<close> client in C++; benchmarks and test drivers; the
  older versions under \<open>deprecated/\<close> and the hash table benchmark under \<open>htb/\<close>.
\<close>

section \<open>From the log to the packet filter\<close>

text \<open>C1. An offender is cut off. When a batch of log lines holds enough lines of an IPv4 client, inside one
  find time, to bring its count to the limit, and the client is not in the whitelisted network, then after
  the batch every IPv4 frame from this client, with up to two VLAN tags, is dropped by the packet filter.\<close>

theorem offender_packets_dropped:
  assumes "bpf_ok ops" and "ban_rel AF_INET w (server st) a" and "batch_ok AF_INET batch (server st) a"
    and "batch = (env, c) # rest" and "take 3 k \<noteq> take 3 (whitelistv4 (config (server st)))"
    and "\<forall>(e, x)\<in>set (sightings AF_INET k batch).
      be_time e - hc_timestamp c \<le> uint (findtime (config (server st)))
      \<and> start \<le> hc_timestamp x \<and> hc_timestamp x \<le> start + w"
    and "counted_so_far start (bs_count a k) n" and "n < unat (limit (config (server st)))"
    and "unat (limit (config (server st))) \<le> n + length (sightings AF_INET k batch)"
    and "frame_ok macs tags" and "20 \<le> length body" and "k = take 4 (drop 12 body)"
  shows "\<exists>st' m'. ban_clients ops batch st = Some st'
    \<and> xdp_prog (eth_frame macs tags ETH_P_IP body) (bpf_maps (server st')) = Some (XDP_DROP, m')"
proof -
  let ?cfg = "config (server st)"
  obtain st' where st': "ban_loop ops (hc_timestamp c) batch st = Some st'"
    "ban_rel AF_INET w (server st') (spec_loop ?cfg w AF_INET (hc_timestamp c) batch a)"
    using ban_loop_refines [OF assms(1-3), of "hc_timestamp c"] by blast
  have "k \<in> dom (bs_black (spec_loop ?cfg w AF_INET (hc_timestamp c) batch a))"
    by (rule spec_loop_bans [OF _ assms(6-9)]) (use assms(5) in simp)
  then have "k \<in> dom (blacklistv4 (bpf_maps (server st')))"
    using st'(2) by (auto simp: ban_rel_def family_map_def)
  then obtain m' where "xdp_prog (eth_frame macs tags ETH_P_IP body) (bpf_maps (server st')) = Some (XDP_DROP, m')"
    using xdp_ipv4_verdict [OF assms(10-12), of "bpf_maps (server st')"] by auto
  moreover have "ban_clients ops batch st = Some st'" using st'(1) assms(4) by (simp add: ban_clients_def)
  ultimately show ?thesis by blast
qed

theorem offender_packets_dropped_witness:
  "\<exists>st' m'. ban_clients example_ops [example_line 1 [192, 0, 2, 1], example_line 2 [192, 0, 2, 1], example_line 3 [192, 0, 2, 1]]
      \<lparr>server = example_server, ban_count = 0, too_old = 0\<rparr> = Some st'
    \<and> xdp_prog (eth_frame (replicate 12 0) [] ETH_P_IP (replicate 12 0 @ [192, 0, 2, 1] @ [10, 0, 0, 1])) (bpf_maps (server st'))
      = Some (XDP_DROP, m')"
proof -
  let ?k = "[192, 0, 2, 1] :: bytes" and ?st = "\<lparr>server = example_server, ban_count = 0, too_old = 0\<rparr>"
  let ?l = "[example_line 1 ?k, example_line 2 ?k, example_line 3 ?k]"
  have rel: "ban_rel AF_INET 30 (server ?st) example_spec" and ok: "batch_ok AF_INET ?l (server ?st) example_spec"
    unfolding ban_state.select_convs by (rule example_rel, rule example_batch, simp)
  have split: "?l = (fst (example_line 1 ?k), snd (example_line 1 ?k)) # [example_line 2 ?k, example_line 3 ?k]" by simp
  show ?thesis
    by (rule offender_packets_dropped [OF example_ops_ok rel ok split, where k = ?k and start = 100 and n = 0])
      (simp_all add: example_server_def default_config_def sf2b_defaults sightings_def example_line_def
        counted_so_far_def example_spec_def frame_ok_def)
qed

end
